(* ===== verification/Kernel_Prelude.thy ===== *)
theory Kernel_Prelude
  imports Main "HOL-Library.Word"
begin

text \<open>
  Shared vocabulary of the development: C integer conversions on \<open>int\<close> with the
  wrap-around written out, byte arrays of the kernel, faults of the C machine, error
  numbers, and the user-memory access of a driver.

  A C array is a function from indices to bytes; it carries no length, so every definition
  that indexes one tests the index against the array's declared size and returns
  \<open>Inl Oob_read\<close> or \<open>Inl Oob_write\<close> where the C program would touch memory outside it.

  \<open>copy_from_user\<close> and \<open>copy_to_user\<close> are kernel functions, so they are parameters: a
  record \<open>uaccess\<close> of functions that the drivers receive as an argument. Their documented
  behaviour is stated by the predicates \<open>user_readable\<close>, \<open>user_writable\<close> and
  \<open>uaccess_ok\<close>, which are the hypotheses of the theorems that rely on it.
\<close>

named_theorems wrap_simps "conversions between C integer types that change nothing"
named_theorems store_simps "reading back from byte arrays"

section \<open>C integer conversions\<close>

definition s32 :: "int \<Rightarrow> int" where
  "s32 x = (x + 2147483648) mod 4294967296 - 2147483648"

definition u32 :: "int \<Rightarrow> int" where
  "u32 x = x mod 4294967296"

definition s64 :: "int \<Rightarrow> int" where
  "s64 x = (x + 9223372036854775808) mod 18446744073709551616 - 9223372036854775808"

definition u64 :: "int \<Rightarrow> int" where
  "u64 x = x mod 18446744073709551616"

definition is_size_t :: "int \<Rightarrow> bool" where
  "is_size_t x \<longleftrightarrow> 0 \<le> x \<and> x < 18446744073709551616"

lemma s32_id [wrap_simps]: "- 2147483648 \<le> x \<Longrightarrow> x < 2147483648 \<Longrightarrow> s32 x = x"
  by (simp add: s32_def)

lemma u32_id [wrap_simps]: "0 \<le> x \<Longrightarrow> x < 4294967296 \<Longrightarrow> u32 x = x"
  by (simp add: u32_def)

lemma s64_id [wrap_simps]:
  "- 9223372036854775808 \<le> x \<Longrightarrow> x < 9223372036854775808 \<Longrightarrow> s64 x = x"
  by (simp add: s64_def)

lemma u64_id [wrap_simps]: "0 \<le> x \<Longrightarrow> x < 18446744073709551616 \<Longrightarrow> u64 x = x"
  by (simp add: u64_def)

lemma s32_range: "- 2147483648 \<le> s32 x \<and> s32 x < 2147483648"
proof -
  have "0 \<le> (x + 2147483648) mod 4294967296" "(x + 2147483648) mod 4294967296 < 4294967296"
    by simp_all
  then show ?thesis by (simp add: s32_def)
qed

lemma u64_range: "0 \<le> u64 x \<and> u64 x < 18446744073709551616"
  by (simp add: u64_def)

lemma u32_range: "0 \<le> u32 x \<and> u32 x < 4294967296"
  by (simp add: u32_def)

section \<open>Faults and error numbers\<close>

datatype fault = Oob_read | Oob_write | Null_deref | Uninit_use

abbreviation (input) EPERM :: int where "EPERM \<equiv> 1"
abbreviation (input) EIO :: int where "EIO \<equiv> 5"
abbreviation (input) EAGAIN :: int where "EAGAIN \<equiv> 11"
abbreviation (input) ENOMEM :: int where "ENOMEM \<equiv> 12"
abbreviation (input) EFAULT :: int where "EFAULT \<equiv> 14"
abbreviation (input) ENODEV :: int where "ENODEV \<equiv> 19"
abbreviation (input) EINVAL :: int where "EINVAL \<equiv> 22"
abbreviation (input) ENOTTY :: int where "ENOTTY \<equiv> 25"
abbreviation (input) ENOBUFS :: int where "ENOBUFS \<equiv> 105"

section \<open>Byte arrays\<close>

type_synonym byte = "8 word"
type_synonym kmem = "nat \<Rightarrow> byte"

definition load :: "kmem \<Rightarrow> nat \<Rightarrow> nat \<Rightarrow> byte list" where
  "load m a n = map m [a..<a + n]"

definition store :: "kmem \<Rightarrow> nat \<Rightarrow> byte list \<Rightarrow> kmem" where
  "store m a bs = (\<lambda>i. if a \<le> i \<and> i < a + length bs then bs ! (i - a) else m i)"

text \<open>The access of \<open>n\<close> elements from index \<open>i\<close> stays inside an array of \<open>cap\<close>.\<close>

definition in_array :: "nat \<Rightarrow> int \<Rightarrow> int \<Rightarrow> bool" where
  "in_array cap i n \<longleftrightarrow> n = 0 \<or> (0 \<le> i \<and> 0 \<le> n \<and> i + n \<le> int cap)"

lemma length_load [simp]: "length (load m a n) = n"
  by (simp add: load_def)

lemma load_0 [simp]: "load m a 0 = []"
  by (simp add: load_def)

lemma nth_load [simp]: "i < n \<Longrightarrow> load m a n ! i = m (a + i)"
  by (simp add: load_def)

lemma load_append: "load m a (n + k) = load m a n @ load m (a + n) k"
  by (rule nth_equalityI) (auto simp: nth_append)

lemma take_load: "take k (load m a n) = load m a (min k n)"
  by (rule nth_equalityI) auto

lemma drop_load: "drop k (load m a n) = load m (a + k) (n - k)"
  by (rule nth_equalityI) (auto simp: add.assoc)

lemma load_cong: "(\<And>i. a \<le> i \<Longrightarrow> i < a + n \<Longrightarrow> m i = m' i) \<Longrightarrow> load m a n = load m' a n"
  by (rule nth_equalityI) auto

lemma store_Nil [simp]: "store m a [] = m"
  by (rule ext) (auto simp: store_def)

lemma store_nth [simp]: "i < length bs \<Longrightarrow> store m a bs (a + i) = bs ! i"
  by (simp add: store_def)

lemma store_outside: "i < a \<or> a + length bs \<le> i \<Longrightarrow> store m a bs i = m i"
  by (auto simp: store_def)

lemma store_append: "store m a (xs @ ys) = store (store m a xs) (a + length xs) ys"
  by (rule ext) (auto simp: store_def nth_append intro: arg_cong [where f = "nth ys"])

lemma store_Cons: "store m a (x # xs) = store (store m a [x]) (Suc a) xs"
  using store_append [of m a "[x]" xs] by simp

lemma load_store_same [store_simps]: "load (store m a bs) a (length bs) = bs"
  by (rule nth_equalityI) auto

lemma load_store_disjoint [store_simps]:
  "b + n \<le> a \<or> a + length bs \<le> b \<Longrightarrow> load (store m a bs) b n = load m b n"
  by (rule load_cong) (auto simp: store_outside)

lemma load_store_within [store_simps]:
  "k + n \<le> length bs \<Longrightarrow> load (store m a bs) (a + k) n = take n (drop k bs)"
  by (rule nth_equalityI) (auto simp: store_def)

text \<open>One more byte behind those already stored.\<close>

lemma load_store_snoc:
  "load m a k = take k bs \<Longrightarrow> k < length bs \<Longrightarrow>
    load (store m (a + k) [bs ! k]) a (Suc k) = take (Suc k) bs"
  using load_append [of "store m (a + k) [bs ! k]" a k 1]
    load_store_same [of m "a + k" "[bs ! k]"]
  by (simp add: load_store_disjoint take_Suc_conv_app_nth)

lemma store_store_same: "length xs = length ys \<Longrightarrow> store (store m a xs) a ys = store m a ys"
  by (auto simp: store_def)

lemma store_commute:
  "a + length xs \<le> b \<or> b + length ys \<le> a \<Longrightarrow>
    store (store m a xs) b ys = store (store m b ys) a xs"
  by (rule ext) (auto simp: store_def)

section \<open>Strings of C\<close>

text \<open>
  \<open>c_string n m i\<close> reads the string at index \<open>i\<close> of an array with \<open>n\<close> bytes left, as
  \<open>%s\<close>, \<open>strlen\<close> and \<open>sscanf\<close> do; a string without a terminator in the array reads past it.
\<close>

fun c_string :: "nat \<Rightarrow> kmem \<Rightarrow> nat \<Rightarrow> fault + byte list" where
  "c_string 0 m i = Inl Oob_read"
| "c_string (Suc n) m i =
    (if m i = 0 then Inr []
     else case c_string n m (Suc i) of Inl e \<Rightarrow> Inl e | Inr bs \<Rightarrow> Inr (m i # bs))"

lemma c_string_prefix:
  assumes "load m i (length bs) = bs" and "0 \<notin> set bs" and "m (i + length bs) = 0"
    and "length bs < n"
  shows "c_string n m i = Inr bs"
  using assms
proof (induction n arbitrary: i bs)
  case 0
  then show ?case by simp
next
  case (Suc n)
  show ?case
  proof (cases bs)
    case Nil
    with Suc.prems show ?thesis by simp
  next
    case (Cons b cs)
    from Suc.prems(1) have l: "m i # load m (Suc i) (length cs) = b # cs"
      unfolding Cons using load_append [of m i 1 "length cs"] by (simp add: load_def)
    have "c_string n m (Suc i) = Inr cs"
      by (rule Suc.IH) (use l Suc.prems Cons in auto)
    with l Suc.prems(2) Cons show ?thesis by auto
  qed
qed

section \<open>Replies of a file operation\<close>

text \<open>
  What a file operation leaves behind: the device state, the value it returns, the bytes it
  put into the caller's buffer, and the bytes it printed to the kernel log.
\<close>

record 'd reply =
  r_dev :: 'd
  r_ret :: int
  r_user :: "byte list"
  r_log :: "(nat \<times> byte) list"

section \<open>Access to user memory\<close>

record uaccess =
  copy_from_user :: "int \<Rightarrow> nat \<Rightarrow> byte list \<times> nat"
  copy_to_user :: "int \<Rightarrow> byte list \<Rightarrow> nat"

text \<open>
  \<open>copy_from_user U a n\<close> is what lands in the destination and how many bytes could not be
  copied; \<open>copy_to_user U a bs\<close> is how many of the bytes could not be copied. The bytes
  that do reach the user are a prefix.
\<close>

definition uaccess_ok :: "uaccess \<Rightarrow> bool" where
  "uaccess_ok U \<longleftrightarrow>
    (\<forall>a n. length (fst (copy_from_user U a n)) = n \<and> snd (copy_from_user U a n) \<le> n) \<and>
    (\<forall>a bs. copy_to_user U a bs \<le> length bs)"

definition user_readable :: "uaccess \<Rightarrow> int \<Rightarrow> byte list \<Rightarrow> bool" where
  "user_readable U a bs \<longleftrightarrow>
    (\<forall>k n. k + n \<le> length bs \<longrightarrow> copy_from_user U (a + int k) n = (take n (drop k bs), 0))"

definition user_writable :: "uaccess \<Rightarrow> int \<Rightarrow> nat \<Rightarrow> bool" where
  "user_writable U a n \<longleftrightarrow> (\<forall>bs. length bs \<le> n \<longrightarrow> copy_to_user U a bs = 0)"

definition copied :: "byte list \<Rightarrow> nat \<Rightarrow> byte list" where
  "copied bs left = take (length bs - left) bs"

lemma copied_0 [simp]: "copied bs 0 = bs"
  by (simp add: copied_def)

lemma user_readable_byte:
  "user_readable U a (b # bs) \<Longrightarrow> copy_from_user U a (Suc 0) = ([b], 0)"
  unfolding user_readable_def by (drule spec [of _ 0], drule spec [of _ 1]) simp

lemma user_readable_tl: "user_readable U a (b # bs) \<Longrightarrow> user_readable U (a + 1) bs"
  unfolding user_readable_def
proof (intro allI impI)
  fix k n
  assume h: "\<forall>k n. k + n \<le> length (b # bs) \<longrightarrow>
      copy_from_user U (a + int k) n = (take n (drop k (b # bs)), 0)"
    and le: "k + n \<le> length bs"
  from h [rule_format, of "Suc k" n] le
  show "copy_from_user U (a + 1 + int k) n = (take n (drop k bs), 0)"
    by (simp add: algebra_simps)
qed

lemma user_readable_nth:
  "user_readable U a bs \<Longrightarrow> i < length bs \<Longrightarrow> copy_from_user U (a + int i) 1 = ([bs ! i], 0)"
  unfolding user_readable_def
  by (drule spec [of _ i], drule spec [of _ 1]) (auto simp: take_Suc_conv_app_nth hd_drop_conv_nth
    take_Suc)

lemma user_readable_all:
  "user_readable U a bs \<Longrightarrow> copy_from_user U a (length bs) = (bs, 0)"
  unfolding user_readable_def by (drule spec [of _ 0], drule spec [of _ "length bs"]) simp

lemma user_writableD: "user_writable U a n \<Longrightarrow> length bs \<le> n \<Longrightarrow> copy_to_user U a bs = 0"
  by (simp add: user_writable_def)

lemma user_writable_mono: "user_writable U a n \<Longrightarrow> k \<le> n \<Longrightarrow> user_writable U a k"
  by (simp add: user_writable_def)

text \<open>
  A user address space in which the bytes \<open>bs\<close> lie at \<open>a\<close> and nothing else is mapped for
  reading, and in which every address can be written: the instance the witnesses use.
\<close>

definition flat_uaccess :: "int \<Rightarrow> byte list \<Rightarrow> uaccess" where
  "flat_uaccess a bs =
    \<lparr>copy_from_user = (\<lambda>x n.
       if a \<le> x \<and> x + int n \<le> a + int (length bs) then (take n (drop (nat (x - a)) bs), 0)
       else (replicate n 0, n)),
     copy_to_user = (\<lambda>x ys. 0)\<rparr>"

lemma flat_readable [simp]: "user_readable (flat_uaccess a bs) a bs"
  by (auto simp: user_readable_def flat_uaccess_def)

lemma flat_writable [simp]: "user_writable (flat_uaccess a bs) x n"
  by (simp add: user_writable_def flat_uaccess_def)

lemma flat_ok [simp]: "uaccess_ok (flat_uaccess a bs)"
  by (auto simp: uaccess_ok_def flat_uaccess_def)

lemmas user_access_simps = user_readable_byte user_writableD

section \<open>The loop that copies a write in, one byte at a time\<close>

text \<open>
  \<open>for (len = start; len < bound; ++len) { if (copy_from_user(&byte[len], buf++, 1) != 0)
  break; printk(...); }\<close> as two drivers have it: \<open>len\<close> is an \<open>int\<close>, \<open>bound\<close> a \<open>size_t\<close>.
  The loop ends at the bound, at a fault of the copy, or with a store outside the array of
  \<open>cap\<close> bytes; the last bounds the recursion.
\<close>

function byte_copy_loop :: "nat \<Rightarrow> uaccess \<Rightarrow> int \<Rightarrow> int \<Rightarrow> kmem \<Rightarrow> int \<Rightarrow> (nat \<times> byte) list \<Rightarrow>
    fault + kmem \<times> int \<times> (nat \<times> byte) list" where
  "byte_copy_loop cap U bound buf m len logs =
    (if \<not> u64 len < bound then Inr (m, len, logs)
     else if len < 0 \<or> int cap \<le> len then Inl Oob_write
     else
       let (bs, left) = copy_from_user U buf 1;
           m' = store m (nat len) bs
       in if left \<noteq> 0 then Inr (m', len, logs)
          else byte_copy_loop cap U bound (buf + 1) m' (len + 1) (logs @ [(nat len, m' (nat len))]))"
  by pat_completeness auto
termination
  by (relation "measure (\<lambda>(cap, U, bound, buf, m, len, logs). nat (int cap - len))") auto

declare byte_copy_loop.simps [simp del]

text \<open>Over a readable stretch of the user buffer the loop is one bulk store.\<close>

lemma byte_copy_loop_prefix:
  assumes "user_readable U buf bs" and "0 \<le> len" and "len + int (length bs) \<le> int cap"
    and "len + int (length bs) \<le> bound" and "bound \<le> 18446744073709551616"
  shows "byte_copy_loop cap U bound buf m len logs =
    byte_copy_loop cap U bound (buf + int (length bs)) (store m (nat len) bs)
      (len + int (length bs)) (logs @ enumerate (nat len) bs)"
  using assms
proof (induction bs arbitrary: buf m len logs)
  case Nil
  then show ?case by simp
next
  case (Cons b bs)
  let ?m = "store m (nat len) [b]"
  have st: "store ?m (nat (len + 1)) bs = store m (nat len) (b # bs)"
    using Cons.prems store_Cons [of m "nat len" b bs] by (simp add: nat_add_distrib)
  have "byte_copy_loop cap U bound buf m len logs =
      byte_copy_loop cap U bound (buf + 1) ?m (len + 1) (logs @ [(nat len, b)])"
    using Cons.prems store_nth [of 0 "[b]" m "nat len"]
    by (subst byte_copy_loop.simps) (simp add: user_readable_byte wrap_simps Let_def)
  also have "\<dots> = byte_copy_loop cap U bound (buf + 1 + int (length bs))
      (store ?m (nat (len + 1)) bs) (len + 1 + int (length bs))
      ((logs @ [(nat len, b)]) @ enumerate (nat (len + 1)) bs)"
    by (rule Cons.IH) (use Cons.prems in \<open>auto intro: user_readable_tl\<close>)
  finally show ?case
    using Cons.prems st by (simp add: nat_add_distrib algebra_simps)
qed

lemma byte_copy_loop_end:
  "0 \<le> len \<Longrightarrow> len = bound \<Longrightarrow> len < 18446744073709551616 \<Longrightarrow>
    byte_copy_loop cap U bound buf m len logs = Inr (m, len, logs)"
  by (subst byte_copy_loop.simps) (simp add: wrap_simps)

lemma byte_copy_loop_overflow:
  "len = int cap \<Longrightarrow> len < bound \<Longrightarrow> len < 18446744073709551616 \<Longrightarrow>
    byte_copy_loop cap U bound buf m len logs = Inl Oob_write"
  by (subst byte_copy_loop.simps) (simp add: wrap_simps)

lemma byte_copy_loop_user_fault:
  "0 \<le> len \<Longrightarrow> len < int cap \<Longrightarrow> len < bound \<Longrightarrow> len < 18446744073709551616 \<Longrightarrow>
    copy_from_user U buf 1 = (bs, left) \<Longrightarrow> left \<noteq> 0 \<Longrightarrow>
    byte_copy_loop cap U bound buf m len logs = Inr (store m (nat len) bs, len, logs)"
  by (subst byte_copy_loop.simps) (simp add: wrap_simps)

text \<open>More bytes than the array holds: the loop stores outside it.\<close>

lemma byte_copy_loop_too_long:
  assumes "user_readable U buf bs" and "0 \<le> len" and "len \<le> int cap"
    and "int cap < len + int (length bs)" and "len + int (length bs) \<le> bound"
    and "bound < 18446744073709551616"
  shows "byte_copy_loop cap U bound buf m len logs = Inl Oob_write"
proof -
  let ?k = "nat (int cap - len)"
  have k: "int ?k = int cap - len" "?k \<le> length bs"
    using assms by auto
  have u: "user_readable U buf (take ?k bs)"
    using assms(1) k(2) by (auto simp: user_readable_def drop_take min_def)
  show ?thesis
    by (subst byte_copy_loop_prefix [OF u])
      (use assms k in \<open>auto simp: byte_copy_loop_overflow min_def\<close>)
qed

end
