(* ===== verification/Storage_Interface.thy ===== *)
theory Storage_Interface
  imports Kernel_Prelude
begin

text \<open>
  The contract of a device that stores bytes at addresses: what a read returns after a
  write. The share-memory driver, the block device and the mapped page provide it; the
  lemmas about sequences of transfers are proved here once.
\<close>

locale byte_store =
  fixes rd :: "'s \<Rightarrow> nat \<Rightarrow> nat \<Rightarrow> byte list"
    and wr :: "'s \<Rightarrow> nat \<Rightarrow> byte list \<Rightarrow> 's"
    and cap :: nat
  assumes rd_split:
      "a + n + k \<le> cap \<Longrightarrow> rd s a (n + k) = rd s a n @ rd s (a + n) k"
    and rd_wr_same: "a + length bs \<le> cap \<Longrightarrow> rd (wr s a bs) a (length bs) = bs"
    and rd_wr_other:
      "a + length bs \<le> cap \<Longrightarrow> b + n \<le> cap \<Longrightarrow> b + n \<le> a \<or> a + length bs \<le> b \<Longrightarrow>
        rd (wr s a bs) b n = rd s b n"
begin

lemma rd_after_two_writes:
  assumes "a + length xs + length ys \<le> cap"
  shows "rd (wr (wr s a xs) (a + length xs) ys) a (length xs + length ys) = xs @ ys"
proof -
  let ?t = "wr (wr s a xs) (a + length xs) ys"
  have "rd ?t a (length xs + length ys) =
      rd ?t a (length xs) @ rd ?t (a + length xs) (length ys)"
    by (rule rd_split) (use assms in simp)
  moreover have "rd ?t a (length xs) = xs"
    using assms by (simp add: rd_wr_other rd_wr_same)
  moreover have "rd ?t (a + length xs) (length ys) = ys"
    using assms by (simp add: rd_wr_same)
  ultimately show ?thesis by simp
qed

lemma rd_last_write_wins:
  "length xs = length ys \<Longrightarrow> a + length ys \<le> cap \<Longrightarrow> rd (wr (wr s a xs) a ys) a (length ys) = ys"
  by (simp add: rd_wr_same)

text \<open>A read outside every range of a list of writes sees the original contents.\<close>

fun wr_all :: "'s \<Rightarrow> (nat \<times> byte list) list \<Rightarrow> 's" where
  "wr_all s [] = s"
| "wr_all s ((a, bs) # ws) = wr_all (wr s a bs) ws"

lemma rd_wr_all_other:
  assumes "\<forall>(a, bs) \<in> set ws. a + length bs \<le> cap \<and> (b + n \<le> a \<or> a + length bs \<le> b)"
    and "b + n \<le> cap"
  shows "rd (wr_all s ws) b n = rd s b n"
  using assms
proof (induction ws arbitrary: s)
  case Nil
  then show ?case by simp
next
  case (Cons w ws)
  obtain a bs where w: "w = (a, bs)" by (cases w)
  with Cons show ?case by (auto simp: rd_wr_other)
qed

end

section \<open>Byte queues\<close>

text \<open>
  The contract of a device that queues bytes: what is put in comes out in order. A client is
  a sequence of transfers; the conservation law says that the bytes received so far followed
  by the bytes still queued are the bytes queued at the start followed by those sent.
\<close>

datatype fifo_op = Put "byte list" | Get nat

fun fifo_run :: "(byte list \<Rightarrow> 's \<Rightarrow> 's) \<Rightarrow> (nat \<Rightarrow> 's \<Rightarrow> byte list \<times> 's) \<Rightarrow> 's \<Rightarrow>
    fifo_op list \<Rightarrow> byte list \<times> 's" where
  "fifo_run put get s [] = ([], s)"
| "fifo_run put get s (Put bs # ops) = fifo_run put get (put bs s) ops"
| "fifo_run put get s (Get n # ops) =
    (let (out, t) = get n s; (rest, u) = fifo_run put get t ops in (out @ rest, u))"

fun fifo_sent :: "fifo_op list \<Rightarrow> byte list" where
  "fifo_sent [] = []"
| "fifo_sent (Put bs # ops) = bs @ fifo_sent ops"
| "fifo_sent (Get n # ops) = fifo_sent ops"

text \<open>The transfers a device promises to serve: \<open>room\<close> for a put, \<open>chunk\<close> for a get.\<close>

fun fifo_served :: "(byte list \<Rightarrow> 's \<Rightarrow> 's) \<Rightarrow> (nat \<Rightarrow> 's \<Rightarrow> byte list \<times> 's) \<Rightarrow>
    ('s \<Rightarrow> byte list \<Rightarrow> bool) \<Rightarrow> (nat \<Rightarrow> bool) \<Rightarrow> 's \<Rightarrow> fifo_op list \<Rightarrow> bool" where
  "fifo_served put get room chunk s [] = True"
| "fifo_served put get room chunk s (Put bs # ops) =
    (room s bs \<and> fifo_served put get room chunk (put bs s) ops)"
| "fifo_served put get room chunk s (Get n # ops) =
    (chunk n \<and> fifo_served put get room chunk (snd (get n s)) ops)"

lemma fifo_run_append:
  "fifo_run put get s (xs @ ys) =
    (let (out, t) = fifo_run put get s xs; (rest, u) = fifo_run put get t ys in (out @ rest, u))"
proof (induction xs arbitrary: s)
  case Nil
  then show ?case by simp
next
  case (Cons x xs)
  then show ?case by (cases x) (simp_all add: Let_def case_prod_beta)
qed

locale byte_fifo =
  fixes put :: "byte list \<Rightarrow> 's \<Rightarrow> 's"
    and get :: "nat \<Rightarrow> 's \<Rightarrow> byte list \<times> 's"
    and content :: "'s \<Rightarrow> byte list"
    and ok :: "'s \<Rightarrow> bool"
    and room :: "'s \<Rightarrow> byte list \<Rightarrow> bool"
    and chunk :: "nat \<Rightarrow> bool"
  assumes put_content: "ok s \<Longrightarrow> room s bs \<Longrightarrow> content (put bs s) = content s @ bs"
    and put_ok: "ok s \<Longrightarrow> room s bs \<Longrightarrow> ok (put bs s)"
    and get_out: "ok s \<Longrightarrow> chunk n \<Longrightarrow> fst (get n s) = take n (content s)"
    and get_content: "ok s \<Longrightarrow> chunk n \<Longrightarrow> content (snd (get n s)) = drop n (content s)"
    and get_ok: "ok s \<Longrightarrow> chunk n \<Longrightarrow> ok (snd (get n s))"
begin

lemma conservation:
  assumes "ok s" and "fifo_served put get room chunk s ops"
  shows "fst (fifo_run put get s ops) @ content (snd (fifo_run put get s ops)) =
    content s @ fifo_sent ops"
  using assms
proof (induction ops arbitrary: s)
  case Nil
  then show ?case by simp
next
  case (Cons oper ops)
  show ?case
  proof (cases oper)
    case (Put bs)
    with Cons show ?thesis by (simp add: put_content put_ok)
  next
    case (Get n)
    with Cons.prems have IH: "fst (fifo_run put get (snd (get n s)) ops) @
        content (snd (fifo_run put get (snd (get n s)) ops)) =
        drop n (content s) @ fifo_sent ops"
      by (subst Cons.IH) (auto simp: get_ok get_content)
    with Get Cons.prems show ?thesis
      by (simp add: Let_def case_prod_beta get_out)
  qed
qed

lemma run_ok:
  "ok s \<Longrightarrow> fifo_served put get room chunk s ops \<Longrightarrow> ok (snd (fifo_run put get s ops))"
proof (induction ops arbitrary: s)
  case Nil
  then show ?case by simp
next
  case (Cons oper ops)
  then show ?case by (cases oper) (simp_all add: Let_def case_prod_beta put_ok get_ok)
qed

lemma gets_served: "chunk n \<Longrightarrow> fifo_served put get room chunk s (replicate k (Get n))"
  by (induction k arbitrary: s) auto

text \<open>Enough reads of one chunk size empty the device and deliver its whole content.\<close>

lemma drain:
  assumes "ok s" and "chunk n" and "0 < n" and "length (content s) \<le> k"
  shows "fst (fifo_run put get s (replicate k (Get n))) = content s \<and>
    content (snd (fifo_run put get s (replicate k (Get n)))) = []"
  using assms
proof (induction k arbitrary: s)
  case 0
  then show ?case by simp
next
  case (Suc k)
  have "length (content (snd (get n s))) \<le> k"
    using Suc.prems by (simp add: get_content)
  with Suc show ?case
    by (simp add: Let_def case_prod_beta get_out get_content get_ok)
qed

end

end
