(* ===== verification/Scheduler.thy ===== *)
theory Scheduler
  imports Main
begin

text \<open>
  Threads that run the same driver concurrently. A system is a function
  \<open>tstep i s\<close>: the state after the next atomic step of thread \<open>i\<close>, or \<open>None\<close> when that
  thread has finished or must wait. Everything that can happen is the relation \<open>reaches\<close>;
  one particular interleaving is a list of thread numbers given to \<open>run_schedule\<close>.
\<close>

inductive reaches :: "('t \<Rightarrow> 's \<Rightarrow> 's option) \<Rightarrow> 's \<Rightarrow> 's \<Rightarrow> bool"
  for tstep :: "'t \<Rightarrow> 's \<Rightarrow> 's option" and s :: 's where
  here: "reaches tstep s s"
| more: "reaches tstep s t \<Longrightarrow> tstep i t = Some u \<Longrightarrow> reaches tstep s u"

fun run_schedule :: "('t \<Rightarrow> 's \<Rightarrow> 's option) \<Rightarrow> 't list \<Rightarrow> 's \<Rightarrow> 's option" where
  "run_schedule tstep [] s = Some s"
| "run_schedule tstep (i # is) s =
    (case tstep i s of None \<Rightarrow> None | Some t \<Rightarrow> run_schedule tstep is t)"

lemma reaches_trans: "reaches tstep t u \<Longrightarrow> reaches tstep s t \<Longrightarrow> reaches tstep s u"
  by (induction rule: reaches.induct) (auto intro: reaches.more)

lemma reaches_first: "tstep i s = Some t \<Longrightarrow> reaches tstep t u \<Longrightarrow> reaches tstep s u"
  by (erule reaches_trans) (rule reaches.more [OF reaches.here])

lemma run_schedule_reaches: "run_schedule tstep is s = Some t \<Longrightarrow> reaches tstep s t"
proof (induction "is" arbitrary: s)
  case Nil
  then show ?case by (simp add: reaches.here)
next
  case (Cons i "is")
  then show ?case by (auto split: option.splits intro: reaches_first)
qed

lemma run_schedule_append:
  "run_schedule tstep (is @ js) s = Option.bind (run_schedule tstep is s) (run_schedule tstep js)"
  by (induction "is" arbitrary: s) (auto split: option.splits)

text \<open>A thread that makes some steps while no other does.\<close>

definition runs_alone :: "('t \<Rightarrow> 's \<Rightarrow> 's option) \<Rightarrow> 't \<Rightarrow> 's \<Rightarrow> 's \<Rightarrow> bool" where
  "runs_alone tstep i s t \<longleftrightarrow> (\<exists>n. run_schedule tstep (replicate n i) s = Some t)"

lemma runs_alone_here: "runs_alone tstep i s s"
  unfolding runs_alone_def by (rule exI [of _ 0]) simp

lemma runs_alone_step: "tstep i s = Some t \<Longrightarrow> runs_alone tstep i t u \<Longrightarrow> runs_alone tstep i s u"
  unfolding runs_alone_def by (metis replicate_Suc run_schedule.simps(2) option.simps(5))

lemma runs_alone_trans: "runs_alone tstep i s t \<Longrightarrow> runs_alone tstep i t u \<Longrightarrow> runs_alone tstep i s u"
  unfolding runs_alone_def by (metis replicate_add run_schedule_append bind.bind_lunit)

lemma runs_alone_1: "tstep i s = Some t \<Longrightarrow> runs_alone tstep i s t"
  by (erule runs_alone_step) (rule runs_alone_here)

lemma runs_alone_2: "tstep i s = Some t \<Longrightarrow> tstep i t = Some u \<Longrightarrow> runs_alone tstep i s u"
  by (erule runs_alone_step) (rule runs_alone_1)

lemma runs_alone_reaches: "runs_alone tstep i s t \<Longrightarrow> reaches tstep s t"
  unfolding runs_alone_def by (blast intro: run_schedule_reaches)

text \<open>A property that holds at the start and survives every step of every thread.\<close>

locale threaded_system =
  fixes tstep :: "'t \<Rightarrow> 's \<Rightarrow> 's option" and start :: "'s \<Rightarrow> bool" and inv :: "'s \<Rightarrow> bool"
  assumes start_inv: "start s \<Longrightarrow> inv s"
    and step_inv: "inv s \<Longrightarrow> tstep i s = Some t \<Longrightarrow> inv t"
begin

lemma reaches_inv: "reaches tstep s t \<Longrightarrow> inv s \<Longrightarrow> inv t"
  by (induction rule: reaches.induct) (auto intro: step_inv)

lemma reachable_inv: "start s \<Longrightarrow> reaches tstep s t \<Longrightarrow> inv t"
  by (blast intro: reaches_inv start_inv)

end

text \<open>
  A system whose steps use up a finite supply, so that every schedule ends, and where
  some thread can always move until all are finished.
\<close>

locale terminating_system = threaded_system +
  fixes work :: "'b \<Rightarrow> nat" and finished :: "'b \<Rightarrow> bool"
  assumes work_decreases: "inv s \<Longrightarrow> tstep i s = Some t \<Longrightarrow> work t < work s"
    and progress: "inv s \<Longrightarrow> \<not> finished s \<Longrightarrow> \<exists>i t. tstep i s = Some t"
begin

lemma schedule_length: "inv s \<Longrightarrow> run_schedule tstep is s = Some t \<Longrightarrow> length is + work t \<le> work s"
proof (induction "is" arbitrary: s)
  case Nil
  then show ?case by simp
next
  case (Cons i "is")
  then obtain u where u: "tstep i s = Some u" "run_schedule tstep is u = Some t"
    by (auto split: option.splits)
  have "length is + work t \<le> work u" using Cons.IH Cons.prems(1) u step_inv by blast
  with work_decreases [OF Cons.prems(1) u(1)] show ?case by simp
qed

lemma stuck_finished: "inv s \<Longrightarrow> (\<And>i. tstep i s = None) \<Longrightarrow> finished s"
  using progress [of s] by fastforce

lemma can_finish: "inv s \<Longrightarrow> \<exists>t. reaches tstep s t \<and> finished t"
proof (induction "work s" arbitrary: s rule: less_induct)
  case less
  show ?case
  proof (cases "finished s")
    case True
    then show ?thesis by (blast intro: reaches.here)
  next
    case False
    then obtain i u where u: "tstep i s = Some u" using progress less.prems by blast
    with less obtain t where "reaches tstep u t" "finished t"
      using work_decreases step_inv by blast
    with u show ?thesis by (blast intro: reaches_first)
  qed
qed

end

text \<open>
  A system that implements another: \<open>abs\<close> forgets what the other does not have, and each step is
  one of the other's or none at all.
\<close>

locale refined_system = threaded_system +
  fixes atstep :: "'c \<Rightarrow> 'd \<Rightarrow> 'd option" and abs :: "'b \<Rightarrow> 'd"
  assumes refines: "inv s \<Longrightarrow> tstep i s = Some t \<Longrightarrow> abs t = abs s \<or> (\<exists>j. atstep j (abs s) = Some (abs t))"
begin

lemma reaches_abs: "reaches tstep s t \<Longrightarrow> inv s \<Longrightarrow> reaches atstep (abs s) (abs t)"
proof (induction rule: reaches.induct)
  case here
  show ?case by (rule reaches.here)
next
  case (more t i u)
  then show ?case using refines [OF reaches_inv] by (metis reaches.more)
qed

end

end
