(* ===== verification/File_Operate.thy ===== *)
theory File_Operate
  imports Storage_Interface
begin

text \<open>
  The character device of \<open>03-fileOperate/fileOperate/RWTest/fileOperate_drv.c\<close> and its two
  test programs. The four globals of the driver are the record \<open>rw_dev\<close>; \<open>example_read\<close> and
  \<open>example_write\<close> are \<open>rw_example_read\<close> and \<open>rw_example_write\<close>. The device is a byte
  buffer that writes append to and reads drain; \<open>pending\<close> is that abstract buffer.
\<close>

section \<open>State and operations\<close>

record rw_dev =
  postion :: int
  byte :: kmem
  buff_len :: int
  buff_pos :: int

definition rw_initial :: rw_dev where
  "rw_initial = \<lparr>postion = 0, byte = (\<lambda>_. 0), buff_len = 0, buff_pos = 0\<rparr>"

definition BYTE_SIZE :: nat where
  "BYTE_SIZE = 100"

text \<open>\<open>open\<close> and \<open>release\<close> only print; the device is unchanged and the result is 0.\<close>

definition rw_example_open :: "rw_dev \<Rightarrow> rw_dev \<times> int" where
  "rw_example_open d = (d, 0)"

definition rw_example_close :: "rw_dev \<Rightarrow> rw_dev \<times> int" where
  "rw_example_close d = (d, 0)"

text \<open>
  \<open>buff_len < size\<close> compares an \<open>int\<close> with a \<open>size_t\<close>, so the \<open>int\<close> is converted. The
  log loop prints \<open>byte[i]\<close>, counting from 0 and not from \<open>postion\<close>; the guard on it is
  the access to the array that the loop makes.
\<close>

definition rw_example_read :: "uaccess \<Rightarrow> int \<Rightarrow> int \<Rightarrow> rw_dev \<Rightarrow> fault + rw_dev reply" where
  "rw_example_read U buf sz d =
    (let short = u64 (buff_len d) < sz;
         rlen = (if short then u64 (buff_len d) else sz)
     in if short \<and> rlen = 0
        then Inr \<lparr>r_dev = d\<lparr>buff_pos := 0, postion := 0\<rparr>, r_ret = 0, r_user = [], r_log = []\<rparr>
        else if \<not> in_array BYTE_SIZE (postion d) rlen then Inl Oob_read
        else
          let bs = load (byte d) (nat (postion d)) (nat rlen);
              left = copy_to_user U buf bs
          in if left \<noteq> 0
             then Inr \<lparr>r_dev = d, r_ret = - EFAULT, r_user = copied bs left, r_log = []\<rparr>
             else Inr \<lparr>r_dev = d\<lparr>postion := s32 (postion d + sz),
                                  buff_len := s32 (buff_len d - rlen)\<rparr>,
                       r_ret = s64 rlen, r_user = bs,
                       r_log = map (\<lambda>i. (i, byte d i)) [0..<nat rlen]\<rparr>)"

text \<open>
  The loop variable of \<open>example_write\<close> is the global \<open>buff_len\<close> itself, which starts at
  \<open>buff_pos\<close>; the bound \<open>size + buff_pos\<close> is computed in \<open>size_t\<close>. Whatever ended the loop,
  the return value is \<open>size\<close>.
\<close>

definition rw_example_write :: "uaccess \<Rightarrow> int \<Rightarrow> int \<Rightarrow> rw_dev \<Rightarrow> fault + rw_dev reply" where
  "rw_example_write U buf sz d =
    (case byte_copy_loop BYTE_SIZE U (u64 (sz + u64 (buff_pos d))) buf (byte d) (buff_pos d) [] of
       Inl e \<Rightarrow> Inl e
     | Inr (m, len, logs) \<Rightarrow>
         Inr \<lparr>r_dev = d\<lparr>byte := m, buff_len := len, buff_pos := len\<rparr>,
              r_ret = s64 sz, r_user = [], r_log = logs\<rparr>)"

section \<open>The buffer the driver implements\<close>

definition pending :: "rw_dev \<Rightarrow> byte list" where
  "pending d = load (byte d) (nat (postion d)) (nat (buff_len d))"

text \<open>
  \<open>rw_wf\<close>: what is pending lies in the written part of the array. \<open>rw_filling\<close>: nothing has
  been read since the device was last empty, the only states in which a write appends.
\<close>

definition rw_wf :: "rw_dev \<Rightarrow> bool" where
  "rw_wf d \<longleftrightarrow> 0 \<le> buff_pos d \<and> buff_pos d \<le> 100 \<and> 0 \<le> buff_len d \<and>
    (0 < buff_len d \<longrightarrow> 0 \<le> postion d \<and> postion d + buff_len d = buff_pos d)"

definition rw_filling :: "rw_dev \<Rightarrow> bool" where
  "rw_filling d \<longleftrightarrow> rw_wf d \<and> postion d = 0 \<and> buff_len d = buff_pos d"

lemma rw_filling_initial: "rw_filling rw_initial"
  by (simp add: rw_filling_def rw_wf_def rw_initial_def)

lemma length_pending: "rw_wf d \<Longrightarrow> int (length (pending d)) = buff_len d"
  by (simp add: pending_def rw_wf_def)

lemma rw_wf_len: "rw_wf d \<Longrightarrow> 0 \<le> buff_len d \<and> buff_len d \<le> 100"
  by (auto simp: rw_wf_def)

lemma rw_write_eq:
  assumes "user_readable U buf bs" and "rw_wf d" and "buff_pos d + int (length bs) \<le> 100"
  shows "rw_example_write U buf (int (length bs)) d =
    Inr \<lparr>r_dev = d\<lparr>byte := store (byte d) (nat (buff_pos d)) bs,
                   buff_len := buff_pos d + int (length bs),
                   buff_pos := buff_pos d + int (length bs)\<rparr>,
         r_ret = int (length bs), r_user = [], r_log = enumerate (nat (buff_pos d)) bs\<rparr>"
  using assms
  by (simp add: rw_example_write_def byte_copy_loop_prefix [OF assms(1)] byte_copy_loop_end
    BYTE_SIZE_def wrap_simps rw_wf_def add.commute)

lemma rw_write_overflow_aux:
  assumes "user_readable U buf bs" and "rw_wf d" and "100 < buff_pos d + int (length bs)"
    and "is_size_t (int (length bs) + buff_pos d)"
  shows "rw_example_write U buf (int (length bs)) d = Inl Oob_write"
proof -
  have b: "u64 (int (length bs) + u64 (buff_pos d)) = buff_pos d + int (length bs)"
    using assms by (simp add: wrap_simps is_size_t_def rw_wf_def)
  have "byte_copy_loop BYTE_SIZE U (buff_pos d + int (length bs)) buf (byte d) (buff_pos d) [] =
      Inl Oob_write"
    by (rule byte_copy_loop_too_long [OF assms(1)])
      (use assms in \<open>auto simp: rw_wf_def BYTE_SIZE_def is_size_t_def\<close>)
  then show ?thesis by (simp add: rw_example_write_def b)
qed

lemma rw_read_empty:
  "buff_len d = 0 \<Longrightarrow> 0 < sz \<Longrightarrow> rw_example_read U buf sz d =
    Inr \<lparr>r_dev = d\<lparr>buff_pos := 0, postion := 0\<rparr>, r_ret = 0, r_user = [], r_log = []\<rparr>"
  by (simp add: rw_example_read_def wrap_simps)

lemma rw_read_raw:
  assumes "0 < buff_len d" and "buff_len d \<le> 100" and "is_size_t sz" and "user_writable U buf 100"
    and "in_array BYTE_SIZE (postion d) (min (buff_len d) sz)"
  shows "rw_example_read U buf sz d =
    Inr \<lparr>r_dev = d\<lparr>postion := s32 (postion d + sz), buff_len := buff_len d - min (buff_len d) sz\<rparr>,
         r_ret = min (buff_len d) sz, r_user = take (nat sz) (pending d),
         r_log = map (\<lambda>i. (i, byte d i)) [0..<nat (min (buff_len d) sz)]\<rparr>"
proof -
  let ?r = "min (buff_len d) sz"
  have n: "u64 (buff_len d) = buff_len d"
    using assms(1,2) by (simp add: wrap_simps)
  have r: "(if buff_len d < sz then buff_len d else sz) = ?r" by simp
  have bs: "load (byte d) (nat (postion d)) (nat ?r) = take (nat sz) (pending d)"
    using assms by (cases "sz \<le> buff_len d") (simp_all add: pending_def take_load is_size_t_def)
  have u: "copy_to_user U buf (take (nat sz) (pending d)) = 0"
    by (rule user_writableD [OF assms(4)]) (use assms(2) in \<open>auto simp: pending_def min_def\<close>)
  have s: "s32 (buff_len d - ?r) = buff_len d - ?r" "s64 ?r = ?r"
    using assms by (auto simp: wrap_simps is_size_t_def min_def)
  have nz: "\<not> (buff_len d < sz \<and> ?r = 0)" using assms(1) by auto
  show ?thesis
    using nz assms(5) unfolding rw_example_read_def n Let_def r bs by (simp only: u s) simp
qed

lemma rw_read_eq:
  assumes "rw_wf d" and "0 < buff_len d" and "is_size_t sz" and "user_writable U buf 100"
  shows "rw_example_read U buf sz d =
    Inr \<lparr>r_dev = d\<lparr>postion := s32 (postion d + sz), buff_len := buff_len d - min (buff_len d) sz\<rparr>,
         r_ret = min (buff_len d) sz, r_user = take (nat sz) (pending d),
         r_log = map (\<lambda>i. (i, byte d i)) [0..<nat (min (buff_len d) sz)]\<rparr>"
  using assms rw_wf_len [OF assms(1)]
  by (intro rw_read_raw) (auto simp: in_array_def BYTE_SIZE_def rw_wf_def is_size_t_def)

lemma pending_after_read:
  assumes "rw_wf d" and "0 < buff_len d" and "0 \<le> sz"
  shows "pending (d\<lparr>postion := s32 (postion d + sz), buff_len := buff_len d - min (buff_len d) sz\<rparr>) =
    drop (nat sz) (pending d)"
proof (cases "sz < buff_len d")
  case True
  with assms show ?thesis
    by (simp add: pending_def drop_load wrap_simps rw_wf_def nat_add_distrib nat_diff_distrib)
next
  case False
  with assms show ?thesis by (simp add: pending_def)
qed

lemma rw_wf_after_read:
  "rw_wf d \<Longrightarrow> 0 < buff_len d \<Longrightarrow> 0 \<le> sz \<Longrightarrow>
    rw_wf (d\<lparr>postion := s32 (postion d + sz), buff_len := buff_len d - min (buff_len d) sz\<rparr>)"
  by (cases "sz < buff_len d") (auto simp: rw_wf_def wrap_simps)

section \<open>The driver as a byte queue\<close>

text \<open>
  Transfers with a caller whose buffer is mapped. A put needs the device in its filling
  phase and room in the array; a get needs a buffer of at least one byte.
\<close>

definition rw_put :: "byte list \<Rightarrow> rw_dev \<Rightarrow> rw_dev" where
  "rw_put bs d =
    (case rw_example_write (flat_uaccess 0 bs) 0 (int (length bs)) d of
       Inl e \<Rightarrow> d | Inr r \<Rightarrow> r_dev r)"

definition rw_get :: "nat \<Rightarrow> rw_dev \<Rightarrow> byte list \<times> rw_dev" where
  "rw_get n d =
    (case rw_example_read (flat_uaccess 0 []) 0 (int n) d of
       Inl e \<Rightarrow> ([], d) | Inr r \<Rightarrow> (r_user r, r_dev r))"

definition rw_room :: "rw_dev \<Rightarrow> byte list \<Rightarrow> bool" where
  "rw_room d bs \<longleftrightarrow> postion d = 0 \<and> buff_len d = buff_pos d \<and> buff_pos d + int (length bs) \<le> 100"

definition rw_chunk :: "nat \<Rightarrow> bool" where
  "rw_chunk n \<longleftrightarrow> 0 < n \<and> is_size_t (int n)"

lemma rw_put_eq:
  "rw_wf d \<Longrightarrow> rw_room d bs \<Longrightarrow> rw_put bs d =
    d\<lparr>byte := store (byte d) (nat (buff_pos d)) bs, buff_len := buff_pos d + int (length bs),
      buff_pos := buff_pos d + int (length bs)\<rparr>"
  by (simp add: rw_put_def rw_room_def rw_write_eq)

lemma rw_get_eq:
  assumes "rw_wf d" and "rw_chunk n"
  shows "rw_get n d = (take n (pending d),
    if buff_len d = 0 then d\<lparr>buff_pos := 0, postion := 0\<rparr>
    else d\<lparr>postion := s32 (postion d + int n), buff_len := buff_len d - min (buff_len d) (int n)\<rparr>)"
proof (cases "buff_len d = 0")
  case True
  with assms show ?thesis by (simp add: rw_get_def rw_read_empty rw_chunk_def pending_def)
next
  case False
  with assms have "0 < buff_len d" using rw_wf_len [of d] by simp
  with assms show ?thesis by (simp add: rw_get_def rw_read_eq rw_chunk_def)
qed

interpretation rwq: byte_fifo rw_put rw_get pending rw_wf rw_room rw_chunk
proof (unfold_locales, goal_cases)
  case (1 d bs)
  then show ?case
    using load_append [of "store (byte d) (nat (buff_pos d)) bs" 0 "nat (buff_pos d)" "length bs"]
    by (simp add: rw_put_eq pending_def rw_room_def rw_wf_def store_simps nat_add_distrib)
next
  case (2 d bs)
  then show ?case by (auto simp: rw_put_eq rw_wf_def rw_room_def)
next
  case (3 d n)
  then show ?case by (simp add: rw_get_eq)
next
  case (4 d n)
  then show ?case
    using rw_wf_len [of d] pending_after_read [of d "int n"]
    by (auto simp: rw_get_eq) (simp_all add: pending_def)
next
  case (5 d n)
  then show ?case
    using rw_wf_len [of d] rw_wf_after_read [of d "int n"]
    by (auto simp: rw_get_eq) (simp_all add: rw_wf_def)
qed

section \<open>The test programs\<close>

text \<open>
  \<open>write_app.c\<close> writes the five bytes of \<open>num\<close>, an array of ten that holds "1234";
  \<open>read_app.c\<close> reads up to five bytes into an uninitialised array of ten and prints it as a
  string. The argument \<open>fd\<close> is what \<open>open\<close> returned; \<open>num0\<close> is what the stack held.
\<close>

datatype app_outcome = Open_failure | Printed "byte list"

definition write_app_num :: "byte list" where
  "write_app_num = [0x31, 0x32, 0x33, 0x34, 0, 0, 0, 0, 0, 0]"

definition write_app :: "int \<Rightarrow> rw_dev \<Rightarrow> fault + rw_dev \<times> app_outcome" where
  "write_app fd d =
    (if fd \<noteq> -1
     then (case rw_example_write (flat_uaccess 0 (take 5 write_app_num)) 0 5 d of
             Inl e \<Rightarrow> Inl e
           | Inr r \<Rightarrow>
               (case c_string 10 (store (\<lambda>_. 0) 0 write_app_num) 0 of
                  Inl e \<Rightarrow> Inl e | Inr s \<Rightarrow> Inr (r_dev r, Printed s)))
     else Inr (d, Open_failure))"

definition read_app :: "int \<Rightarrow> kmem \<Rightarrow> rw_dev \<Rightarrow> fault + rw_dev \<times> app_outcome" where
  "read_app fd num0 d =
    (if fd \<noteq> -1
     then (case rw_example_read (flat_uaccess 0 []) 0 5 d of
             Inl e \<Rightarrow> Inl e
           | Inr r \<Rightarrow>
               (case c_string 10 (store num0 0 (r_user r)) 0 of
                  Inl e \<Rightarrow> Inl e | Inr s \<Rightarrow> Inr (r_dev r, Printed s)))
     else Inr (d, Open_failure))"

section \<open>Properties\<close>

text \<open>
  A write in the filling phase appends: with the caller's bytes mapped and room in the
  array, \<open>example_write\<close> returns the byte count, the device stays in the filling phase, and
  what is pending grows by exactly the bytes written.
\<close>

lemma rw_write_appends:
  assumes "rw_filling d" and "user_readable U buf bs" and "buff_pos d + int (length bs) \<le> 100"
  shows "\<exists>r. rw_example_write U buf (int (length bs)) d = Inr r \<and> r_ret r = int (length bs) \<and>
    rw_filling (r_dev r) \<and> pending (r_dev r) = pending d @ bs"
proof -
  have wf: "rw_wf d" and room: "rw_room d bs"
    using assms by (simp_all add: rw_filling_def rw_room_def)
  show ?thesis
    using rw_write_eq [OF assms(2) wf assms(3)] rwq.put_content [OF wf room] assms
    by (auto simp: rw_put_eq [OF wf room] rw_filling_def rw_wf_def)
qed

text \<open>
  A read delivers the oldest pending bytes: it returns as many as fit the caller's
  buffer, hands out exactly that prefix of what is pending, leaves the rest, and keeps the
  device well formed.
\<close>

lemma rw_read_takes_prefix:
  assumes "rw_wf d" and "pending d \<noteq> []" and "is_size_t sz" and "user_writable U buf 100"
  shows "\<exists>r. rw_example_read U buf sz d = Inr r \<and>
    r_ret r = int (length (r_user r)) \<and> r_user r = take (nat sz) (pending d) \<and>
    pending (r_dev r) = drop (nat sz) (pending d) \<and> rw_wf (r_dev r)"
proof -
  have pos: "0 < buff_len d"
    using assms(2) by (auto simp: pending_def load_def intro: ccontr)
  have sz: "0 \<le> sz" using assms(3) by (simp add: is_size_t_def)
  show ?thesis
    using rw_read_eq [OF assms(1) pos assms(3,4)] pending_after_read [OF assms(1) pos sz]
      rw_wf_after_read [OF assms(1) pos sz] length_pending [OF assms(1)] sz
    by (auto simp: min_def)
qed

text \<open>
  C9. Conservation: over any sequence of writes and reads that the driver serves (writes in
  the filling phase with room, reads of at least one byte), the bytes delivered followed by
  those still pending are those pending at the start followed by those written. No byte is
  lost, duplicated or reordered.
\<close>

theorem rw_conservation:
  assumes "rw_wf d" and "fifo_served rw_put rw_get rw_room rw_chunk d ops"
  shows "fst (fifo_run rw_put rw_get d ops) @ pending (snd (fifo_run rw_put rw_get d ops)) =
    pending d @ fifo_sent ops"
  using assms by (rule rwq.conservation)

theorem rw_conservation_witness:
  "fst (fifo_run rw_put rw_get rw_initial [Put [7], Put [8], Get 5]) @
    pending (snd (fifo_run rw_put rw_get rw_initial [Put [7], Put [8], Get 5])) =
    pending rw_initial @ [7, 8]"
proof -
  have "rw_wf rw_initial" by (simp add: rw_initial_def rw_wf_def)
  moreover have "fifo_served rw_put rw_get rw_room rw_chunk rw_initial [Put [7], Put [8], Get 5]"
    by (simp add: rw_room_def rw_put_eq rw_initial_def rw_wf_def rw_chunk_def is_size_t_def)
  ultimately show ?thesis using rw_conservation by fastforce
qed

text \<open>
  \<open>cat\<close> terminates and gets everything: one write of at most 100 bytes to a fresh device,
  then reads of any fixed positive size, one more than there are bytes, deliver exactly the
  bytes written, and the last read resets the device, so that the next write starts at index 0.
\<close>

lemma rw_echo_then_cat:
  assumes "length bs \<le> 100" and "rw_chunk n"
  defines "run \<equiv> fifo_run rw_put rw_get rw_initial (Put bs # replicate (Suc (length bs)) (Get n))"
  shows "fst run = bs \<and> pending (snd run) = [] \<and> rw_filling (snd run) \<and> buff_pos (snd run) = 0"
proof -
  have wf: "rw_wf rw_initial" "rw_room rw_initial bs"
    using assms(1) by (simp_all add: rw_initial_def rw_wf_def rw_room_def)
  define d where "d = rw_put bs rw_initial"
  define t where "t = snd (fifo_run rw_put rw_get d (replicate (length bs) (Get n)))"
  have d: "rw_wf d" "pending d = bs"
    using rwq.put_content [OF wf] rwq.put_ok [OF wf]
    by (simp_all add: d_def) (simp add: rw_initial_def pending_def)
  have gets: "fst (fifo_run rw_put rw_get d (replicate (length bs) (Get n))) = bs" "pending t = []"
    using rwq.drain [OF d(1) assms(2), of "length bs"] assms(2) d(2)
    by (simp_all add: rw_chunk_def t_def)
  have t: "rw_wf t"
    unfolding t_def by (rule rwq.run_ok [OF d(1) rwq.gets_served [OF assms(2)]])
  then have e: "buff_len t = 0"
    using gets(2) length_pending [OF t] by simp
  have "run = (bs, t\<lparr>buff_pos := 0, postion := 0\<rparr>)"
    unfolding run_def replicate_append_same [symmetric] replicate_Suc
    using gets e rw_get_eq [OF t assms(2)]
    by (simp add: fifo_run_append Let_def case_prod_beta flip: d_def t_def)
  with e show ?thesis by (simp add: pending_def rw_filling_def rw_wf_def)
qed

text \<open>
  C38. The array bound is the caller's problem: in the filling phase, with the bytes mapped,
  \<open>example_write\<close> stores outside \<open>byte[100]\<close> exactly when the written bytes do not fit
  behind those already there. The driver itself never checks.
\<close>

theorem rw_write_overflow_iff:
  assumes "rw_filling d" and "user_readable U buf bs" and "is_size_t (int (length bs) + buff_pos d)"
  shows "rw_example_write U buf (int (length bs)) d = Inl Oob_write \<longleftrightarrow>
    100 < buff_pos d + int (length bs)"
proof -
  have wf: "rw_wf d" using assms(1) by (simp add: rw_filling_def)
  show ?thesis
    using rw_write_overflow_aux [OF assms(2) wf _ assms(3)] rw_write_eq [OF assms(2) wf]
    by (cases "100 < buff_pos d + int (length bs)") auto
qed

theorem rw_write_overflow_iff_witness:
  "rw_example_write (flat_uaccess 0 (replicate 101 7)) 0 101 rw_initial = Inl Oob_write \<and>
    rw_example_write (flat_uaccess 0 (replicate 100 7)) 0 100 rw_initial \<noteq> Inl Oob_write"
  using rw_write_overflow_iff [OF rw_filling_initial flat_readable, of "replicate 101 7" 0]
    rw_write_overflow_iff [OF rw_filling_initial flat_readable, of "replicate 100 7" 0]
  by (simp add: rw_initial_def is_size_t_def)

text \<open>
  A fault of the user buffer is not reported: if only the first bytes are mapped, exactly
  those become pending, yet \<open>example_write\<close> returns the whole size the caller asked for.
\<close>

lemma rw_write_fault_reported_as_full:
  assumes "rw_filling d" and "user_readable U buf bs"
    and "copy_from_user U (buf + int (length bs)) 1 = (landed, left)" and "left \<noteq> 0"
    and "length landed = 1"
    and "int (length bs) < sz" and "buff_pos d + int (length bs) < 100" and "sz < 9223372036854775000"
  shows "\<exists>r. rw_example_write U buf sz d = Inr r \<and> r_ret r = sz \<and>
    pending (r_dev r) = pending d @ bs \<and> rw_filling (r_dev r)"
proof -
  let ?p = "buff_pos d"
  let ?m = "store (byte d) (nat ?p) bs"
  have wf: "rw_wf d" "rw_room d bs" and p: "0 \<le> ?p" "?p \<le> 100"
    using assms by (simp_all add: rw_filling_def rw_room_def rw_wf_def)
  have b: "u64 (sz + u64 ?p) = sz + ?p" "s64 sz = sz"
    using assms(6,8) p by (simp_all add: wrap_simps)
  have "byte_copy_loop BYTE_SIZE U (sz + ?p) buf (byte d) ?p [] =
      Inr (store ?m (nat (?p + int (length bs))) landed, ?p + int (length bs), enumerate (nat ?p) bs)"
    by (subst byte_copy_loop_prefix [OF assms(2)])
      (use assms p in \<open>simp_all add: byte_copy_loop_user_fault BYTE_SIZE_def\<close>)
  moreover have "load (store ?m (nat (?p + int (length bs))) landed) 0 (nat (?p + int (length bs))) =
      load ?m 0 (nat (?p + int (length bs)))"
    by (simp add: store_simps)
  moreover have "load ?m 0 (nat (?p + int (length bs))) = pending d @ bs"
    using rwq.put_content [OF wf] assms(1) unfolding rw_put_eq [OF wf]
    by (simp add: pending_def rw_filling_def)
  ultimately show ?thesis
    using assms(1,7) p by (simp add: rw_example_write_def b pending_def rw_filling_def rw_wf_def)
qed

text \<open>
  \<open>postion\<close> advances by the size asked for, not by the bytes delivered. So when a reader
  with a larger buffer drains a fresh device and a writer appends before the next read
  returns 0, that read hands out bytes from beyond the data instead of the new bytes.
\<close>

lemma rw_read_after_overshoot_is_stale:
  assumes "bs \<noteq> []" and "length bs < n" and "n + length bs + length cs \<le> 100" and "rw_chunk n"
    and "length bs + length cs \<le> n"
  defines "d \<equiv> rw_put cs (snd (rw_get n (rw_put bs rw_initial)))"
  shows "fst (rw_get n d) = replicate (length bs + length cs) 0"
proof -
  let ?b = "int (length bs)"
  have wf: "rw_wf rw_initial" "rw_room rw_initial bs"
    using assms by (simp_all add: rw_initial_def rw_wf_def rw_room_def)
  have e: "rw_put bs rw_initial =
      \<lparr>postion = 0, byte = store (\<lambda>_. 0) 0 bs, buff_len = ?b, buff_pos = ?b\<rparr>"
    by (simp add: rw_put_eq [OF wf]) (simp add: rw_initial_def)
  have g: "snd (rw_get n (rw_put bs rw_initial)) =
      \<lparr>postion = int n, byte = store (\<lambda>_. 0) 0 bs, buff_len = 0, buff_pos = ?b\<rparr>"
    using assms rwq.put_ok [OF wf] by (simp add: rw_get_eq e wrap_simps)
  have d: "d = \<lparr>postion = int n, byte = store (store (\<lambda>_. 0) 0 bs) (length bs) cs,
      buff_len = ?b + int (length cs), buff_pos = ?b + int (length cs)\<rparr>"
    using assms rw_write_eq [of "flat_uaccess 0 cs" 0 cs] unfolding d_def g
    by (simp add: rw_put_def rw_wf_def)
  have "load (store (store (\<lambda>_. 0) 0 bs) (length bs) cs) n (length bs + length cs) =
      replicate (length bs + length cs) 0"
    using assms(2,5) by (intro nth_equalityI) (auto simp: store_outside)
  moreover have pos: "0 < int (length bs) + int (length cs)"
    using assms(1) by (simp add: add_pos_nonneg)
  moreover have "fst (rw_get n d) = take n (pending d)"
    using assms(2-5) pos rw_read_raw [of d "int n" "flat_uaccess 0 []" 0]
    by (simp add: rw_get_def d in_array_def BYTE_SIZE_def rw_chunk_def)
  ultimately show ?thesis
    using assms(5) by (simp add: pending_def d nat_add_distrib)
qed

text \<open>
  The two test programs understand each other: after \<open>write_app\<close> on a fresh device,
  \<open>read_app\<close> prints "1234" whatever its uninitialised array held, because the five bytes
  written include the terminator.
\<close>

lemma rw_write_app_then_read_app:
  assumes "fd \<noteq> -1" and "fd' \<noteq> -1"
  shows "\<exists>d d'. write_app fd rw_initial = Inr (d, Printed [0x31, 0x32, 0x33, 0x34]) \<and>
    read_app fd' num0 d = Inr (d', Printed [0x31, 0x32, 0x33, 0x34]) \<and> pending d' = []"
proof -
  let ?bs = "[0x31, 0x32, 0x33, 0x34, 0] :: byte list"
  have t: "take 5 write_app_num = ?bs" by (simp add: write_app_num_def)
  have f: "rw_filling rw_initial" "buff_pos rw_initial = 0" "pending rw_initial = []"
    using rw_filling_initial by (simp_all add: rw_initial_def pending_def)
  obtain r where w: "rw_example_write (flat_uaccess 0 ?bs) 0 5 rw_initial = Inr r"
    and r: "rw_filling (r_dev r)" "pending (r_dev r) = ?bs"
    using rw_write_eq [of "flat_uaccess 0 ?bs" 0 ?bs rw_initial]
      rwq.put_content [of rw_initial ?bs] f
    by (simp add: rw_put_eq rw_filling_def rw_room_def rw_wf_def)
  have wf: "rw_wf (r_dev r)" and pos: "0 < buff_len (r_dev r)"
    using r length_pending [of "r_dev r"] by (simp_all add: rw_filling_def)
  note rd = rw_read_eq [OF wf pos, of 5 "flat_uaccess 0 []" 0]
  have cs: "c_string 10 (store m 0 ?bs) 0 = Inr [0x31, 0x32, 0x33, 0x34]" for m
    by (rule c_string_prefix)
      (simp_all add: store_def load_def upt_rec nth_Cons')
  have cw: "c_string 10 (store m 0 write_app_num) 0 = Inr [0x31, 0x32, 0x33, 0x34]" for m
    by (rule c_string_prefix)
      (simp_all add: store_def load_def write_app_num_def upt_rec nth_Cons')
  show ?thesis
    using assms rd r pending_after_read [OF wf pos, of 5]
    by (simp add: write_app_def read_app_def t w cs cw is_size_t_def)
qed

end
