(* ===== verification/File_Operate_Threads.thy ===== *)
theory File_Operate_Threads
  imports File_Operate Scheduler
begin

text \<open>
  \<open>example_read\<close> and \<open>example_write\<close> of \<open>RWTest/fileOperate_drv.c\<close> called by several processes at once.
  The driver has no lock, and all four of its globals are shared: here each access to one of them is a
  step of its own. Alone a call does what the handler of \<open>File_Operate\<close> does; two reads at once hand
  out the same bytes and leave a negative \<open>buff_len\<close> behind.
\<close>

section \<open>The calls as steps\<close>

text \<open>
  A reader before its test, before \<open>rlen = buff_len\<close>, before the two resets, before the copy, before
  \<open>postion+=size\<close> and before \<open>buff_len=buff_len-rlen\<close>; a writer before the loop, before its test, copy
  and increment with \<open>k\<close> bytes of its buffer used, and before \<open>buff_pos=buff_len\<close>.
\<close>

datatype rw_pc =
    Rw_idle
  | Rd_test | Rd_take | Rd_reset | Rd_reset_pos | Rd_copy int | Rd_advance int "byte list"
  | Rd_drop int "byte list" | Rd_done int "byte list"
  | Wr_start | Wr_test nat | Wr_copy nat | Wr_next nat | Wr_end | Wr_done int
  | Rw_fault fault

record rw_call =
  rw_buf :: int
  rw_size :: int

record rw_sys =
  rw_of :: rw_dev
  rw_pcs :: "nat \<Rightarrow> rw_pc"

definition rw_goto :: "nat \<Rightarrow> rw_pc \<Rightarrow> rw_sys \<Rightarrow> rw_sys" where
  "rw_goto i pc s = s\<lparr>rw_pcs := (rw_pcs s)(i := pc)\<rparr>"

definition rw_set :: "rw_dev \<Rightarrow> rw_sys \<Rightarrow> rw_sys" where
  "rw_set d s = s\<lparr>rw_of := d\<rparr>"

definition rw_tstep :: "uaccess \<Rightarrow> (nat \<Rightarrow> rw_call) \<Rightarrow> nat \<Rightarrow> rw_sys \<Rightarrow> rw_sys option" where
  "rw_tstep U call i s =
    (let d = rw_of s; buf = rw_buf (call i); sz = rw_size (call i) in
     case rw_pcs s i of
       Rd_test \<Rightarrow> Some (rw_goto i (if u64 (buff_len d) < sz then Rd_take else Rd_copy sz) s)
     | Rd_take \<Rightarrow>
         Some (rw_goto i (if u64 (buff_len d) = 0 then Rd_reset else Rd_copy (u64 (buff_len d))) s)
     | Rd_reset \<Rightarrow> Some (rw_goto i Rd_reset_pos (rw_set (d\<lparr>buff_pos := 0\<rparr>) s))
     | Rd_reset_pos \<Rightarrow> Some (rw_goto i (Rd_done 0 []) (rw_set (d\<lparr>postion := 0\<rparr>) s))
     | Rd_copy rlen \<Rightarrow>
         (if \<not> in_array BYTE_SIZE (postion d) rlen then Some (rw_goto i (Rw_fault Oob_read) s)
          else
            let bs = load (byte d) (nat (postion d)) (nat rlen); left = copy_to_user U buf bs
            in Some (rw_goto i (if left \<noteq> 0 then Rd_done (- EFAULT) (copied bs left)
                                else Rd_advance rlen bs) s))
     | Rd_advance rlen bs \<Rightarrow>
         Some (rw_goto i (Rd_drop rlen bs) (rw_set (d\<lparr>postion := s32 (postion d + sz)\<rparr>) s))
     | Rd_drop rlen bs \<Rightarrow>
         Some (rw_goto i (Rd_done (s64 rlen) bs) (rw_set (d\<lparr>buff_len := s32 (buff_len d - rlen)\<rparr>) s))
     | Wr_start \<Rightarrow> Some (rw_goto i (Wr_test 0) (rw_set (d\<lparr>buff_len := buff_pos d\<rparr>) s))
     | Wr_test k \<Rightarrow>
         Some (rw_goto i (if u64 (buff_len d) < u64 (sz + u64 (buff_pos d)) then Wr_copy k else Wr_end) s)
     | Wr_copy k \<Rightarrow>
         (if buff_len d < 0 \<or> int BYTE_SIZE \<le> buff_len d then Some (rw_goto i (Rw_fault Oob_write) s)
          else
            let (bs, left) = copy_from_user U (buf + int k) 1
            in Some (rw_goto i (if left \<noteq> 0 then Wr_end else Wr_next k)
                 (rw_set (d\<lparr>byte := store (byte d) (nat (buff_len d)) bs\<rparr>) s)))
     | Wr_next k \<Rightarrow> Some (rw_goto i (Wr_test (Suc k)) (rw_set (d\<lparr>buff_len := s32 (buff_len d + 1)\<rparr>) s))
     | Wr_end \<Rightarrow> Some (rw_goto i (Wr_done (s64 sz)) (rw_set (d\<lparr>buff_pos := buff_len d\<rparr>) s))
     | _ \<Rightarrow> None)"

lemma rw_goto_simps [simp]:
  "rw_of (rw_goto i pc s) = rw_of s" "rw_pcs (rw_goto i pc s) = (rw_pcs s)(i := pc)"
  "rw_of (rw_set d s) = d" "rw_pcs (rw_set d s) = rw_pcs s"
  "rw_goto i pc (rw_goto i pc' s) = rw_goto i pc s"
  "rw_set d (rw_set d' s) = rw_set d s" "rw_set d (rw_goto i pc s) = rw_goto i pc (rw_set d s)"
  by (simp_all add: rw_goto_def rw_set_def)

section \<open>A call alone\<close>

text \<open>Thread \<open>i\<close> has come from device \<open>d\<close> to where the loop ends with the result \<open>r\<close>.\<close>

definition rw_loop_end :: "rw_dev \<Rightarrow> nat \<Rightarrow> rw_sys \<Rightarrow> fault + kmem \<times> int \<times> (nat \<times> byte) list \<Rightarrow> bool" where
  "rw_loop_end d i t r =
    (case r of Inl e \<Rightarrow> rw_pcs t i = Rw_fault e
     | Inr (m, len, logs) \<Rightarrow> rw_pcs t i = Wr_end \<and> rw_of t = d\<lparr>byte := m, buff_len := len\<rparr>)"

lemma rw_loop_end_simps [simp]:
  "rw_loop_end (d\<lparr>byte := m\<rparr>) i t r = rw_loop_end d i t r"
  "rw_loop_end (d\<lparr>buff_len := n\<rparr>) i t r = rw_loop_end d i t r"
  by (auto simp: rw_loop_end_def split: sum.splits)

lemma rw_writer_loop_alone:
  assumes "rw_pcs s i = Wr_test k"
  shows "\<exists>t. runs_alone (rw_tstep U call) i s t \<and> rw_loop_end (rw_of s) i t
    (byte_copy_loop BYTE_SIZE U (u64 (rw_size (call i) + u64 (buff_pos (rw_of s))))
        (rw_buf (call i) + int k) (byte (rw_of s)) (buff_len (rw_of s)) logs)"
  using assms
proof (induction "nat (100 - buff_len (rw_of s))" arbitrary: k s logs rule: less_induct)
  case less
  let ?d = "rw_of s" and ?T = "rw_tstep U call"
  let ?bound = "u64 (rw_size (call i) + u64 (buff_pos ?d))" and ?buf = "rw_buf (call i) + int k"
  let ?loop = "byte_copy_loop BYTE_SIZE U ?bound ?buf (byte ?d) (buff_len ?d) logs"
  show ?case
  proof (cases "u64 (buff_len ?d) < ?bound")
    case False
    then have l: "?loop = Inr (byte ?d, buff_len ?d, logs)" by (simp add: byte_copy_loop.simps)
    have "?T i s = Some (rw_goto i Wr_end s)" using False less.prems by (simp add: rw_tstep_def Let_def)
    then show ?thesis unfolding l
      by (intro exI [of _ "rw_goto i Wr_end s"]) (simp add: runs_alone_1 rw_loop_end_def)
  next
    case True
    then have s1: "?T i s = Some (rw_goto i (Wr_copy k) s)" using less.prems by (simp add: rw_tstep_def Let_def)
    show ?thesis
    proof (cases "buff_len ?d < 0 \<or> int BYTE_SIZE \<le> buff_len ?d")
      case oob: True
      then have l: "?loop = Inl Oob_write" using True by (simp add: byte_copy_loop.simps)
      have "?T i (rw_goto i (Wr_copy k) s) = Some (rw_goto i (Rw_fault Oob_write) s)"
        using oob by (simp add: rw_tstep_def Let_def)
      then show ?thesis unfolding l
        by (intro exI [of _ "rw_goto i (Rw_fault Oob_write) s"])
          (simp add: runs_alone_2 [of ?T, OF s1] rw_loop_end_def)
    next
      case inb: False
      obtain bs left where c: "copy_from_user U ?buf 1 = (bs, left)" by fastforce
      let ?m = "store (byte ?d) (nat (buff_len ?d)) bs"
      show ?thesis
      proof (cases "left = 0")
        case False
        then have l: "?loop = Inr (?m, buff_len ?d, logs)"
          using True inb c by (subst byte_copy_loop.simps) (simp add: Let_def)
        have "?T i (rw_goto i (Wr_copy k) s) = Some (rw_goto i Wr_end (rw_set (?d\<lparr>byte := ?m\<rparr>) s))"
          using inb c False by (simp add: rw_tstep_def Let_def)
        then show ?thesis unfolding l
          by (intro exI [of _ "rw_goto i Wr_end (rw_set (?d\<lparr>byte := ?m\<rparr>) s)"])
            (simp add: runs_alone_2 [of ?T, OF s1] rw_loop_end_def)
      next
        case ok: True
        let ?e = "?d\<lparr>byte := ?m, buff_len := buff_len ?d + 1\<rparr>"
        let ?s = "rw_goto i (Wr_test (Suc k)) (rw_set ?e s)"
        have w: "s32 (buff_len ?d + 1) = buff_len ?d + 1"
          using inb by (intro s32_id) (auto simp: BYTE_SIZE_def)
        have s2: "?T i (rw_goto i (Wr_copy k) s) = Some (rw_goto i (Wr_next k) (rw_set (?d\<lparr>byte := ?m\<rparr>) s))"
          using inb c ok by (simp add: rw_tstep_def Let_def)
        have s3: "?T i (rw_goto i (Wr_next k) (rw_set (?d\<lparr>byte := ?m\<rparr>) s)) = Some ?s"
          using w by (simp add: rw_tstep_def Let_def)
        have l: "?loop = byte_copy_loop BYTE_SIZE U ?bound (?buf + 1) ?m (buff_len ?d + 1)
            (logs @ [(nat (buff_len ?d), ?m (nat (buff_len ?d)))])"
          using True inb c ok by (subst byte_copy_loop.simps) (simp add: Let_def)
        have "nat (100 - buff_len (rw_of ?s)) < nat (100 - buff_len ?d)"
          using inb by (auto simp: BYTE_SIZE_def)
        from less.hyps [OF this, of "Suc k" "logs @ [(nat (buff_len ?d), ?m (nat (buff_len ?d)))]"]
        obtain t where r: "runs_alone ?T i ?s t" and
          t: "rw_loop_end ?d i t (byte_copy_loop BYTE_SIZE U ?bound (rw_buf (call i) + int (Suc k)) ?m
              (buff_len ?d + 1) (logs @ [(nat (buff_len ?d), ?m (nat (buff_len ?d)))]))"
          by auto
        have "rw_buf (call i) + int (Suc k) = ?buf + 1" by simp
        with t have "rw_loop_end ?d i t ?loop" unfolding l by (simp only:)
        moreover have "runs_alone ?T i s t"
          using r by (blast intro: runs_alone_step [of ?T, OF s1] runs_alone_step [of ?T, OF s2] runs_alone_step [of ?T, OF s3])
        ultimately show ?thesis by blast
      qed
    qed
  qed
qed

lemma rw_writer_alone:
  assumes "rw_pcs s i = Wr_start"
  shows "\<exists>t. runs_alone (rw_tstep U call) i s t \<and> rw_tstep U call i t = None \<and>
    (case rw_example_write U (rw_buf (call i)) (rw_size (call i)) (rw_of s) of
       Inl e \<Rightarrow> rw_pcs t i = Rw_fault e
     | Inr r \<Rightarrow> rw_pcs t i = Wr_done (r_ret r) \<and> rw_of t = r_dev r)"
proof -
  let ?T = "rw_tstep U call" and ?d = "rw_of s"
  let ?s = "rw_goto i (Wr_test 0) (rw_set (?d\<lparr>buff_len := buff_pos ?d\<rparr>) s)"
  let ?loop = "byte_copy_loop BYTE_SIZE U (u64 (rw_size (call i) + u64 (buff_pos ?d)))
    (rw_buf (call i)) (byte ?d) (buff_pos ?d) []"
  have s1: "?T i s = Some ?s" using assms by (simp add: rw_tstep_def Let_def)
  obtain t where r: "runs_alone ?T i ?s t" and
    t: "rw_loop_end ?d i t ?loop"
    using rw_writer_loop_alone [of ?s i 0 U call "[]"] by auto
  show ?thesis
  proof (cases ?loop)
    case (Inl e)
    with t have "rw_pcs t i = Rw_fault e" by (simp add: rw_loop_end_def)
    with Inl runs_alone_step [of ?T, OF s1 r] show ?thesis
      by (intro exI [of _ t]) (simp add: rw_example_write_def rw_tstep_def)
  next
    case (Inr x)
    obtain m len logs where x: "x = (m, len, logs)" by (cases x)
    let ?u = "rw_goto i (Wr_done (s64 (rw_size (call i)))) (rw_set ((rw_of t)\<lparr>buff_pos := len\<rparr>) t)"
    have u: "?T i t = Some ?u" using t Inr x by (simp add: rw_tstep_def Let_def rw_loop_end_def)
    have "runs_alone ?T i s ?u"
      by (rule runs_alone_step [of ?T, OF s1 runs_alone_trans [OF r runs_alone_1 [of ?T, OF u]]])
    moreover have "?T i ?u = None" by (simp add: rw_tstep_def Let_def)
    ultimately show ?thesis using t Inr x
      by (intro exI [of _ ?u]) (simp add: rw_example_write_def rw_loop_end_def)
  qed
qed

text \<open>The reader has the five branches of the handler: empty, outside the array, user fault, served.\<close>

lemma rw_copy_alone:
  assumes "rw_pcs s i = Rd_copy rlen" and "0 \<le> rlen"
  defines "bs \<equiv> load (byte (rw_of s)) (nat (postion (rw_of s))) (nat rlen)"
  shows "\<exists>t. runs_alone (rw_tstep U call) i s t \<and>
    (if \<not> in_array BYTE_SIZE (postion (rw_of s)) rlen then rw_pcs t i = Rw_fault Oob_read
     else if copy_to_user U (rw_buf (call i)) bs \<noteq> 0
     then rw_pcs t i = Rd_done (- EFAULT) (copied bs (copy_to_user U (rw_buf (call i)) bs)) \<and> rw_of t = rw_of s
     else rw_pcs t i = Rd_done (s64 rlen) bs \<and>
       rw_of t = (rw_of s)\<lparr>postion := s32 (postion (rw_of s) + rw_size (call i)),
                            buff_len := s32 (buff_len (rw_of s) - rlen)\<rparr>)"
proof -
  let ?T = "rw_tstep U call" and ?d = "rw_of s"
  consider (oob) "\<not> in_array BYTE_SIZE (postion ?d) rlen"
    | (user) "in_array BYTE_SIZE (postion ?d) rlen" "copy_to_user U (rw_buf (call i)) bs \<noteq> 0"
    | (ok) "in_array BYTE_SIZE (postion ?d) rlen" "copy_to_user U (rw_buf (call i)) bs = 0"
    by blast
  then show ?thesis
  proof cases
    case oob
    with assms(1) have "?T i s = Some (rw_goto i (Rw_fault Oob_read) s)"
      by (simp add: rw_tstep_def Let_def)
    with oob show ?thesis
      by (intro exI [of _ "rw_goto i (Rw_fault Oob_read) s"]) (simp add: runs_alone_1)
  next
    case user
    let ?t = "rw_goto i (Rd_done (- EFAULT) (copied bs (copy_to_user U (rw_buf (call i)) bs))) s"
    from user assms(1) have "?T i s = Some ?t" by (simp add: rw_tstep_def Let_def bs_def)
    with user show ?thesis by (intro exI [of _ ?t]) (simp add: runs_alone_1)
  next
    case ok
    let ?s1 = "rw_goto i (Rd_advance rlen bs) s"
    let ?s2 = "rw_goto i (Rd_drop rlen bs) (rw_set (?d\<lparr>postion := s32 (postion ?d + rw_size (call i))\<rparr>) s)"
    let ?s3 = "rw_goto i (Rd_done (s64 rlen) bs) (rw_set (?d\<lparr>postion := s32 (postion ?d + rw_size (call i)),
      buff_len := s32 (buff_len ?d - rlen)\<rparr>) s)"
    have "?T i s = Some ?s1" "?T i ?s1 = Some ?s2" "?T i ?s2 = Some ?s3"
      using ok assms(1) by (simp_all add: rw_tstep_def Let_def bs_def)
    then have "runs_alone ?T i s ?s3" by (blast intro: runs_alone_step runs_alone_1)
    with ok show ?thesis by (intro exI [of _ ?s3]) simp
  qed
qed

lemma rw_reader_alone:
  assumes "rw_pcs s i = Rd_test" and "0 \<le> rw_size (call i)"
  shows "\<exists>t. runs_alone (rw_tstep U call) i s t \<and> rw_tstep U call i t = None \<and>
    (case rw_example_read U (rw_buf (call i)) (rw_size (call i)) (rw_of s) of
       Inl e \<Rightarrow> rw_pcs t i = Rw_fault e
     | Inr r \<Rightarrow> rw_pcs t i = Rd_done (r_ret r) (r_user r) \<and> rw_of t = r_dev r)"
proof -
  let ?T = "rw_tstep U call" and ?d = "rw_of s" and ?sz = "rw_size (call i)"
  let ?rlen = "if u64 (buff_len ?d) < ?sz then u64 (buff_len ?d) else ?sz"
  show ?thesis
  proof (cases "u64 (buff_len ?d) < ?sz \<and> u64 (buff_len ?d) = 0")
    case True
    let ?s1 = "rw_goto i Rd_take s" and ?s2 = "rw_goto i Rd_reset s"
    let ?s3 = "rw_goto i Rd_reset_pos (rw_set (?d\<lparr>buff_pos := 0\<rparr>) s)"
    let ?s4 = "rw_goto i (Rd_done 0 []) (rw_set (?d\<lparr>buff_pos := 0, postion := 0\<rparr>) s)"
    have "?T i s = Some ?s1" "?T i ?s1 = Some ?s2" "?T i ?s2 = Some ?s3" "?T i ?s3 = Some ?s4"
      "?T i ?s4 = None"
      using True assms(1) by (simp_all add: rw_tstep_def Let_def)
    then have "runs_alone ?T i s ?s4 \<and> ?T i ?s4 = None" by (blast intro: runs_alone_step runs_alone_1)
    with True show ?thesis by (intro exI [of _ ?s4]) (simp add: rw_example_read_def)
  next
    case False
    let ?s = "rw_goto i (Rd_copy ?rlen) s"
    have start: "runs_alone ?T i s ?s"
    proof (cases "u64 (buff_len ?d) < ?sz")
      case True
      with False assms(1) have "?T i s = Some (rw_goto i Rd_take s)" "?T i (rw_goto i Rd_take s) = Some ?s"
        by (simp_all add: rw_tstep_def Let_def)
      then show ?thesis by (rule runs_alone_2)
    next
      case short: False
      with assms(1) have "?T i s = Some ?s" by (simp add: rw_tstep_def Let_def)
      then show ?thesis by (rule runs_alone_1)
    qed
    have "0 \<le> ?rlen" using assms(2) u64_range [of "buff_len ?d"] by simp
    from rw_copy_alone [of ?s i ?rlen U call, OF _ this] obtain t where t: "runs_alone ?T i ?s t"
      "if \<not> in_array BYTE_SIZE (postion ?d) ?rlen then rw_pcs t i = Rw_fault Oob_read
       else let bs = load (byte ?d) (nat (postion ?d)) (nat ?rlen); left = copy_to_user U (rw_buf (call i)) bs in
         if left \<noteq> 0 then rw_pcs t i = Rd_done (- EFAULT) (copied bs left) \<and> rw_of t = ?d
         else rw_pcs t i = Rd_done (s64 ?rlen) bs \<and>
           rw_of t = ?d\<lparr>postion := s32 (postion ?d + ?sz), buff_len := s32 (buff_len ?d - ?rlen)\<rparr>"
      by (auto simp: Let_def)
    have r: "rw_example_read U (rw_buf (call i)) ?sz ?d =
      (if \<not> in_array BYTE_SIZE (postion ?d) ?rlen then Inl Oob_read
       else let bs = load (byte ?d) (nat (postion ?d)) (nat ?rlen); left = copy_to_user U (rw_buf (call i)) bs in
         if left \<noteq> 0 then Inr \<lparr>r_dev = ?d, r_ret = - EFAULT, r_user = copied bs left, r_log = []\<rparr>
         else Inr \<lparr>r_dev = ?d\<lparr>postion := s32 (postion ?d + ?sz), buff_len := s32 (buff_len ?d - ?rlen)\<rparr>,
           r_ret = s64 ?rlen, r_user = bs, r_log = map (\<lambda>i. (i, byte ?d i)) [0..<nat ?rlen]\<rparr>)"
      using False by (simp add: rw_example_read_def Let_def)
    have "?T i t = None"
      using t(2) by (auto simp: rw_tstep_def Let_def split: if_splits)
    moreover have "runs_alone ?T i s t" by (rule runs_alone_trans [OF start t(1)])
    ultimately show ?thesis
      using t(2) unfolding r by (intro exI [of _ t]) (auto simp: Let_def split: if_splits)
  qed
qed

section \<open>Two reads at once\<close>

text \<open>
  Both have tested and copied before either moves on: each is served all \<open>n\<close> pending bytes, \<open>postion\<close>
  goes up by both sizes and \<open>n\<close> is subtracted twice.
\<close>

definition after_two_reads :: "int \<Rightarrow> int \<Rightarrow> rw_dev \<Rightarrow> rw_dev" where
  "after_two_reads sz1 sz2 d = d\<lparr>postion := postion d + sz1 + sz2, buff_len := - buff_len d\<rparr>"

lemma rw_reader_to_copy:
  assumes "rw_pcs s i = Rd_test" and "0 < buff_len (rw_of s)" and "buff_len (rw_of s) \<le> 100"
    and "buff_len (rw_of s) \<le> rw_size (call i)"
  shows "runs_alone (rw_tstep U call) i s (rw_goto i (Rd_copy (buff_len (rw_of s))) s)"
proof (cases "buff_len (rw_of s) = rw_size (call i)")
  case True
  with assms show ?thesis by (intro runs_alone_1) (simp add: rw_tstep_def wrap_simps)
next
  case False
  with assms have "rw_tstep U call i s = Some (rw_goto i Rd_take s)"
    "rw_tstep U call i (rw_goto i Rd_take s) = Some (rw_goto i (Rd_copy (buff_len (rw_of s))) s)"
    by (simp_all add: rw_tstep_def wrap_simps)
  then show ?thesis by (rule runs_alone_2)
qed

lemma rw_reader_copies:
  assumes "rw_pcs s i = Rd_copy n" and "0 < n" and "0 \<le> postion (rw_of s)" and "postion (rw_of s) + n \<le> 100"
    and "user_writable U (rw_buf (call i)) 100"
  shows "rw_tstep U call i s =
    Some (rw_goto i (Rd_advance n (load (byte (rw_of s)) (nat (postion (rw_of s))) (nat n))) s)"
proof -
  have "copy_to_user U (rw_buf (call i)) (load (byte (rw_of s)) (nat (postion (rw_of s))) (nat n)) = 0"
    by (rule user_writableD [OF assms(5)]) (use assms in auto)
  with assms show ?thesis by (simp add: rw_tstep_def Let_def in_array_def BYTE_SIZE_def)
qed

lemma rw_two_readers:
  fixes d :: rw_dev
  assumes "rw_pcs s i = Rd_test" and "rw_pcs s j = Rd_test" and "i \<noteq> j"
    and "rw_wf (rw_of s)" and "pending (rw_of s) \<noteq> []"
    and "\<forall>k \<in> {i, j}. buff_len (rw_of s) \<le> rw_size (call k) \<and> rw_size (call k) \<le> 1000000 \<and>
      user_writable U (rw_buf (call k)) 100"
  defines "d \<equiv> rw_of s"
  shows "\<exists>t. reaches (rw_tstep U call) s t \<and> rw_pcs t i = Rd_done (buff_len d) (pending d) \<and>
    rw_pcs t j = Rd_done (buff_len d) (pending d) \<and>
    rw_of t = after_two_reads (rw_size (call i)) (rw_size (call j)) d"
proof -
  let ?T = "rw_tstep U call" and ?n = "buff_len d" and ?bs = "pending d"
  let ?si = "rw_size (call i)" and ?sj = "rw_size (call j)"
  have n: "0 < ?n" "?n \<le> 100" "0 \<le> postion d" "postion d + ?n \<le> 100"
  proof -
    show "0 < ?n" using assms(5) rw_wf_len [OF assms(4)] unfolding d_def
      by (auto simp: pending_def intro: ccontr)
    then show "?n \<le> 100" "0 \<le> postion d" "postion d + ?n \<le> 100"
      using assms(4) rw_wf_len [OF assms(4)] by (auto simp: rw_wf_def d_def)
  qed
  define s1 where "s1 = rw_goto i (Rd_copy ?n) s"
  define s2 where "s2 = rw_goto j (Rd_copy ?n) s1"
  define s3 where "s3 = rw_goto i (Rd_advance ?n ?bs) s2"
  define s4 where "s4 = rw_goto j (Rd_advance ?n ?bs) s3"
  define s5 where "s5 = rw_goto i (Rd_drop ?n ?bs) (rw_set (d\<lparr>postion := postion d + ?si\<rparr>) s4)"
  define s6 where "s6 = rw_goto i (Rd_done ?n ?bs) (rw_set (d\<lparr>postion := postion d + ?si, buff_len := 0\<rparr>) s5)"
  define s7 where "s7 = rw_goto j (Rd_drop ?n ?bs)
    (rw_set (d\<lparr>postion := postion d + ?si + ?sj, buff_len := 0\<rparr>) s6)"
  define s8 where "s8 = rw_goto j (Rd_done ?n ?bs) (rw_set (after_two_reads ?si ?sj d) s7)"
  have sz: "?n \<le> ?si" "?n \<le> ?sj" "?si \<le> 1000000" "?sj \<le> 1000000" using assms(6) by (simp_all add: d_def)
  have bs: "load (byte d) (nat (postion d)) (nat ?n) = ?bs" by (simp add: pending_def)
  have 1: "reaches ?T s s1" unfolding s1_def d_def
    by (rule runs_alone_reaches [OF rw_reader_to_copy]) (use assms(1,6) n in \<open>simp_all add: d_def\<close>)
  have 2: "reaches ?T s1 s2"
    using runs_alone_reaches [OF rw_reader_to_copy [of s1 j call U]] assms(2,3,6) n
    by (simp add: s1_def s2_def d_def)
  have 3: "?T i s2 = Some s3"
    using rw_reader_copies [of s2 i ?n U call] assms(3,6) n bs by (simp add: s1_def s2_def s3_def d_def)
  have 4: "?T j s3 = Some s4"
    using rw_reader_copies [of s3 j ?n U call] assms(3,6) n bs
    by (simp add: s1_def s2_def s3_def s4_def d_def)
  have of4: "rw_of s4 = d" "rw_pcs s4 i = Rd_advance ?n ?bs" "rw_pcs s4 j = Rd_advance ?n ?bs"
    using assms(3) by (simp_all add: s1_def s2_def s3_def s4_def d_def)
  have 5: "?T i s4 = Some s5" using of4 n sz by (simp add: rw_tstep_def Let_def s5_def wrap_simps)
  have 6: "?T i s5 = Some s6" using n by (simp add: rw_tstep_def Let_def s5_def s6_def wrap_simps)
  have 7: "?T j s6 = Some s7" using of4 assms(3) n sz
    by (simp add: rw_tstep_def Let_def s5_def s6_def s7_def wrap_simps)
  have 8: "?T j s7 = Some s8" using n
    by (simp add: rw_tstep_def Let_def s7_def s8_def wrap_simps after_two_reads_def)
  have "reaches ?T s2 s8"
    by (rule reaches_first [of ?T, OF 3] reaches_first [of ?T, OF 4] reaches_first [of ?T, OF 5] reaches_first [of ?T, OF 6]
      reaches_first [of ?T, OF 7] reaches_first [of ?T, OF 8] reaches.here)+
  then have "reaches ?T s s8" using reaches_trans [OF _ reaches_trans [OF 2 1]] by blast
  moreover have "rw_pcs s8 i = Rd_done ?n ?bs" using assms(3) by (simp add: s8_def s7_def s6_def)
  moreover have "rw_pcs s8 j = Rd_done ?n ?bs" "rw_of s8 = after_two_reads ?si ?sj d"
    by (simp_all add: s8_def)
  ultimately show ?thesis by blast
qed

text \<open>
  A negative \<open>buff_len\<close> is a huge \<open>size_t\<close>, so the next read takes its whole size, from wherever
  \<open>postion\<close> has got to.
\<close>

lemma rw_read_after_two_reads:
  assumes "rw_wf d" and "0 < buff_len d" and "buff_len d \<le> sz1" and "buff_len d \<le> sz2"
    and "0 < sz" and "sz \<le> 1000000"
  shows "(100 < postion d + sz1 + sz2 + sz \<longrightarrow>
      rw_example_read U buf sz (after_two_reads sz1 sz2 d) = Inl Oob_read) \<and>
    (postion d + sz1 + sz2 + sz \<le> 100 \<and> user_writable U buf 100 \<longrightarrow>
      (\<exists>r. rw_example_read U buf sz (after_two_reads sz1 sz2 d) = Inr r \<and> r_ret r = sz \<and>
        r_user r = load (byte d) (nat (postion d + sz1 + sz2)) (nat sz)))"
proof -
  have n: "buff_len d \<le> 100" "0 \<le> postion d" using assms(1,2) by (auto simp: rw_wf_def)
  have "u64 (- buff_len d) = 18446744073709551616 - buff_len d"
    using assms(2) n by (simp add: u64_def zmod_zminus1_eq_if)
  then have big: "\<not> u64 (- buff_len d) < sz" using n assms(6) by simp
  let ?p = "postion d + sz1 + sz2"
  have r: "rw_example_read U buf sz (after_two_reads sz1 sz2 d) =
      (if \<not> in_array BYTE_SIZE ?p sz then Inl Oob_read
       else let bs = load (byte d) (nat ?p) (nat sz); left = copy_to_user U buf bs in
         if left \<noteq> 0 then Inr \<lparr>r_dev = after_two_reads sz1 sz2 d, r_ret = - EFAULT, r_user = copied bs left, r_log = []\<rparr>
         else Inr \<lparr>r_dev = (after_two_reads sz1 sz2 d)\<lparr>postion := s32 (?p + sz),
             buff_len := s32 (- buff_len d - sz)\<rparr>,
           r_ret = s64 sz, r_user = bs, r_log = map (\<lambda>i. (i, byte d i)) [0..<nat sz]\<rparr>)"
    using big by (simp add: rw_example_read_def after_two_reads_def Let_def)
  have inb: "in_array BYTE_SIZE ?p sz \<longleftrightarrow> ?p + sz \<le> 100"
    using n assms(2-5) by (auto simp: in_array_def BYTE_SIZE_def)
  have "copy_to_user U buf (load (byte d) (nat ?p) (nat sz)) = 0"
    if "?p + sz \<le> 100" "user_writable U buf 100"
    by (rule user_writableD [OF that(2)]) (use that(1) n assms(2-5) in auto)
  then show ?thesis unfolding r inb using assms(5,6) by (auto simp: Let_def wrap_simps)
qed

section \<open>Properties\<close>

text \<open>
  What a call does alone is the handler: from every device, with every size and every user memory, the
  steps of a reader or a writer that nobody interrupts come to rest where \<open>rw_example_read\<close> or
  \<open>rw_example_write\<close> says, with the same value, bytes and device, or with the same fault.
\<close>

lemma rw_calls_alone_are_handlers:
  shows "(rw_pcs s i = Rd_test \<and> 0 \<le> rw_size (call i) \<longrightarrow>
      (\<exists>t. runs_alone (rw_tstep U call) i s t \<and> rw_tstep U call i t = None \<and>
        (case rw_example_read U (rw_buf (call i)) (rw_size (call i)) (rw_of s) of
           Inl e \<Rightarrow> rw_pcs t i = Rw_fault e
         | Inr r \<Rightarrow> rw_pcs t i = Rd_done (r_ret r) (r_user r) \<and> rw_of t = r_dev r))) \<and>
    (rw_pcs s i = Wr_start \<longrightarrow>
      (\<exists>t. runs_alone (rw_tstep U call) i s t \<and> rw_tstep U call i t = None \<and>
        (case rw_example_write U (rw_buf (call i)) (rw_size (call i)) (rw_of s) of
           Inl e \<Rightarrow> rw_pcs t i = Rw_fault e
         | Inr r \<Rightarrow> rw_pcs t i = Wr_done (r_ret r) \<and> rw_of t = r_dev r)))"
  using rw_reader_alone [of s i call U] rw_writer_alone [of s i U call] by blast

text \<open>Three processes at a device with two pending bytes: two readers and a writer.\<close>

definition three_calls :: "nat \<Rightarrow> rw_call" where
  "three_calls i = \<lparr>rw_buf = 0, rw_size = (if i = 2 then 101 else 60)\<rparr>"

definition three_sys :: rw_sys where
  "three_sys = \<lparr>rw_of = \<lparr>postion = 0, byte = (\<lambda>_. 7), buff_len = 2, buff_pos = 2\<rparr>,
    rw_pcs = (\<lambda>i. if i = 2 then Wr_start else Rd_test)\<rparr>"

text \<open>
  C36. Reads are not safe at once. When two processes read a device with pending bytes, each with a buffer
  that takes them all, there is an interleaving in which both get all of them and the device is left with
  a negative \<open>buff_len\<close>. It then counts as endless: the next read never sees the end of the data, and
  copies its whole size from where \<open>postion\<close> has got to, out of the array when that lies behind it, and
  otherwise old bytes of the array that nobody has written for it.
\<close>

theorem rw_reads_race:
  assumes "rw_pcs s i = Rd_test" and "rw_pcs s j = Rd_test" and "i \<noteq> j"
    and "rw_wf (rw_of s)" and "pending (rw_of s) \<noteq> []"
    and "\<forall>k \<in> {i, j}. buff_len (rw_of s) \<le> rw_size (call k) \<and> rw_size (call k) \<le> 1000000 \<and>
      user_writable U (rw_buf (call k)) 100"
    and "0 < sz" and "sz \<le> 1000000"
  shows "\<exists>t. reaches (rw_tstep U call) s t \<and>
    rw_pcs t i = Rd_done (buff_len (rw_of s)) (pending (rw_of s)) \<and>
    rw_pcs t j = Rd_done (buff_len (rw_of s)) (pending (rw_of s)) \<and> buff_len (rw_of t) < 0 \<and>
    postion (rw_of t) = postion (rw_of s) + rw_size (call i) + rw_size (call j) \<and>
    (100 < postion (rw_of t) + sz \<longrightarrow> rw_example_read U buf sz (rw_of t) = Inl Oob_read) \<and>
    (postion (rw_of t) + sz \<le> 100 \<and> user_writable U buf 100 \<longrightarrow>
      (\<exists>r. rw_example_read U buf sz (rw_of t) = Inr r \<and> r_ret r = sz \<and>
        r_user r = load (byte (rw_of s)) (nat (postion (rw_of t))) (nat sz)))"
proof -
  obtain t where t: "reaches (rw_tstep U call) s t"
    "rw_pcs t i = Rd_done (buff_len (rw_of s)) (pending (rw_of s))"
    "rw_pcs t j = Rd_done (buff_len (rw_of s)) (pending (rw_of s))"
    "rw_of t = after_two_reads (rw_size (call i)) (rw_size (call j)) (rw_of s)"
    using rw_two_readers [OF assms(1-6)] by blast
  have n: "0 < buff_len (rw_of s)"
    using assms(5) rw_wf_len [OF assms(4)] by (auto simp: pending_def intro: ccontr)
  have p: "postion (rw_of t) = postion (rw_of s) + rw_size (call i) + rw_size (call j)"
    "buff_len (rw_of t) < 0"
    using n by (simp_all add: t(4) after_two_reads_def)
  have "buff_len (rw_of s) \<le> rw_size (call i)" "buff_len (rw_of s) \<le> rw_size (call j)"
    using assms(6) by simp_all
  from rw_read_after_two_reads [OF assms(4) n this assms(7,8), of U buf]
  show ?thesis using t p by (intro exI [of _ t]) simp
qed

text \<open>Two sevens and two readers with buffers of 60: \<open>postion\<close> is 120 afterwards, and any read leaves the array.\<close>

theorem rw_reads_race_witness:
  "\<exists>t. reaches (rw_tstep (flat_uaccess 0 []) three_calls)
      three_sys t \<and>
    rw_pcs t 0 = Rd_done 2 [7, 7] \<and> rw_pcs t 1 = Rd_done 2 [7, 7] \<and>
    rw_example_read (flat_uaccess 0 []) 0 1 (rw_of t) = Inl Oob_read"
proof -
  have p: "pending (rw_of three_sys) = [7, 7]"
    by (simp add: pending_def three_sys_def load_def numeral_2_eq_2)
  show ?thesis
    using rw_reads_race [of three_sys 0 1 three_calls
        "flat_uaccess 0 []" 1 0] p
    by (auto simp: three_calls_def three_sys_def rw_wf_def)
qed

end
