(* ===== verification/Queue_Wait.thy ===== *)
theory Queue_Wait
  imports Kernel_Prelude Scheduler
begin

text \<open>
  The blocking device of \<open>04-queue_wait/queue_wait_dev.c\<close>: a writer fills \<open>byte[100]\<close>, sets
  \<open>havedata\<close> and wakes the readers; a reader waits for \<open>havedata\<close>, clears it and copies.
  Nothing but \<open>havedata\<close> and the wait queue orders the two, so besides the handlers as
  functions (\<open>qw_example_read\<close>, \<open>qw_example_write\<close>) the file has them as atomic steps of
  threads (\<open>qw_tstep\<close>), one step per C statement that touches shared state. The kernel's wait queue
  is a parameter (\<open>wait_ops\<close>): a sleeper goes on only when \<open>wake_up\<close> or a signal makes it runnable.
\<close>

section \<open>State and handlers\<close>

record qw_dev =
  byte :: kmem
  buff_len :: int
  havedata :: int

definition qw_example_open :: "qw_dev \<Rightarrow> qw_dev \<times> int" where
  "qw_example_open d = (d, 0)"

definition qw_example_close :: "qw_dev \<Rightarrow> qw_dev \<times> int" where
  "qw_example_close d = (d, 0)"

text \<open>
  The \<open>while (!havedata)\<close> loop. \<open>wait_event_interruptible\<close> returns when the condition holds
  or a signal arrives, and its result is not looked at: \<open>wakes\<close> lists the device as it is
  after each return. \<open>Asleep\<close> is a reader whose last wait has not returned.
\<close>

datatype wait_outcome = Proceed qw_dev | Would_block qw_dev | Asleep

fun qw_wait_loop :: "bool \<Rightarrow> qw_dev list \<Rightarrow> qw_dev \<Rightarrow> wait_outcome" where
  "qw_wait_loop nonblock [] d =
    (if havedata d \<noteq> 0 then Proceed d else if nonblock then Would_block d else Asleep)"
| "qw_wait_loop nonblock (w # wakes) d =
    (if havedata d \<noteq> 0 then Proceed d else if nonblock then Would_block d
     else qw_wait_loop nonblock wakes w)"

text \<open>
  The rest of \<open>example_read\<close>: \<open>len\<close> is the caller's size when the copy is made, and the
  number of bytes written when it is returned.
\<close>

definition qw_read_take :: "uaccess \<Rightarrow> int \<Rightarrow> int \<Rightarrow> qw_dev \<Rightarrow> fault + qw_dev reply" where
  "qw_read_take U buf sz d =
    (let d1 = d\<lparr>havedata := 0\<rparr>
     in if \<not> in_array 100 0 sz then Inl Oob_read
        else
          let bs = load (byte d1) 0 (nat sz);
              left = copy_to_user U buf bs
          in if left \<noteq> 0
             then Inr \<lparr>r_dev = d1, r_ret = - EFAULT, r_user = copied bs left, r_log = []\<rparr>
             else if \<not> in_array 100 0 (u64 (buff_len d1)) then Inl Oob_read
             else Inr \<lparr>r_dev = d1\<lparr>buff_len := 0\<rparr>, r_ret = s64 (u64 (buff_len d1)), r_user = bs,
                       r_log = map (\<lambda>i. (i, byte d1 i)) [0..<nat (u64 (buff_len d1))]\<rparr>)"

definition qw_example_read ::
    "uaccess \<Rightarrow> bool \<Rightarrow> qw_dev list \<Rightarrow> int \<Rightarrow> int \<Rightarrow> qw_dev \<Rightarrow> fault + qw_dev reply option" where
  "qw_example_read U nonblock wakes buf sz d =
    (case qw_wait_loop nonblock wakes d of
       Asleep \<Rightarrow> Inr None
     | Would_block d' \<Rightarrow> Inr (Some \<lparr>r_dev = d', r_ret = - EAGAIN, r_user = [], r_log = []\<rparr>)
     | Proceed d' \<Rightarrow> (case qw_read_take U buf sz d' of Inl e \<Rightarrow> Inl e | Inr r \<Rightarrow> Inr (Some r)))"

definition qw_example_write :: "uaccess \<Rightarrow> int \<Rightarrow> int \<Rightarrow> qw_dev \<Rightarrow> fault + qw_dev reply" where
  "qw_example_write U buf sz d =
    (case byte_copy_loop 100 U sz buf (byte d) 0 [] of
       Inl e \<Rightarrow> Inl e
     | Inr (m, len, logs) \<Rightarrow>
         Inr \<lparr>r_dev = d\<lparr>byte := m, buff_len := len, havedata := 1\<rparr>,
              r_ret = len, r_user = [], r_log = logs\<rparr>)"

section \<open>The handlers as threads\<close>

text \<open>
  The wait queue of the kernel, over a state \<open>'q\<close> of its own, with threads as numbers:
  \<open>prepare_to_wait\<close> queues a thread and marks it as not runnable, \<open>finish_wait\<close> takes it off again,
  \<open>wake_up\<close> makes every queued thread runnable, and \<open>sleeps\<close> says who is not runnable. The
  documented behaviour is \<open>wait_spec\<close>: all waiters of this driver are non-exclusive, so one
  \<open>wake_up\<close> wakes them all.
\<close>

record 'q wait_ops =
  prepare_to_wait :: "nat \<Rightarrow> 'q \<Rightarrow> 'q"
  finish_wait :: "nat \<Rightarrow> 'q \<Rightarrow> 'q"
  wake_up :: "'q \<Rightarrow> 'q"
  sleeps :: "'q \<Rightarrow> nat \<Rightarrow> bool"

definition wait_spec :: "'q wait_ops \<Rightarrow> bool" where
  "wait_spec W \<longleftrightarrow> (\<forall>q i j.
    sleeps W (prepare_to_wait W i q) j = (j = i \<or> sleeps W q j) \<and>
    sleeps W (finish_wait W i q) j = (j \<noteq> i \<and> sleeps W q j) \<and>
    \<not> sleeps W (wake_up W q) j)"

lemma wait_specD [simp]:
  "wait_spec W \<Longrightarrow> sleeps W (prepare_to_wait W i q) j = (j = i \<or> sleeps W q j)"
  "wait_spec W \<Longrightarrow> sleeps W (finish_wait W i q) j = (j \<noteq> i \<and> sleeps W q j)"
  "wait_spec W \<Longrightarrow> \<not> sleeps W (wake_up W q) j"
  by (simp_all add: wait_spec_def)

text \<open>A queue that behaves so: the set of the sleepers.\<close>

definition set_waitq :: "nat set wait_ops" where
  "set_waitq = \<lparr>prepare_to_wait = insert, finish_wait = (\<lambda>i q. q - {i}), wake_up = (\<lambda>q. {}),
    sleeps = (\<lambda>q i. i \<in> q)\<rparr>"

lemma set_waitq_spec [simp]: "wait_spec set_waitq"
  by (auto simp: wait_spec_def set_waitq_def)

text \<open>
  Where a thread is: before the test of \<open>havedata\<close>; in \<open>wait_event_interruptible\<close> before it queues
  itself, before it tests the condition, in \<open>schedule\<close>; past the loop, before the copy, in the log
  loop after \<open>k\<close> rounds with the bytes delivered, before \<open>len = buff_len\<close>, before
  \<open>buff_len = 0\<close> with the value of \<open>len\<close>, returned;
  a writer before the loop, in it with \<open>k\<close> bytes of its buffer used (before the test, the copy and
  the increment), before \<open>havedata = 1\<close>, before \<open>wake_up\<close>, in \<open>mdelay\<close>, returned.
\<close>

datatype qw_pc =
    Idle
  | R_test | R_prepare | R_cond | R_sleep | R_take | R_copy | R_log nat "byte list"
  | R_len "byte list" | R_clear int "byte list" | R_done int "byte list"
  | W_start | W_loop nat | W_copy nat | W_next nat | W_flag | W_wake | W_delay | W_done int
  | Faulted fault

record qw_call =
  nonblock :: bool
  ubuf :: int
  usize :: int

record 'q qw_sys =
  dev :: qw_dev
  queue_rw :: 'q
  pcs :: "nat \<Rightarrow> qw_pc"

definition goto :: "nat \<Rightarrow> qw_pc \<Rightarrow> 'q qw_sys \<Rightarrow> 'q qw_sys" where
  "goto i pc s = s\<lparr>pcs := (pcs s)(i := pc)\<rparr>"

definition set_dev :: "qw_dev \<Rightarrow> 'q qw_sys \<Rightarrow> 'q qw_sys" where
  "set_dev d s = s\<lparr>dev := d\<rparr>"

definition set_queue :: "'q \<Rightarrow> 'q qw_sys \<Rightarrow> 'q qw_sys" where
  "set_queue q s = s\<lparr>queue_rw := q\<rparr>"

text \<open>
  The argument \<open>(i, signal)\<close> picks the thread and says whether a signal is pending for it.
  \<open>wait_event_interruptible\<close> is its documented loop: queue up, return if the condition holds or a
  signal is pending, otherwise sleep until runnable and begin again. A signal makes a sleeper
  runnable, nothing else but \<open>wake_up\<close> does; that the condition has become true does not.
\<close>

definition qw_tstep :: "'q wait_ops \<Rightarrow> uaccess \<Rightarrow> (nat \<Rightarrow> qw_call) \<Rightarrow> nat \<times> bool \<Rightarrow> 'q qw_sys \<Rightarrow>
    'q qw_sys option" where
  "qw_tstep W U call \<sigma> s =
    (let i = fst \<sigma>; signal = snd \<sigma>; d = dev s; q = queue_rw s; c = call i in
     case pcs s i of
       R_test \<Rightarrow>
         Some (goto i (if havedata d \<noteq> 0 then R_take
                       else if nonblock c then R_done (- EAGAIN) [] else R_prepare) s)
     | R_prepare \<Rightarrow> Some (goto i R_cond (set_queue (prepare_to_wait W i q) s))
     | R_cond \<Rightarrow>
         Some (if havedata d \<noteq> 0 \<or> signal then goto i R_test (set_queue (finish_wait W i q) s)
               else goto i R_sleep s)
     | R_sleep \<Rightarrow> if sleeps W q i \<and> \<not> signal then None else Some (goto i R_prepare s)
     | R_take \<Rightarrow> Some (goto i R_copy (set_dev (d\<lparr>havedata := 0\<rparr>) s))
     | R_copy \<Rightarrow>
         (if \<not> in_array 100 0 (usize c) then Some (goto i (Faulted Oob_read) s)
          else
            let bs = load (byte d) 0 (nat (usize c)); left = copy_to_user U (ubuf c) bs
            in Some (goto i (if left \<noteq> 0 then R_done (- EFAULT) (copied bs left) else R_log 0 bs) s))
     | R_log k bs \<Rightarrow>
         Some (goto i (if u64 (buff_len d) \<le> int k then R_len bs
                       else if k < 100 then R_log (Suc k) bs else Faulted Oob_read) s)
     | R_len bs \<Rightarrow> Some (goto i (R_clear (u64 (buff_len d)) bs) s)
     | R_clear n bs \<Rightarrow> Some (goto i (R_done (s64 n) bs) (set_dev (d\<lparr>buff_len := 0\<rparr>) s))
     | W_start \<Rightarrow> Some (goto i (W_loop 0) (set_dev (d\<lparr>buff_len := 0\<rparr>) s))
     | W_loop k \<Rightarrow> Some (goto i (if u64 (buff_len d) < usize c then W_copy k else W_flag) s)
     | W_copy k \<Rightarrow>
         (if buff_len d < 0 \<or> 100 \<le> buff_len d then Some (goto i (Faulted Oob_write) s)
          else
            let (bs, left) = copy_from_user U (ubuf c + int k) 1;
                d' = d\<lparr>byte := store (byte d) (nat (buff_len d)) bs\<rparr>
            in Some (goto i (if left \<noteq> 0 then W_flag else W_next k) (set_dev d' s)))
     | W_next k \<Rightarrow> Some (goto i (W_loop (Suc k)) (set_dev (d\<lparr>buff_len := s32 (buff_len d + 1)\<rparr>) s))
     | W_flag \<Rightarrow> Some (goto i W_wake (set_dev (d\<lparr>havedata := 1\<rparr>) s))
     | W_wake \<Rightarrow> Some (goto i W_delay (set_queue (wake_up W q) s))
     | W_delay \<Rightarrow> Some (goto i (W_done (s64 (buff_len d))) s)
     | _ \<Rightarrow> None)"

lemma goto_simps [simp]:
  "dev (goto i pc s) = dev s" "pcs (goto i pc s) = (pcs s)(i := pc)"
  "queue_rw (goto i pc s) = queue_rw s"
  "dev (set_dev d s) = d" "pcs (set_dev d s) = pcs s" "queue_rw (set_dev d s) = queue_rw s"
  "dev (set_queue q s) = dev s" "pcs (set_queue q s) = pcs s" "queue_rw (set_queue q s) = q"
  by (simp_all add: goto_def set_dev_def set_queue_def)

section \<open>One reader and one writer\<close>

text \<open>
  Thread 0 reads and blocks, thread 1 writes \<open>bs\<close>, the device starts without data. The
  reader's buffer takes the whole write.
\<close>

definition handoff_start :: "uaccess \<Rightarrow> (nat \<Rightarrow> qw_call) \<Rightarrow> byte list \<Rightarrow> 'q qw_sys \<Rightarrow> bool" where
  "handoff_start U call bs s \<longleftrightarrow>
    pcs s = (\<lambda>_. Idle)(0 := R_test, 1 := W_start) \<and> havedata (dev s) = 0 \<and>
    \<not> nonblock (call 0) \<and> int (length bs) \<le> usize (call 0) \<and> usize (call 0) \<le> 100 \<and>
    usize (call 1) = int (length bs) \<and>
    user_readable U (ubuf (call 1)) bs \<and> user_writable U (ubuf (call 0)) 100"

text \<open>
  What holds while the writer is at each of its steps. Until it sets \<open>havedata\<close> the reader
  waits; from then on the array holds \<open>bs\<close> and the reader is somewhere in its \<open>reader_inv\<close>.
\<close>

definition waiting :: "qw_pc \<Rightarrow> bool" where
  "waiting pc \<longleftrightarrow> pc = R_test \<or> pc = R_prepare \<or> pc = R_cond \<or> pc = R_sleep"

fun returned :: "qw_pc \<Rightarrow> bool" where
  "returned (R_done n out) = True"
| "returned pc = False"

fun reader_inv :: "byte list \<Rightarrow> qw_dev \<Rightarrow> qw_pc \<Rightarrow> bool" where
  "reader_inv bs d R_test = (havedata d = 1 \<and> buff_len d = int (length bs))"
| "reader_inv bs d R_prepare = (havedata d = 1 \<and> buff_len d = int (length bs))"
| "reader_inv bs d R_cond = (havedata d = 1 \<and> buff_len d = int (length bs))"
| "reader_inv bs d R_sleep = (havedata d = 1 \<and> buff_len d = int (length bs))"
| "reader_inv bs d R_take = (havedata d = 1 \<and> buff_len d = int (length bs))"
| "reader_inv bs d R_copy = (havedata d = 0 \<and> buff_len d = int (length bs))"
| "reader_inv bs d (R_log k out) =
    (havedata d = 0 \<and> k \<le> length bs \<and> buff_len d = int (length bs) \<and> take (length bs) out = bs)"
| "reader_inv bs d (R_len out) =
    (havedata d = 0 \<and> buff_len d = int (length bs) \<and> take (length bs) out = bs)"
| "reader_inv bs d (R_clear n out) =
    (havedata d = 0 \<and> n = int (length bs) \<and> buff_len d = n \<and> take (length bs) out = bs)"
| "reader_inv bs d (R_done n out) =
    (n = int (length bs) \<and> take (length bs) out = bs \<and> buff_len d = 0)"
| "reader_inv bs d pc = False"

fun writer_inv :: "byte list \<Rightarrow> qw_dev \<Rightarrow> qw_pc \<Rightarrow> qw_pc \<Rightarrow> bool" where
  "writer_inv bs d rpc W_start = (waiting rpc \<and> havedata d = 0)"
| "writer_inv bs d rpc (W_loop k) =
    (waiting rpc \<and> havedata d = 0 \<and> k \<le> length bs \<and> buff_len d = int k \<and>
     load (byte d) 0 k = take k bs)"
| "writer_inv bs d rpc (W_copy k) =
    (waiting rpc \<and> havedata d = 0 \<and> k < length bs \<and> buff_len d = int k \<and>
     load (byte d) 0 k = take k bs)"
| "writer_inv bs d rpc (W_next k) =
    (waiting rpc \<and> havedata d = 0 \<and> k < length bs \<and> buff_len d = int k \<and>
     load (byte d) 0 (Suc k) = take (Suc k) bs)"
| "writer_inv bs d rpc W_flag =
    (waiting rpc \<and> havedata d = 0 \<and> buff_len d = int (length bs) \<and> load (byte d) 0 (length bs) = bs)"
| "writer_inv bs d rpc W_wake = (load (byte d) 0 (length bs) = bs \<and> reader_inv bs d rpc)"
| "writer_inv bs d rpc W_delay = (load (byte d) 0 (length bs) = bs \<and> reader_inv bs d rpc)"
| "writer_inv bs d rpc (W_done w) =
    (load (byte d) 0 (length bs) = bs \<and> reader_inv bs d rpc \<and>
     (w = int (length bs) \<or> w = 0 \<and> returned rpc))"
| "writer_inv bs d rpc pc = False"

definition handoff_inv :: "uaccess \<Rightarrow> (nat \<Rightarrow> qw_call) \<Rightarrow> byte list \<Rightarrow> 'q qw_sys \<Rightarrow> bool" where
  "handoff_inv U call bs s \<longleftrightarrow>
    (\<forall>i. i \<noteq> 0 \<longrightarrow> i \<noteq> 1 \<longrightarrow> pcs s i = Idle) \<and>
    \<not> nonblock (call 0) \<and> int (length bs) \<le> usize (call 0) \<and> usize (call 0) \<le> 100 \<and>
    usize (call 1) = int (length bs) \<and>
    user_readable U (ubuf (call 1)) bs \<and> user_writable U (ubuf (call 0)) 100 \<and>
    writer_inv bs (dev s) (pcs s 0) (pcs s 1)"

lemma handoff_start_inv: "handoff_start U call bs s \<Longrightarrow> handoff_inv U call bs s"
  by (simp add: handoff_start_def handoff_inv_def waiting_def)

lemma reader_step_waiting:
  assumes "waiting (pcs s 0)" and "havedata (dev s) = 0" and "\<not> nonblock (call 0)"
    and "qw_tstep W U call (0, sg) s = Some t"
  shows "dev t = dev s \<and> waiting (pcs t 0) \<and> (\<forall>i. i \<noteq> 0 \<longrightarrow> pcs t i = pcs s i)"
  using assms by (auto simp: qw_tstep_def waiting_def split: if_splits)

lemma reader_step_posted:
  assumes "reader_inv bs (dev s) (pcs s 0)" and "load (byte (dev s)) 0 (length bs) = bs"
    and "int (length bs) \<le> usize (call 0)" and "usize (call 0) \<le> 100"
    and "user_writable U (ubuf (call 0)) 100" and "qw_tstep W U call (0, sg) s = Some t"
  shows "byte (dev t) = byte (dev s) \<and> reader_inv bs (dev t) (pcs t 0) \<and>
    (\<forall>i. i \<noteq> 0 \<longrightarrow> pcs t i = pcs s i) \<and> \<not> returned (pcs s 0)"
proof (cases "pcs s 0")
  case R_copy
  have "length bs \<le> nat (usize (call 0))" using assms(3) by linarith
  then have "take (length bs) (load (byte (dev s)) 0 (nat (usize (call 0)))) = bs"
    using assms(2) by (simp add: take_load min_def)
  moreover have "in_array 100 0 (usize (call 0))"
    using assms(3,4) by (simp add: in_array_def)
  moreover have "copy_to_user U (ubuf (call 0)) (load (byte (dev s)) 0 (nat (usize (call 0)))) = 0"
    by (rule user_writableD [OF assms(5)]) (use assms(4) in simp)
  ultimately show ?thesis
    using R_copy assms(1,6) by (auto simp: qw_tstep_def Let_def)
qed (use assms in \<open>auto simp: qw_tstep_def in_array_def wrap_simps Let_def split: if_splits\<close>)

lemma writer_step:
  assumes "writer_inv bs (dev s) (pcs s 0) (pcs s 1)" and "usize (call 1) = int (length bs)"
    and "length bs \<le> 100" and "user_readable U (ubuf (call 1)) bs"
    and "qw_tstep W U call (1, sg) s = Some t"
  shows "writer_inv bs (dev t) (pcs t 0) (pcs t 1) \<and> (\<forall>i. i \<noteq> 1 \<longrightarrow> pcs t i = pcs s i)"
proof (cases "pcs s 1")
  case (W_loop k)
  with assms show ?thesis by (auto simp: qw_tstep_def wrap_simps)
next
  case (W_copy k)
  with assms have k: "k < length bs" "k < 100" "buff_len (dev s) = int k" by simp_all
  with W_copy assms user_readable_nth [OF assms(4) k(1)] show ?thesis
    using load_store_snoc [of "byte (dev s)" 0 k bs]
    by (auto simp: qw_tstep_def Let_def)
next
  case (W_next k)
  with assms show ?thesis by (auto simp: qw_tstep_def wrap_simps)
next
  case W_flag
  with assms show ?thesis by (auto simp: qw_tstep_def waiting_def)
next
  case W_delay
  with assms show ?thesis
    by (cases "pcs s 0") (auto simp: qw_tstep_def wrap_simps)
qed (use assms in \<open>auto simp: qw_tstep_def\<close>)

lemma writer_inv_waiting:
  assumes "writer_inv bs d rpc wpc" and "havedata d = 0" and "waiting rpc" and "waiting rpc'"
  shows "writer_inv bs d rpc' wpc"
  using assms by (cases wpc) (auto simp: waiting_def)

lemma writer_inv_posted:
  assumes "writer_inv bs d rpc wpc" and "\<not> (waiting rpc \<and> havedata d = 0)"
    and "byte d' = byte d" and "reader_inv bs d' rpc'" and "\<not> returned rpc"
  shows "writer_inv bs d' rpc' wpc"
  using assms by (cases wpc) auto

lemma handoff_step_inv:
  assumes "handoff_inv U call bs s" and "qw_tstep W U call \<sigma> s = Some t"
  shows "handoff_inv U call bs t"
proof -
  obtain i sg where \<sigma>: "\<sigma> = (i, sg)" by (cases \<sigma>)
  note inv = assms(1) [unfolded handoff_inv_def]
  consider (r) "i = 0" | (w) "i = 1" | (other) "i \<noteq> 0" "i \<noteq> 1" by blast
  then show ?thesis
  proof cases
    case r
    show ?thesis
    proof (cases "waiting (pcs s 0) \<and> havedata (dev s) = 0")
      case True
      then show ?thesis
        using reader_step_waiting [of s call W U sg t] writer_inv_waiting [of bs "dev s" "pcs s 0" "pcs s 1"]
          inv assms(2) \<sigma> r
        unfolding handoff_inv_def by simp
    next
      case False
      then have "reader_inv bs (dev s) (pcs s 0) \<and> load (byte (dev s)) 0 (length bs) = bs"
        using inv by (cases "pcs s 1") auto
      then show ?thesis
        using reader_step_posted [of bs s call U W sg t] inv assms(2) \<sigma> r
          writer_inv_posted [OF _ False, of bs "pcs s 1" "dev t" "pcs t 0"]
        unfolding handoff_inv_def by simp
    qed
  next
    case w
    then show ?thesis
      using writer_step [of bs s call U W sg t] inv assms(2) \<sigma> unfolding handoff_inv_def by auto
  next
    case other
    then show ?thesis using inv assms(2) \<sigma> by (simp add: qw_tstep_def)
  qed
qed

interpretation handoff: threaded_system "qw_tstep W U call" "handoff_start U call bs"
  "handoff_inv U call bs" for W U call bs
  by unfold_locales (auto intro: handoff_start_inv handoff_step_inv)

text \<open>
  Who sleeps: until the writer has called \<open>wake_up\<close> the reader is queued from \<open>prepare_to_wait\<close>
  on; after it no sleeper is left, because a reader that queues itself later finds \<open>havedata\<close>
  set before it sleeps.
\<close>

fun woken :: "qw_pc \<Rightarrow> bool" where
  "woken W_delay = True"
| "woken (W_done n) = True"
| "woken pc = False"

definition sleeper_inv :: "'q wait_ops \<Rightarrow> 'q qw_sys \<Rightarrow> bool" where
  "sleeper_inv W s \<longleftrightarrow>
    (if woken (pcs s 1) then pcs s 0 = R_sleep \<longrightarrow> \<not> sleeps W (queue_rw s) 0
     else pcs s 0 = R_cond \<or> pcs s 0 = R_sleep \<longrightarrow> sleeps W (queue_rw s) 0)"

definition handoff_live :: "'q wait_ops \<Rightarrow> uaccess \<Rightarrow> (nat \<Rightarrow> qw_call) \<Rightarrow> byte list \<Rightarrow> 'q qw_sys \<Rightarrow> bool" where
  "handoff_live W U call bs s \<longleftrightarrow> handoff_inv U call bs s \<and> sleeper_inv W s \<and> wait_spec W"

lemma handoff_start_live: "handoff_start U call bs s \<Longrightarrow> wait_spec W \<Longrightarrow> handoff_live W U call bs s"
  by (simp add: handoff_live_def handoff_start_inv sleeper_inv_def handoff_start_def)

lemma writer_queue:
  assumes "writer_inv bs d rpc (pcs s 1)" and "qw_tstep W U call (1, sg) s = Some t"
  shows "pcs t 0 = pcs s 0 \<and>
    (if pcs s 1 = W_wake then queue_rw t = wake_up W (queue_rw s) \<and> pcs t 1 = W_delay
     else queue_rw t = queue_rw s \<and> woken (pcs t 1) = woken (pcs s 1))"
  using assms
  by (cases "pcs s 1") (auto simp: qw_tstep_def Let_def split: if_splits prod.splits)

lemma sleeper_step:
  assumes "handoff_inv U call bs s" and "sleeper_inv W s" and "wait_spec W"
    and "qw_tstep W U call (i, sg) s = Some t"
  shows "sleeper_inv W t"
proof -
  note inv = assms(1) [unfolded handoff_inv_def]
  consider (r) "i = 0" | (w) "i = 1" | (other) "i \<noteq> 0" "i \<noteq> 1" by blast
  then show ?thesis
  proof cases
    case r
    show ?thesis
    proof (cases "woken (pcs s 1)")
      case True
      then have "reader_inv bs (dev s) (pcs s 0)" using inv by (cases "pcs s 1") auto
      then show ?thesis
        using True assms(2-4) r
        by (cases "pcs s 0") (auto simp: sleeper_inv_def qw_tstep_def Let_def split: if_splits)
    next
      case False
      then show ?thesis
        using assms(2-4) r
        by (cases "pcs s 0") (auto simp: sleeper_inv_def qw_tstep_def Let_def split: if_splits prod.splits)
    qed
  next
    case w
    then show ?thesis
      using writer_queue [of bs "dev s" "pcs s 0" s W U call sg t] assms(2-4) inv
      by (simp add: sleeper_inv_def split: if_splits)
  next
    case other
    then show ?thesis using inv assms(4) by (simp add: qw_tstep_def)
  qed
qed

lemma handoff_live_step:
  "handoff_live W U call bs s \<Longrightarrow> qw_tstep W U call \<sigma> s = Some t \<Longrightarrow> handoff_live W U call bs t"
  unfolding handoff_live_def by (cases \<sigma>) (auto intro: handoff_step_inv sleeper_step)

text \<open>Without signals every step uses up work: how far each side is from its return.\<close>

fun reader_work :: "nat \<Rightarrow> qw_dev \<Rightarrow> qw_pc \<Rightarrow> nat" where
  "reader_work n d R_test = (if havedata d = 0 then n + 12 else n + 6)"
| "reader_work n d R_prepare = (if havedata d = 0 then n + 11 else n + 8)"
| "reader_work n d R_cond = (if havedata d = 0 then n + 10 else n + 7)"
| "reader_work n d R_sleep = n + 9"
| "reader_work n d R_take = n + 5"
| "reader_work n d R_copy = n + 4"
| "reader_work n d (R_log k out) = n - k + 3"
| "reader_work n d (R_len out) = 2"
| "reader_work n d (R_clear m out) = 1"
| "reader_work n d pc = 0"

fun writer_work :: "nat \<Rightarrow> qw_pc \<Rightarrow> nat" where
  "writer_work n W_start = 3 * n + 5"
| "writer_work n (W_loop k) = 3 * (n - k) + 4"
| "writer_work n (W_copy k) = 3 * (n - k) + 3"
| "writer_work n (W_next k) = 3 * (n - k) + 2"
| "writer_work n W_flag = 3"
| "writer_work n W_wake = 2"
| "writer_work n W_delay = 1"
| "writer_work n pc = 0"

fun written :: "qw_pc \<Rightarrow> bool" where
  "written (W_done n) = True"
| "written pc = False"

definition handoff_work :: "byte list \<Rightarrow> 'q qw_sys \<Rightarrow> nat" where
  "handoff_work bs s = reader_work (length bs) (dev s) (pcs s 0) + writer_work (length bs) (pcs s 1)"

definition handoff_finished :: "'q qw_sys \<Rightarrow> bool" where
  "handoff_finished s \<longleftrightarrow> returned (pcs s 0) \<and> written (pcs s 1)"

lemma reader_work_decreases:
  assumes "qw_tstep W U call (0, False) s = Some t" and "\<not> nonblock (call 0)" and "length bs \<le> 100"
    and "waiting (pcs s 0) \<and> havedata (dev s) = 0 \<and> (pcs s 0 = R_sleep \<longrightarrow> sleeps W (queue_rw s) 0) \<or>
      reader_inv bs (dev s) (pcs s 0)"
  shows "reader_work (length bs) (dev t) (pcs t 0) < reader_work (length bs) (dev s) (pcs s 0) \<and>
    pcs t 1 = pcs s 1"
  using assms
  by (cases "pcs s 0") (auto simp: qw_tstep_def waiting_def wrap_simps Let_def split: if_splits)

lemma writer_work_decreases:
  assumes "qw_tstep W U call (1, False) s = Some t" and "writer_inv bs (dev s) (pcs s 0) (pcs s 1)"
    and "usize (call 1) = int (length bs)" and "length bs \<le> 100"
    and "user_readable U (ubuf (call 1)) bs"
  shows "writer_work (length bs) (pcs t 1) < writer_work (length bs) (pcs s 1) \<and>
    reader_work (length bs) (dev t) (pcs t 0) \<le> reader_work (length bs) (dev s) (pcs s 0)"
proof (cases "pcs s 1")
  case (W_loop k)
  with assms show ?thesis by (auto simp: qw_tstep_def wrap_simps)
next
  case (W_copy k)
  with assms have k: "k < length bs" by simp
  with W_copy assms user_readable_nth [OF assms(5) k] show ?thesis
    by (auto simp: qw_tstep_def waiting_def Let_def)
next
  case (W_next k)
  with assms show ?thesis by (auto simp: qw_tstep_def waiting_def)
qed (use assms in \<open>auto simp: qw_tstep_def waiting_def\<close>)

lemma handoff_reader:
  assumes "handoff_live W U call bs s"
  shows "waiting (pcs s 0) \<and> havedata (dev s) = 0 \<and> \<not> woken (pcs s 1) \<and>
      (pcs s 0 = R_sleep \<longrightarrow> sleeps W (queue_rw s) 0) \<or>
    reader_inv bs (dev s) (pcs s 0) \<and> (woken (pcs s 1) \<longrightarrow> pcs s 0 = R_sleep \<longrightarrow> \<not> sleeps W (queue_rw s) 0)"
  using assms by (cases "pcs s 1") (auto simp: handoff_live_def handoff_inv_def sleeper_inv_def)

lemma handoff_work_decreases:
  assumes "handoff_live W U call bs s" and "qw_tstep W U call (i, False) s = Some t"
  shows "handoff_work bs t < handoff_work bs s"
proof -
  note inv = assms(1) [unfolded handoff_live_def handoff_inv_def]
  consider (r) "i = 0" | (w) "i = 1" | (other) "i \<noteq> 0" "i \<noteq> 1" by blast
  then show ?thesis
  proof cases
    case r
    with reader_work_decreases [of W U call s t bs] handoff_reader [OF assms(1)] assms(2) inv
    show ?thesis by (auto simp: handoff_work_def)
  next
    case w
    with writer_work_decreases [of W U call s t bs] assms(2) inv show ?thesis
      by (simp add: handoff_work_def)
  next
    case other
    then show ?thesis using inv assms(2) by (simp add: qw_tstep_def)
  qed
qed

text \<open>
  Progress is where the \<open>wake_up\<close> counts: once the writer has returned, the reader can move only
  because it is not asleep.
\<close>

lemma handoff_progress:
  assumes "handoff_live W U call bs s" and "\<not> handoff_finished s"
  shows "\<exists>i t. qw_tstep W U call (i, False) s = Some t"
proof (cases "written (pcs s 1)")
  case True
  then have "woken (pcs s 1)" "\<not> returned (pcs s 0)"
    using assms(2) by (cases "pcs s 1"; simp add: handoff_finished_def)+
  then have "\<exists>t. qw_tstep W U call (0, False) s = Some t"
    using handoff_reader [OF assms(1)]
    by (cases "pcs s 0") (auto simp: qw_tstep_def Let_def)
  then show ?thesis by blast
next
  case False
  then have "\<exists>t. qw_tstep W U call (1, False) s = Some t"
    using assms(1)
    by (cases "pcs s 1") (auto simp: qw_tstep_def handoff_live_def handoff_inv_def Let_def split: prod.split)
  then show ?thesis by blast
qed

interpretation quiet: terminating_system "\<lambda>i. qw_tstep W U call (i, False)"
  "\<lambda>s. handoff_start U call bs s \<and> wait_spec W" "handoff_live W U call bs" "handoff_work bs"
  handoff_finished for W U call bs
  by unfold_locales
    (auto intro: handoff_start_live handoff_live_step handoff_work_decreases handoff_progress)

interpretation signalled: threaded_system "qw_tstep W U call" "\<lambda>s. handoff_start U call bs s \<and> wait_spec W"
  "handoff_live W U call bs" for W U call bs
  by unfold_locales (auto intro: handoff_start_live handoff_live_step)

section \<open>Threads that run alone are the handlers\<close>

lemma goto_goto [simp]: "goto i pc (goto i pc' s) = goto i pc s"
  by (simp add: goto_def)

lemma set_dev_set_dev [simp]: "set_dev d (set_dev d' s) = set_dev d s"
  by (simp add: set_dev_def)

lemma set_dev_goto [simp]: "set_dev d (goto i pc s) = goto i pc (set_dev d s)"
  by (simp add: goto_def set_dev_def)

lemma set_queue_simps [simp]:
  "set_queue q (set_queue q' s) = set_queue q s"
  "set_queue q (goto i pc s) = goto i pc (set_queue q s)"
  "set_queue q (set_dev d s) = set_dev d (set_queue q s)"
  by (simp_all add: goto_def set_dev_def set_queue_def)

lemma writer_solo_loop:
  assumes "pcs s i = W_loop k" and "user_readable U (ubuf (call i)) bs"
    and "usize (call i) = int (length bs)" and "length bs \<le> 100"
    and "k \<le> length bs" and "buff_len (dev s) = int k"
  shows "run_schedule (qw_tstep W U call) (replicate (3 * (length bs - k) + 1) (i, False)) s =
    Some (goto i W_flag (set_dev ((dev s)\<lparr>byte := store (byte (dev s)) k (drop k bs),
      buff_len := int (length bs)\<rparr>) s))"
  using assms
proof (induction "length bs - k" arbitrary: k s)
  case 0
  then have "k = length bs" by simp
  with 0 show ?case
    by (simp add: qw_tstep_def wrap_simps goto_def set_dev_def)
next
  case (Suc n)
  let ?d = "(dev s)\<lparr>byte := store (byte (dev s)) k [bs ! k], buff_len := int (Suc k)\<rparr>"
  let ?s = "goto i (W_loop (Suc k)) (set_dev ?d s)"
  have k: "k < length bs" using Suc by simp
  have n: "n = length bs - Suc k" "3 * (length bs - k) + 1 = 3 + (3 * (length bs - Suc k) + 1)"
    using Suc by simp_all
  have steps: "run_schedule (qw_tstep W U call) (replicate 3 (i, False)) s = Some ?s"
    using Suc.prems k user_readable_nth [OF Suc.prems(2) k]
    by (simp add: numeral_3_eq_3 qw_tstep_def wrap_simps Let_def)
  have st: "store (store (byte (dev s)) k [bs ! k]) (Suc k) (drop (Suc k) bs) =
      store (byte (dev s)) k (drop k bs)"
    using store_Cons [of "byte (dev s)" k "bs ! k" "drop (Suc k) bs"] k
    by (simp add: Cons_nth_drop_Suc)
  have "run_schedule (qw_tstep W U call) (replicate (3 * (length bs - Suc k) + 1) (i, False)) ?s =
      Some (goto i W_flag (set_dev ((dev ?s)\<lparr>byte := store (byte (dev ?s)) (Suc k) (drop (Suc k) bs),
        buff_len := int (length bs)\<rparr>) ?s))"
    by (rule Suc.hyps(1) [OF n(1)]) (use Suc.prems k in auto)
  with st show ?case
    unfolding n(2) replicate_add run_schedule_append steps by simp
qed

lemma writer_solo_posted:
  assumes "pcs s i = W_start" and "user_readable U (ubuf (call i)) bs"
    and "usize (call i) = int (length bs)" and "length bs \<le> 100"
  shows "run_schedule (qw_tstep W U call) (replicate (3 * length bs + 4) (i, False)) s =
    Some (goto i W_delay (set_dev ((dev s)\<lparr>byte := store (byte (dev s)) 0 bs,
      buff_len := int (length bs), havedata := 1\<rparr>) (set_queue (wake_up W (queue_rw s)) s)))"
proof -
  let ?s = "goto i (W_loop 0) (set_dev ((dev s)\<lparr>buff_len := 0\<rparr>) s)"
  have split: "replicate (3 * length bs + 4) (i, False) =
      [(i, False)] @ replicate (3 * length bs + 1) (i, False) @ [(i, False), (i, False)]"
    by (simp add: numeral_eq_Suc flip: replicate_append_same)
  have "run_schedule (qw_tstep W U call) [(i, False)] s = Some ?s"
    using assms(1) by (simp add: qw_tstep_def)
  moreover have "run_schedule (qw_tstep W U call) (replicate (3 * length bs + 1) (i, False)) ?s =
      Some (goto i W_flag (set_dev ((dev s)\<lparr>byte := store (byte (dev s)) 0 bs,
        buff_len := int (length bs)\<rparr>) s))"
    using writer_solo_loop [of ?s i 0 U call bs] assms by (simp del: replicate_Suc)
  ultimately show ?thesis
    unfolding split run_schedule_append by (simp del: replicate_Suc add: qw_tstep_def)
qed

lemma qw_write_eq:
  assumes "user_readable U buf bs" and "length bs \<le> 100"
  shows "qw_example_write U buf (int (length bs)) d =
    Inr \<lparr>r_dev = d\<lparr>byte := store (byte d) 0 bs, buff_len := int (length bs), havedata := 1\<rparr>,
         r_ret = int (length bs), r_user = [], r_log = enumerate 0 bs\<rparr>"
  using assms
  by (simp add: qw_example_write_def byte_copy_loop_prefix [OF assms(1)] byte_copy_loop_end)

lemma qw_take_eq:
  assumes "user_writable U buf 100" and "0 \<le> sz" and "sz \<le> 100"
    and "0 \<le> buff_len d" and "buff_len d \<le> 100"
  shows "qw_read_take U buf sz d =
    Inr \<lparr>r_dev = d\<lparr>havedata := 0, buff_len := 0\<rparr>, r_ret = buff_len d,
         r_user = load (byte d) 0 (nat sz),
         r_log = map (\<lambda>i. (i, byte d i)) [0..<nat (buff_len d)]\<rparr>"
  using assms user_writableD [OF assms(1), of "load (byte d) 0 (nat sz)"]
  by (simp add: qw_read_take_def in_array_def wrap_simps)

text \<open>The log loop of a reader that nothing disturbs.\<close>

lemma reader_solo_log:
  assumes "pcs s i = R_log k out" and "u64 (buff_len (dev s)) = int n" and "k \<le> n" and "n \<le> 100"
  shows "run_schedule (qw_tstep W U call) (replicate (n - k + 1) (i, False)) s = Some (goto i (R_len out) s)"
  using assms
proof (induction "n - k" arbitrary: k s)
  case 0
  then show ?case by (simp add: qw_tstep_def)
next
  case (Suc m)
  then have k: "m = n - Suc k" "k < n" by simp_all
  have "run_schedule (qw_tstep W U call) (replicate (n - Suc k + 1) (i, False)) (goto i (R_log (Suc k) out) s) =
      Some (goto i (R_len out) s)"
    using Suc.hyps(1) [OF k(1), of "goto i (R_log (Suc k) out) s"] Suc.prems k by simp
  moreover have "n - k + 1 = Suc (n - Suc k + 1)" using k by simp
  moreover have "qw_tstep W U call (i, False) s = Some (goto i (R_log (Suc k) out) s)"
    using Suc.prems k by (simp add: qw_tstep_def)
  ultimately show ?case by (simp only: replicate_Suc run_schedule.simps option.case)
qed

lemma reader_solo_overrun:
  assumes "pcs s i = R_log k out" and "100 < u64 (buff_len (dev s))" and "k \<le> 100"
  shows "run_schedule (qw_tstep W U call) (replicate (100 - k + 1) (i, False)) s =
    Some (goto i (Faulted Oob_read) s)"
  using assms
proof (induction "100 - k" arbitrary: k s)
  case 0
  then show ?case by (simp add: qw_tstep_def)
next
  case (Suc m)
  then have k: "m = 100 - Suc k" "k < 100" by simp_all
  have "run_schedule (qw_tstep W U call) (replicate (100 - Suc k + 1) (i, False)) (goto i (R_log (Suc k) out) s) =
      Some (goto i (Faulted Oob_read) s)"
    using Suc.hyps(1) [OF k(1), of "goto i (R_log (Suc k) out) s"] Suc.prems k by simp
  moreover have "100 - k + 1 = Suc (100 - Suc k + 1)" using k by simp
  moreover have "qw_tstep W U call (i, False) s = Some (goto i (R_log (Suc k) out) s)"
    using Suc.prems k by (simp add: qw_tstep_def)
  ultimately show ?case by (simp only: replicate_Suc run_schedule.simps option.case)
qed

lemma reader_solo:
  assumes "pcs s i = R_take" and "user_writable U (ubuf (call i)) 100"
    and "0 \<le> usize (call i)" and "usize (call i) \<le> 100"
    and "0 \<le> buff_len (dev s)" and "buff_len (dev s) \<le> 100"
  shows "run_schedule (qw_tstep W U call) (replicate (nat (buff_len (dev s)) + 5) (i, False)) s =
    Some (goto i (R_done (buff_len (dev s)) (load (byte (dev s)) 0 (nat (usize (call i)))))
      (set_dev ((dev s)\<lparr>havedata := 0, buff_len := 0\<rparr>) s))"
proof -
  let ?n = "nat (buff_len (dev s))" and ?bs = "load (byte (dev s)) 0 (nat (usize (call i)))"
  define s1 where "s1 = goto i (R_log 0 ?bs) (set_dev ((dev s)\<lparr>havedata := 0\<rparr>) s)"
  have n: "?n + 5 = 2 + ((?n - 0 + 1) + 2)" by simp
  have 1: "run_schedule (qw_tstep W U call) (replicate 2 (i, False)) s = Some s1"
    using assms user_writableD [OF assms(2), of ?bs]
    by (simp add: numeral_eq_Suc qw_tstep_def in_array_def s1_def)
  have 2: "run_schedule (qw_tstep W U call) (replicate (?n - 0 + 1) (i, False)) s1 =
      Some (goto i (R_len ?bs) s1)"
    by (rule reader_solo_log) (use assms in \<open>simp_all add: s1_def wrap_simps\<close>)
  have 3: "run_schedule (qw_tstep W U call) (replicate 2 (i, False)) (goto i (R_len ?bs) s1) =
      Some (goto i (R_done (buff_len (dev s)) ?bs) (set_dev ((dev s)\<lparr>havedata := 0, buff_len := 0\<rparr>) s))"
    using assms by (simp add: numeral_eq_Suc qw_tstep_def wrap_simps s1_def)
  show ?thesis
    unfolding n replicate_add [of 2] replicate_add [of "?n - 0 + 1"] run_schedule_append 1
    by (simp only: bind.bind_lunit 2 3)
qed

lemma writer_alone:
  assumes "pcs s i = W_start" and "user_readable U (ubuf (call i)) bs"
    and "usize (call i) = int (length bs)" and "length bs \<le> 100"
  shows "\<exists>r t. qw_example_write U (ubuf (call i)) (usize (call i)) (dev s) = Inr r \<and>
    run_schedule (qw_tstep W U call) (replicate (3 * length bs + 5) (i, False)) s = Some t \<and>
    dev t = r_dev r \<and> pcs t i = W_done (r_ret r)"
proof -
  have "replicate (3 * length bs + 5) (i, False) = replicate (3 * length bs + 4) (i, False) @ [(i, False)]"
    by (simp add: numeral_eq_Suc flip: replicate_append_same)
  then show ?thesis
    using qw_write_eq [OF assms(2,4)] writer_solo_posted [where call = call, OF assms] assms(3,4)
    by (simp add: run_schedule_append qw_tstep_def wrap_simps)
qed

text \<open>The reader past its loop, on every branch.\<close>

lemma reader_take_alone:
  assumes "pcs s i = R_take"
  shows "\<exists>n t. run_schedule (qw_tstep W U call) (replicate n (i, False)) s = Some t \<and>
    qw_tstep W U call (i, False) t = None \<and>
    (case qw_read_take U (ubuf (call i)) (usize (call i)) (dev s) of
       Inl e \<Rightarrow> pcs t i = Faulted e
     | Inr r \<Rightarrow> pcs t i = R_done (r_ret r) (r_user r) \<and> dev t = r_dev r)"
proof -
  let ?bs = "load (byte (dev s)) 0 (nat (usize (call i)))"
  let ?n = "nat (u64 (buff_len (dev s)))"
  define s1 where "s1 = goto i (R_log 0 ?bs) (set_dev ((dev s)\<lparr>havedata := 0\<rparr>) s)"
  have u: "0 \<le> u64 (buff_len (dev s))" by (simp add: u64_def)
  consider (size) "\<not> in_array 100 0 (usize (call i))"
    | (user) "in_array 100 0 (usize (call i))" "copy_to_user U (ubuf (call i)) ?bs \<noteq> 0"
    | (through) "in_array 100 0 (usize (call i))" "copy_to_user U (ubuf (call i)) ?bs = 0"
    by blast
  then show ?thesis
  proof cases
    case size
    with assms show ?thesis by (intro exI [of _ 2]) (simp add: qw_tstep_def qw_read_take_def numeral_eq_Suc)
  next
    case user
    with assms show ?thesis by (intro exI [of _ 2]) (simp add: qw_tstep_def qw_read_take_def numeral_eq_Suc Let_def)
  next
    case through
    have 1: "run_schedule (qw_tstep W U call) (replicate 2 (i, False)) s = Some s1"
      using assms through by (simp add: numeral_eq_Suc qw_tstep_def s1_def Let_def)
    show ?thesis
    proof (cases "in_array 100 0 (u64 (buff_len (dev s)))")
      case True
      have 2: "run_schedule (qw_tstep W U call) (replicate (?n - 0 + 1) (i, False)) s1 =
          Some (goto i (R_len ?bs) s1)"
        by (rule reader_solo_log) (use True u in \<open>auto simp: s1_def in_array_def nat_le_iff\<close>)
      define t where "t = goto i (R_done (s64 (u64 (buff_len (dev s)))) ?bs)
        (set_dev ((dev s)\<lparr>havedata := 0, buff_len := 0\<rparr>) s)"
      have 3: "run_schedule (qw_tstep W U call) (replicate 2 (i, False)) (goto i (R_len ?bs) s1) = Some t"
        by (simp add: numeral_eq_Suc qw_tstep_def s1_def t_def)
      have "run_schedule (qw_tstep W U call) (replicate (2 + ((?n - 0 + 1) + 2)) (i, False)) s = Some t"
        unfolding replicate_add [of 2] replicate_add [of "?n - 0 + 1"] run_schedule_append 1
        by (simp only: bind.bind_lunit 2 3)
      moreover have "qw_tstep W U call (i, False) t = None" by (simp add: t_def qw_tstep_def)
      ultimately show ?thesis
        using True through by (intro exI conjI) (assumption, assumption, simp add: t_def qw_read_take_def Let_def)
    next
      case False
      have 2: "run_schedule (qw_tstep W U call) (replicate (100 - 0 + 1) (i, False)) s1 =
          Some (goto i (Faulted Oob_read) s1)"
        by (rule reader_solo_overrun) (use False u in \<open>simp_all add: s1_def in_array_def\<close>)
      have "run_schedule (qw_tstep W U call) (replicate (2 + (100 - 0 + 1)) (i, False)) s =
          Some (goto i (Faulted Oob_read) s1)"
        unfolding replicate_add [of 2] run_schedule_append 1 by (simp only: bind.bind_lunit 2)
      moreover have "qw_tstep W U call (i, False) (goto i (Faulted Oob_read) s1) = None"
        by (simp add: qw_tstep_def)
      ultimately show ?thesis
        using False through by (intro exI conjI) (assumption, assumption, simp add: qw_read_take_def Let_def)
    qed
  qed
qed

lemma reader_alone:
  assumes "pcs s i = R_test" and "wait_spec W"
  shows "\<exists>n t. run_schedule (qw_tstep W U call) (replicate n (i, False)) s = Some t \<and>
    qw_tstep W U call (i, False) t = None \<and>
    (case qw_example_read U (nonblock (call i)) [] (ubuf (call i)) (usize (call i)) (dev s) of
       Inl e \<Rightarrow> pcs t i = Faulted e
     | Inr None \<Rightarrow> pcs t i = R_sleep \<and> dev t = dev s
     | Inr (Some r) \<Rightarrow> pcs t i = R_done (r_ret r) (r_user r) \<and> dev t = r_dev r)"
proof (cases "havedata (dev s) = 0")
  case True
  with assms show ?thesis
    by (intro exI [of _ "if nonblock (call i) then 1 else 3"])
      (simp add: qw_tstep_def qw_example_read_def numeral_eq_Suc)
next
  case False
  then have first: "qw_tstep W U call (i, False) s = Some (goto i R_take s)"
    using assms by (simp add: qw_tstep_def)
  obtain n t where "run_schedule (qw_tstep W U call) (replicate n (i, False)) (goto i R_take s) = Some t"
    "qw_tstep W U call (i, False) t = None"
    "case qw_read_take U (ubuf (call i)) (usize (call i)) (dev s) of
       Inl e \<Rightarrow> pcs t i = Faulted e
     | Inr r \<Rightarrow> pcs t i = R_done (r_ret r) (r_user r) \<and> dev t = r_dev r"
    using reader_take_alone [of "goto i R_take s" i W U call] by auto
  with False first show ?thesis
    by (intro exI [of _ "Suc n"] exI [of _ t]) (auto simp: qw_example_read_def split: sum.splits)
qed

section \<open>Properties\<close>

text \<open>A start state for the witnesses: reader 0 and writer 1 of two bytes.\<close>

definition demo_call :: "nat \<Rightarrow> qw_call" where
  "demo_call i = \<lparr>nonblock = False, ubuf = 0, usize = 2\<rparr>"

definition demo_sys :: "nat set qw_sys" where
  "demo_sys = \<lparr>dev = \<lparr>byte = (\<lambda>_. 0), buff_len = 0, havedata = 0\<rparr>, queue_rw = {},
    pcs = (\<lambda>_. Idle)(0 := R_test, 1 := W_start)\<rparr>"

lemma demo_start: "handoff_start (flat_uaccess 0 [7, 8]) demo_call [7, 8] demo_sys"
  by (simp add: handoff_start_def demo_call_def demo_sys_def)

text \<open>
  C3. Handoff: one blocking reader and one writer of \<open>bs\<close> on a device without data, in any
  interleaving of their steps, with any signals and whatever the wait queue does. Both buffers are
  mapped, the write has at most 100 bytes, and the reader asks for at least as many as are written
  and at most 100. When the reader returns, it returns the number of bytes
  written and its buffer begins with exactly those bytes; it never sees a partial write.
  (With a smaller buffer it does not: \<open>qw_read_copies_caller_size\<close>.)
\<close>

theorem qw_handoff:
  assumes "handoff_start U call bs s" and "reaches (qw_tstep W U call) s t"
    and "pcs t 0 = R_done n out"
  shows "n = int (length bs) \<and> take (length bs) out = bs"
proof -
  have "handoff_inv U call bs t"
    using assms(1,2) by (rule handoff.reachable_inv)
  then show ?thesis
    using assms(3) by (cases "pcs t 1") (auto simp: handoff_inv_def waiting_def)
qed

theorem qw_handoff_witness:
  "\<exists>t out. reaches (qw_tstep set_waitq (flat_uaccess 0 [7, 8]) demo_call) demo_sys t \<and>
    pcs t 0 = R_done 2 out \<and> take 2 out = [7, 8]"
proof -
  obtain t where t: "reaches (\<lambda>i. qw_tstep set_waitq (flat_uaccess 0 [7, 8]) demo_call (i, False)) demo_sys t"
      "handoff_finished t"
    using quiet.can_finish [OF handoff_start_live [OF demo_start set_waitq_spec]] by blast
  have r: "reaches (qw_tstep set_waitq (flat_uaccess 0 [7, 8]) demo_call) demo_sys t"
    using t(1) by (induction rule: reaches.induct) (auto intro: reaches.intros)
  obtain n out where d: "pcs t 0 = R_done n out"
    using t(2) by (cases "pcs t 0") (auto simp: handoff_finished_def)
  have "n = 2 \<and> take 2 out = [7, 8]"
    using qw_handoff [OF demo_start r d] by (simp add: numeral_2_eq_2)
  with r d show ?thesis by blast
qed

text \<open>
  C5. No lost wakeup, and termination, for the start of \<open>qw_handoff\<close> and a wait queue that behaves
  as documented, where a sleeper goes on only once \<open>wake_up\<close> has made it runnable: without signals
  every interleaving of the reader and the writer makes at most \<open>4 * length bs + 17\<close> steps, and
  when no step is left both calls have returned. In particular a reader that falls asleep between
  the writer's first step and its \<open>wake_up\<close> is woken, and one that comes later does not sleep.
\<close>

theorem qw_no_lost_wakeup:
  assumes "handoff_start U call bs s" and "wait_spec W"
    and "run_schedule (\<lambda>i. qw_tstep W U call (i, False)) is s = Some t"
  shows "length is \<le> 4 * length bs + 17 \<and>
    ((\<forall>i. qw_tstep W U call (i, False) t = None) \<longrightarrow>
     (\<exists>n out w. pcs t 0 = R_done n out \<and> pcs t 1 = W_done w))"
proof -
  have inv: "handoff_live W U call bs s" "handoff_live W U call bs t"
    using handoff_start_live [OF assms(1,2)] quiet.reaches_inv [OF run_schedule_reaches [OF assms(3)]]
    by simp_all
  have "handoff_work bs s = 4 * length bs + 17"
    using assms(1) by (simp add: handoff_work_def handoff_start_def)
  moreover have "handoff_finished t" if "\<forall>i. qw_tstep W U call (i, False) t = None"
    using quiet.stuck_finished [OF inv(2)] that by blast
  ultimately show ?thesis
    using quiet.schedule_length [OF inv(1) assms(3)]
    by (auto simp: handoff_finished_def elim!: returned.elims written.elims)
qed

text \<open>
  The witness: the reader tests, queues itself and falls asleep; the writer writes two bytes, sets
  \<open>havedata\<close> (the reader sleeps on), wakes the reader and returns; the reader takes the bytes. It is
  the longest schedule there is.
\<close>

definition sleepy_schedule :: "nat list" where
  "sleepy_schedule = replicate 3 0 @ replicate 11 1 @ replicate 11 0"

lemma run_schedule_quiet:
  "run_schedule (\<lambda>i. T (i, False)) is s = run_schedule T (map (\<lambda>i. (i, False)) is) s"
  by (induction "is" arbitrary: s) (auto split: option.splits)

theorem qw_no_lost_wakeup_witness:
  "\<exists>t. run_schedule (\<lambda>i. qw_tstep set_waitq (flat_uaccess 0 [7, 8]) demo_call (i, False)) sleepy_schedule demo_sys =
      Some t \<and> length sleepy_schedule \<le> 4 * 2 + 17 \<and> pcs t 0 = R_done 2 [7, 8] \<and> pcs t 1 = W_done 2"
proof -
  let ?T = "qw_tstep set_waitq (flat_uaccess 0 [7, 8]) demo_call"
  let ?d = "\<lparr>byte = store (\<lambda>_. 0) 0 [7, 8], buff_len = 2, havedata = 1\<rparr>"
  define s1 where "s1 = goto 0 R_sleep (set_queue {0} demo_sys)"
  define s2 where "s2 = goto 1 (W_done 2) (set_dev ?d (set_queue {} s1))"
  define s3 where "s3 = goto 0 R_take s2"
  define t where "t = goto 0 (R_done 2 (load (byte ?d) 0 2)) (set_dev (?d\<lparr>havedata := 0, buff_len := 0\<rparr>) s3)"
  have 1: "run_schedule ?T (replicate 3 (0, False)) demo_sys = Some s1"
    by (simp add: numeral_eq_Suc qw_tstep_def demo_sys_def demo_call_def set_waitq_def s1_def)
  have "run_schedule ?T (replicate 10 (1, False)) s1 = Some (goto 1 W_delay (set_dev ?d (set_queue {} s1)))"
    using writer_solo_posted [of s1 1 "flat_uaccess 0 [7, 8]" demo_call "[7, 8]" set_waitq]
    by (simp add: s1_def demo_sys_def demo_call_def set_waitq_def)
  moreover have "run_schedule ?T [(1, False)] (goto 1 W_delay (set_dev ?d (set_queue {} s1))) = Some s2"
    by (simp add: qw_tstep_def s2_def wrap_simps)
  ultimately have 2: "run_schedule ?T (replicate 10 (1, False) @ [(1, False)]) s1 = Some s2"
    unfolding run_schedule_append by (simp only: bind.bind_lunit)
  have 3: "run_schedule ?T (replicate 4 (0, False)) s2 = Some s3"
    by (simp add: numeral_eq_Suc qw_tstep_def s2_def s1_def s3_def set_waitq_def)
  have 4: "run_schedule ?T (replicate 7 (0, False)) s3 = Some t"
    using reader_solo [of s3 0 "flat_uaccess 0 [7, 8]" demo_call set_waitq]
    by (simp add: s3_def s2_def t_def demo_call_def)
  have m: "map (\<lambda>i. (i, False)) sleepy_schedule = replicate 3 (0, False) @
      (replicate 10 (1, False) @ [(1, False)]) @ replicate 4 (0, False) @ replicate 7 (0, False)"
    by (simp add: sleepy_schedule_def numeral_eq_Suc)
  have t: "run_schedule (\<lambda>i. ?T (i, False)) sleepy_schedule demo_sys = Some t"
    unfolding run_schedule_quiet m run_schedule_append [of _ "replicate 3 _"]
      run_schedule_append [of _ "replicate 10 _ @ _"] run_schedule_append [of _ "replicate 4 _"]
    by (simp only: bind.bind_lunit 1 2 3 4)
  have "pcs t 0 = R_done 2 [7, 8]" "pcs t 1 = W_done 2"
    using load_store_same [of "\<lambda>_. 0" 0 "[7, 8]"]
    by (simp_all add: t_def s3_def s2_def numeral_2_eq_2)
  with t qw_no_lost_wakeup [OF demo_start set_waitq_spec t] show ?thesis by auto
qed

text \<open>
  What a thread alone does is the handler. A reader that runs without interference comes to
  rest where \<open>qw_example_read\<close> says, whatever the device, the size and the user memory are:
  asleep when the handler would wait (and the wait queue behaves as documented), faulted when it faults, and otherwise returned with its
  value, its bytes and its device. A writer of a readable buffer likewise ends as
  \<open>qw_example_write\<close> does.
\<close>

lemma qw_calls_alone_are_handlers:
  shows "(pcs s i = R_test \<and> wait_spec W \<longrightarrow> (\<exists>n t. run_schedule (qw_tstep W U call) (replicate n (i, False)) s = Some t \<and>
      qw_tstep W U call (i, False) t = None \<and>
      (case qw_example_read U (nonblock (call i)) [] (ubuf (call i)) (usize (call i)) (dev s) of
         Inl e \<Rightarrow> pcs t i = Faulted e
       | Inr None \<Rightarrow> pcs t i = R_sleep \<and> dev t = dev s
       | Inr (Some r) \<Rightarrow> pcs t i = R_done (r_ret r) (r_user r) \<and> dev t = r_dev r))) \<and>
    (pcs s i = W_start \<and> user_readable U (ubuf (call i)) bs \<and> usize (call i) = int (length bs) \<and>
      length bs \<le> 100 \<longrightarrow>
      (\<exists>r t. qw_example_write U (ubuf (call i)) (usize (call i)) (dev s) = Inr r \<and>
        run_schedule (qw_tstep W U call) (replicate (3 * length bs + 5) (i, False)) s = Some t \<and>
        dev t = r_dev r \<and> pcs t i = W_done (r_ret r)))"
  using reader_alone [of s i W U call] writer_alone [of s i U call bs W] by blast

text \<open>
  The return value of \<open>example_write\<close> is read after \<open>mdelay(200)\<close>, when a reader that was
  woken may have set \<open>buff_len\<close> to 0: from every start with one waiting reader there is an
  interleaving in which the whole write is delivered and the writer is told 0.
\<close>

lemma qw_writer_told_zero:
  assumes "handoff_start U call bs s"
  shows "\<exists>t out. reaches (qw_tstep W U call) s t \<and> pcs t 0 = R_done (int (length bs)) out \<and>
    take (length bs) out = bs \<and> pcs t 1 = W_done 0"
proof -
  note a = assms [unfolded handoff_start_def]
  let ?d = "(dev s)\<lparr>byte := store (byte (dev s)) 0 bs, buff_len := int (length bs), havedata := 1\<rparr>"
  let ?out = "load (byte ?d) 0 (nat (usize (call 0)))"
  define T where "T = qw_tstep W U call"
  define s1 where "s1 = goto 1 W_delay (set_dev ?d (set_queue (wake_up W (queue_rw s)) s))"
  define s2 where "s2 = goto 0 R_take s1"
  define s3 where
    "s3 = goto 0 (R_done (int (length bs)) ?out) (set_dev (?d\<lparr>havedata := 0, buff_len := 0\<rparr>) s2)"
  have "run_schedule T (replicate (3 * length bs + 4) (1, False)) s = Some s1"
    using writer_solo_posted [of s 1 U call bs W] a by (simp add: T_def s1_def)
  then have 1: "reaches T s s1" by (rule run_schedule_reaches)
  have 2: "T (0, False) s1 = Some s2"
    using a by (simp add: T_def s1_def s2_def qw_tstep_def)
  have "run_schedule T (replicate (length bs + 5) (0, False)) s2 = Some s3"
    using reader_solo [of s2 0 U call W] a by (simp add: T_def s1_def s2_def s3_def)
  then have 3: "reaches T s2 s3" by (rule run_schedule_reaches)
  have 4: "T (1, False) s3 = Some (goto 1 (W_done 0) s3)"
    by (simp add: T_def s1_def s2_def s3_def qw_tstep_def wrap_simps)
  have "reaches T s s2" using 1 2 by (rule reaches.more)
  with 3 have "reaches T s s3" by (rule reaches_trans)
  then have r: "reaches T s (goto 1 (W_done 0) s3)" using 4 by (rule reaches.more)
  have "length bs \<le> nat (usize (call 0))" using a by linarith
  then have "take (length bs) ?out = bs"
    by (simp add: take_load min_def store_simps)
  moreover have "pcs s3 0 = R_done (int (length bs)) ?out" by (simp add: s3_def)
  ultimately show ?thesis
    using r unfolding T_def by (intro exI [of _ "goto 1 (W_done 0) s3"] exI [of _ ?out]) simp
qed

text \<open>
  Testing \<open>havedata\<close> and clearing it are two steps: two readers that both test it before
  either clears it take the same write twice. Both get the bytes, but the second is told 0,
  the end of file, because the first has set \<open>buff_len\<close> to 0.
\<close>

lemma qw_two_readers_take_one_write:
  assumes "pcs s i = R_test" and "pcs s j = R_test" and "i \<noteq> j" and "havedata (dev s) \<noteq> 0"
    and "0 \<le> buff_len (dev s)" and "buff_len (dev s) \<le> 100"
    and "\<forall>k \<in> {i, j}. user_writable U (ubuf (call k)) 100 \<and> usize (call k) = 100"
  shows "\<exists>t out. run_schedule (qw_tstep W U call)
      ([(i, False), (j, False)] @ replicate (nat (buff_len (dev s)) + 5) (i, False) @ replicate 5 (j, False))
      s = Some t \<and>
    pcs t i = R_done (buff_len (dev s)) out \<and> pcs t j = R_done 0 out \<and>
    out = load (byte (dev s)) 0 100"
proof -
  let ?out = "load (byte (dev s)) 0 100"
  define s1 where "s1 = goto j R_take (goto i R_take s)"
  define s2 where "s2 = goto i (R_done (buff_len (dev s)) ?out)
    (set_dev ((dev s)\<lparr>havedata := 0, buff_len := 0\<rparr>) s1)"
  define s3 where "s3 = goto j (R_done 0 ?out) s2"
  have "run_schedule (qw_tstep W U call) [(i, False), (j, False)] s = Some s1"
    using assms by (simp add: qw_tstep_def s1_def)
  moreover have "run_schedule (qw_tstep W U call) (replicate (nat (buff_len (dev s)) + 5) (i, False)) s1 = Some s2"
    using reader_solo [of s1 i U call W] assms by (simp add: s1_def s2_def)
  moreover have "run_schedule (qw_tstep W U call) (replicate 5 (j, False)) s2 = Some s3"
    using reader_solo [of s2 j U call W] assms
    by (simp add: s1_def s2_def s3_def)
  ultimately have "run_schedule (qw_tstep W U call)
      ([(i, False), (j, False)] @ replicate (nat (buff_len (dev s)) + 5) (i, False) @ replicate 5 (j, False))
      s = Some s3"
    unfolding run_schedule_append by simp
  then show ?thesis using assms(3) by (auto simp: s3_def s2_def)
qed

text \<open>
  A signal does not interrupt a blocked reader: the result of
  \<open>wait_event_interruptible\<close> is dropped, so the reader tests \<open>havedata\<close>, still 0, and sleeps
  again. The device and the threads are where they were.
\<close>

lemma qw_signal_has_no_effect:
  assumes "pcs s i = R_sleep" and "havedata (dev s) = 0" and "\<not> nonblock (call i)" and "wait_spec W"
  shows "\<exists>t. run_schedule (qw_tstep W U call)
      [(i, True), (i, True), (i, True), (i, False), (i, False), (i, False)] s = Some t \<and>
    dev t = dev s \<and> pcs t = pcs s \<and> sleeps W (queue_rw t) i"
  using assms by (simp add: qw_tstep_def fun_upd_idem Let_def)

text \<open>
  The copy of a read is as long as the caller's buffer, not as the data. After a write of
  \<open>bs\<close> a read always returns \<open>length bs\<close>: with a larger buffer it also hands out the bytes behind
  \<open>bs\<close> left over from before, with a smaller one it claims more bytes than it delivered and
  the rest is lost, and with more than 100 it copies from outside the array.
\<close>

lemma qw_read_copies_caller_size:
  assumes "user_readable U buf bs" and "length bs \<le> 100" and "0 \<le> sz"
    and "user_writable U rbuf 100" and "qw_example_write U buf (int (length bs)) d = Inr w"
  shows "if 100 < sz then qw_example_read U nb wakes rbuf sz (r_dev w) = Inl Oob_read
    else \<exists>r. qw_example_read U nb wakes rbuf sz (r_dev w) = Inr (Some r) \<and>
      r_ret r = int (length bs) \<and> qw_dev.buff_len (r_dev r) = 0 \<and> havedata (r_dev r) = 0 \<and>
      r_user r = take (nat sz) bs @ load (byte d) (length bs) (nat sz - length bs)"
proof -
  let ?m = "store (byte d) 0 bs"
  let ?d = "d\<lparr>byte := ?m, buff_len := int (length bs), havedata := 1\<rparr>"
  have w: "r_dev w = ?d"
    using qw_write_eq [OF assms(1,2), of d] assms(5) by auto
  have p: "qw_wait_loop nb wakes ?d = Proceed ?d" by (cases wakes) simp_all
  have l: "load ?m 0 (nat sz) = take (nat sz) bs @ load (byte d) (length bs) (nat sz - length bs)"
    by (rule nth_equalityI) (auto simp: store_def nth_append)
  have r: "qw_example_read U nb wakes rbuf sz (r_dev w) =
      (case qw_read_take U rbuf sz ?d of Inl e \<Rightarrow> Inl e | Inr r \<Rightarrow> Inr (Some r))"
    unfolding w qw_example_read_def p by simp
  show ?thesis
  proof (cases "100 < sz")
    case True
    then show ?thesis unfolding r by (simp add: qw_read_take_def in_array_def)
  next
    case False
    then show ?thesis
      using assms(2,3) l qw_take_eq [OF assms(4), of sz ?d] unfolding r by simp
  qed
qed

text \<open>
  Between the test of \<open>buff_len\<close> and the copy another writer may have filled the array: a writer that
  has passed its first test stores at \<open>byte[100]\<close> once a full write has come in between.
\<close>

lemma qw_second_writer_overflows:
  assumes "pcs s i = W_start" and "pcs s j = W_start" and "i \<noteq> j" and "0 < usize (call i)"
    and "user_readable U (ubuf (call j)) bs" and "usize (call j) = int (length bs)" and "length bs = 100"
  shows "\<exists>t. run_schedule (qw_tstep W U call)
      ([(i, False), (i, False)] @ replicate 304 (j, False) @ [(i, False)]) s = Some t \<and>
    pcs t i = Faulted Oob_write"
proof -
  define s1 where "s1 = goto i (W_copy 0) (set_dev ((dev s)\<lparr>buff_len := 0\<rparr>) s)"
  define s2 where "s2 = goto j W_delay (set_dev ((dev s1)\<lparr>byte := store (byte (dev s1)) 0 bs,
    buff_len := 100, havedata := 1\<rparr>) (set_queue (wake_up W (queue_rw s1)) s1))"
  have "run_schedule (qw_tstep W U call) [(i, False), (i, False)] s = Some s1"
    using assms by (simp add: qw_tstep_def s1_def wrap_simps)
  moreover have "run_schedule (qw_tstep W U call) (replicate 304 (j, False)) s1 = Some s2"
    using writer_solo_posted [of s1 j U call bs W] assms by (simp add: s1_def s2_def)
  moreover have "run_schedule (qw_tstep W U call) [(i, False)] s2 = Some (goto i (Faulted Oob_write) s2)"
    using assms(3) by (simp add: qw_tstep_def s1_def s2_def)
  ultimately show ?thesis unfolding run_schedule_append by simp
qed

text \<open>
  The calls of two readers or of two writers are not safe at once. Two readers that both test
  \<open>havedata\<close> before either clears it take the same write, and the second is told 0, the end of
  file. And although each write fits the array, a writer that is between its test and its
  copy while another writes 100 bytes stores outside it.
\<close>

lemma qw_calls_race:
  assumes "i \<noteq> j"
  shows "(pcs s i = R_test \<and> pcs s j = R_test \<and> havedata (dev s) \<noteq> 0 \<and>
      0 \<le> buff_len (dev s) \<and> buff_len (dev s) \<le> 100 \<and>
      (\<forall>k \<in> {i, j}. user_writable U (ubuf (call k)) 100 \<and> usize (call k) = 100) \<longrightarrow>
      (\<exists>is t out. run_schedule (qw_tstep W U call) is s = Some t \<and>
        pcs t i = R_done (buff_len (dev s)) out \<and> pcs t j = R_done 0 out \<and> out = load (byte (dev s)) 0 100)) \<and>
    (pcs s i = W_start \<and> pcs s j = W_start \<and> 0 < usize (call i) \<and> usize (call i) \<le> 100 \<and>
      length bs = 100 \<and> usize (call j) = 100 \<and> user_readable U (ubuf (call j)) bs \<longrightarrow>
      (\<exists>is t. run_schedule (qw_tstep W U call) is s = Some t \<and> pcs t i = Faulted Oob_write))"
proof (intro conjI impI; elim conjE)
  assume "pcs s i = R_test" "pcs s j = R_test" "havedata (dev s) \<noteq> 0" "0 \<le> buff_len (dev s)"
    "buff_len (dev s) \<le> 100" "\<forall>k \<in> {i, j}. user_writable U (ubuf (call k)) 100 \<and> usize (call k) = 100"
  from qw_two_readers_take_one_write [OF this(1,2) assms this(3-)]
  show "\<exists>is t out. run_schedule (qw_tstep W U call) is s = Some t \<and>
      pcs t i = R_done (buff_len (dev s)) out \<and> pcs t j = R_done 0 out \<and> out = load (byte (dev s)) 0 100"
    by blast
next
  assume h: "pcs s i = W_start" "pcs s j = W_start" "0 < usize (call i)" "length bs = 100"
    "usize (call j) = 100" "user_readable U (ubuf (call j)) bs"
  have "usize (call j) = int (length bs)" using h by simp
  from qw_second_writer_overflows [OF h(1,2) assms h(3,6) this h(4)]
  show "\<exists>is t. run_schedule (qw_tstep W U call) is s = Some t \<and> pcs t i = Faulted Oob_write" by blast
qed

end
