(* ===== verification/Queue_Wait_Safety.thy ===== *)
theory Queue_Wait_Safety
  imports Queue_Wait
begin

text \<open>
  The blocking device of \<open>04-queue_wait/queue_wait_dev.c\<close> under any number of calls: the threads below
  \<open>N\<close> begin a call of their own at any time, with one restriction that the driver does not enforce
  but its callers can keep, that no write begins while another is under way. Under it no call ever
  leaves the array (\<open>qw_one_writer_safe\<close>). It does not order a read and the next write:
  \<open>qw_write_meets_reader\<close> is what happens when the two overlap.
\<close>

section \<open>Calls that begin at any time\<close>

fun writing :: "qw_pc \<Rightarrow> bool" where
  "writing W_start = True"
| "writing (W_loop k) = True"
| "writing (W_copy k) = True"
| "writing (W_next k) = True"
| "writing W_flag = True"
| "writing W_wake = True"
| "writing W_delay = True"
| "writing pc = False"

datatype qw_event = Begin nat | Step nat bool

definition qw_begin :: "nat \<Rightarrow> (nat \<Rightarrow> bool) \<Rightarrow> nat \<Rightarrow> 'q qw_sys \<Rightarrow> 'q qw_sys option" where
  "qw_begin N writes i s =
    (if i < N \<and> pcs s i = Idle \<and> (writes i \<longrightarrow> (\<forall>j<N. \<not> writing (pcs s j)))
     then Some (goto i (if writes i then W_start else R_test) s) else None)"

fun qw_sys_step :: "'q wait_ops \<Rightarrow> uaccess \<Rightarrow> (nat \<Rightarrow> qw_call) \<Rightarrow> nat \<Rightarrow> (nat \<Rightarrow> bool) \<Rightarrow> qw_event \<Rightarrow> 'q qw_sys \<Rightarrow>
    'q qw_sys option" where
  "qw_sys_step W U call N writes (Begin i) s = qw_begin N writes i s"
| "qw_sys_step W U call N writes (Step i sg) s = qw_tstep W U call (i, sg) s"

definition qw_idle_start :: "(nat \<Rightarrow> qw_call) \<Rightarrow> nat \<Rightarrow> 'q qw_sys \<Rightarrow> bool" where
  "qw_idle_start call N s \<longleftrightarrow> pcs s = (\<lambda>_. Idle) \<and> 0 \<le> buff_len (dev s) \<and> buff_len (dev s) \<le> 100 \<and>
    (\<forall>i<N. 0 \<le> usize (call i) \<and> usize (call i) \<le> 100)"

section \<open>The invariant\<close>

text \<open>
  \<open>buff_len\<close> stays within the array, and below the size of the one write that advances it. A reader
  only ever sets it to 0.
\<close>

fun pc_within :: "int \<Rightarrow> int \<Rightarrow> qw_pc \<Rightarrow> bool" where
  "pc_within sz bl (W_loop k) = (bl \<le> sz)"
| "pc_within sz bl (W_copy k) = (bl < sz)"
| "pc_within sz bl (W_next k) = (bl < sz)"
| "pc_within sz bl (W_done n) = (0 \<le> n \<and> n \<le> 100)"
| "pc_within sz bl (R_log k out) = (k \<le> 100)"
| "pc_within sz bl (R_clear n out) = (0 \<le> n \<and> n \<le> 100)"
| "pc_within sz bl (R_done n out) =
    (n = - EAGAIN \<and> out = [] \<or> n = - EFAULT \<or> 0 \<le> n \<and> n \<le> 100)"
| "pc_within sz bl (Faulted e) = False"
| "pc_within sz bl pc = True"

definition qw_within :: "(nat \<Rightarrow> qw_call) \<Rightarrow> nat \<Rightarrow> 'q qw_sys \<Rightarrow> bool" where
  "qw_within call N s \<longleftrightarrow> 0 \<le> buff_len (dev s) \<and> buff_len (dev s) \<le> 100 \<and>
    (\<forall>i. N \<le> i \<longrightarrow> pcs s i = Idle) \<and>
    (\<forall>i<N. 0 \<le> usize (call i) \<and> usize (call i) \<le> 100) \<and>
    (\<forall>i j. writing (pcs s i) \<longrightarrow> writing (pcs s j) \<longrightarrow> i = j) \<and>
    (\<forall>i. pc_within (usize (call i)) (buff_len (dev s)) (pcs s i))"

lemma pc_within_less: "pc_within sz bl pc \<Longrightarrow> bl' \<le> bl \<Longrightarrow> pc_within sz bl' pc"
  by (cases pc) auto

lemma pc_within_not_writing: "\<not> writing pc \<Longrightarrow> pc_within sz bl pc = pc_within sz bl' pc"
  by (cases pc) auto

text \<open>
  A step of thread \<open>i\<close> does not make another a writer, and leaves \<open>buff_len\<close> as it is unless \<open>i\<close> is
  writing or clears it.
\<close>

lemma qw_tstep_others:
  assumes "qw_tstep W U call (i, sg) s = Some t" and "0 \<le> buff_len (dev s)"
  shows "(\<forall>j. j \<noteq> i \<longrightarrow> pcs t j = pcs s j) \<and> (writing (pcs t i) \<longrightarrow> writing (pcs s i)) \<and>
    (writing (pcs s i) \<or> buff_len (dev t) \<le> buff_len (dev s))"
  using assms
  by (cases "pcs s i") (auto simp: qw_tstep_def Let_def split: if_splits prod.splits)

lemma qw_tstep_self:
  assumes "qw_tstep W U call (i, sg) s = Some t" and "0 \<le> buff_len (dev s)" and "buff_len (dev s) \<le> 100"
    and "0 \<le> usize (call i)" and "usize (call i) \<le> 100"
    and "pc_within (usize (call i)) (buff_len (dev s)) (pcs s i)"
  shows "0 \<le> buff_len (dev t) \<and> buff_len (dev t) \<le> 100 \<and>
    pc_within (usize (call i)) (buff_len (dev t)) (pcs t i)"
  using assms
  by (cases "pcs s i")
    (auto simp: qw_tstep_def Let_def in_array_def wrap_simps split: if_splits prod.splits)

lemma qw_within_tstep:
  assumes "qw_within call N s" and "qw_tstep W U call (i, sg) s = Some t"
  shows "qw_within call N t"
proof -
  note inv = assms(1) [unfolded qw_within_def]
  have "i < N"
  proof (rule ccontr)
    assume "\<not> i < N"
    then have "pcs s i = Idle" using inv by simp
    with assms(2) show False by (simp add: qw_tstep_def)
  qed
  then have self: "0 \<le> buff_len (dev t) \<and> buff_len (dev t) \<le> 100 \<and>
      pc_within (usize (call i)) (buff_len (dev t)) (pcs t i)"
    using qw_tstep_self [OF assms(2)] inv by blast
  have others: "\<forall>j. j \<noteq> i \<longrightarrow> pcs t j = pcs s j" "writing (pcs t i) \<longrightarrow> writing (pcs s i)"
    "writing (pcs s i) \<or> buff_len (dev t) \<le> buff_len (dev s)"
    using qw_tstep_others [OF assms(2)] inv by blast+
  have within: "pc_within (usize (call j)) (buff_len (dev t)) (pcs t j)" for j
  proof (cases "j = i")
    case True
    then show ?thesis using self by simp
  next
    case False
    then have same: "pcs t j = pcs s j" using others(1) by simp
    have j: "pc_within (usize (call j)) (buff_len (dev s)) (pcs s j)" using inv by blast
    show ?thesis
    proof (cases "writing (pcs s i)")
      case True
      then have "\<not> writing (pcs s j)" using inv False by blast
      then show ?thesis unfolding same using j pc_within_not_writing by blast
    next
      case notw: False
      then have "buff_len (dev t) \<le> buff_len (dev s)" using others(3) by blast
      then show ?thesis unfolding same by (rule pc_within_less [OF j])
    qed
  qed
  have w: "writing (pcs t j) \<longrightarrow> writing (pcs s j)" for j
    using others(1,2) by (cases "j = i") auto
  have idle: "\<forall>j. N \<le> j \<longrightarrow> pcs t j = Idle"
  proof (intro allI impI)
    fix j assume "N \<le> j"
    then show "pcs t j = Idle" using others(1) inv \<open>i < N\<close> by (cases "j = i") auto
  qed
  have one: "\<forall>j k. writing (pcs t j) \<longrightarrow> writing (pcs t k) \<longrightarrow> j = k"
    using w inv by blast
  have inv': "\<forall>j<N. 0 \<le> usize (call j) \<and> usize (call j) \<le> 100" using inv by simp
  show ?thesis unfolding qw_within_def
    by (intro conjI) (use self idle one within inv' in simp_all)
qed

lemma qw_within_begin:
  assumes "qw_within call N s" and "qw_begin N writes i s = Some t"
  shows "qw_within call N t"
proof -
  note inv = assms(1) [unfolded qw_within_def]
  have i: "i < N" "pcs s i = Idle" "writes i \<longrightarrow> (\<forall>j<N. \<not> writing (pcs s j))"
    and t: "t = goto i (if writes i then W_start else R_test) s"
    using assms(2) by (auto simp: qw_begin_def split: if_splits)
  have none: "\<not> writing (pcs s j)" if "writes i" for j
    using i(3) that inv by (cases "j < N") auto
  have w: "writing (pcs t j) \<Longrightarrow> j \<noteq> i \<Longrightarrow> writing (pcs s j) \<and> \<not> writes i" for j
    using none by (auto simp: t)
  have wi: "writing (pcs t i) \<Longrightarrow> writes i"
    by (simp add: t split: if_splits)
  have one: "j = k" if "writing (pcs t j)" "writing (pcs t k)" for j k
    using w [of j] w [of k] wi that inv by metis
  have d: "dev t = dev s" by (simp add: t)
  have idle: "\<forall>j. N \<le> j \<longrightarrow> pcs t j = Idle" using inv i(1) by (simp add: t)
  have within: "pc_within (usize (call j)) (buff_len (dev t)) (pcs t j)" for j
    using inv by (simp add: t)
  have rest: "0 \<le> buff_len (dev s)" "buff_len (dev s) \<le> 100"
    "\<forall>j<N. 0 \<le> usize (call j) \<and> usize (call j) \<le> 100"
    using inv by simp_all
  show ?thesis unfolding qw_within_def d
    by (intro conjI allI impI) (use rest idle one within [unfolded d] in auto)
qed

lemma qw_within_step: "qw_within call N s \<Longrightarrow> qw_sys_step W U call N writes e s = Some t \<Longrightarrow> qw_within call N t"
  by (cases e) (auto intro: qw_within_tstep qw_within_begin)

lemma qw_within_start: "qw_idle_start call N s \<Longrightarrow> qw_within call N s"
  by (simp add: qw_within_def qw_idle_start_def)

interpretation qws: threaded_system "qw_sys_step W U call N writes" "qw_idle_start call N" "qw_within call N"
    for W U call N writes
  by unfold_locales (auto intro: qw_within_start qw_within_step)

text \<open>What a call may come to: still under way, or returned with one of the values it should.\<close>

fun call_ok :: "qw_pc \<Rightarrow> bool" where
  "call_ok (Faulted e) = False"
| "call_ok (W_done n) = (0 \<le> n \<and> n \<le> 100)"
| "call_ok (R_done n out) = (n = - EAGAIN \<and> out = [] \<or> n = - EFAULT \<or> 0 \<le> n \<and> n \<le> 100)"
| "call_ok pc = True"

lemma pc_within_call_ok: "pc_within sz bl pc \<Longrightarrow> call_ok pc"
  by (cases pc) auto

section \<open>A write that meets a reader of the write before\<close>

text \<open>
  A stretch of the writer's loop, when \<open>buff_len\<close> is behind the writer's own place in its buffer.
\<close>

lemma writer_part:
  assumes "pcs s i = W_loop k" and "user_readable U (ubuf (call i)) bs"
    and "usize (call i) = int (length bs)" and "length bs \<le> 100"
    and "k + m \<le> length bs" and "buff_len (dev s) = int b" and "b \<le> k"
  shows "run_schedule (qw_tstep W U call) (replicate (3 * m) (i, False)) s =
    Some (goto i (W_loop (k + m)) (set_dev ((dev s)\<lparr>byte := store (byte (dev s)) b (take m (drop k bs)),
      buff_len := int (b + m)\<rparr>) s))"
  using assms
proof (induction m arbitrary: k b s)
  case 0
  then show ?case by (simp add: goto_def set_dev_def fun_upd_idem)
next
  case (Suc m)
  let ?d = "(dev s)\<lparr>byte := store (byte (dev s)) b [bs ! k], buff_len := int (Suc b)\<rparr>"
  let ?s = "goto i (W_loop (Suc k)) (set_dev ?d s)"
  have k: "k < length bs" using Suc by simp
  have steps: "run_schedule (qw_tstep W U call) (replicate 3 (i, False)) s = Some ?s"
    using Suc.prems k user_readable_nth [OF Suc.prems(2) k]
    by (simp add: numeral_3_eq_3 qw_tstep_def wrap_simps Let_def)
  have n: "3 * Suc m = 3 + 3 * m" by simp
  have st: "store (store (byte (dev s)) b [bs ! k]) (Suc b) (take m (drop (Suc k) bs)) =
      store (byte (dev s)) b (take (Suc m) (drop k bs))"
    using store_Cons [of "byte (dev s)" b "bs ! k" "take m (drop (Suc k) bs)"] k
    by (simp flip: Cons_nth_drop_Suc)
  have "run_schedule (qw_tstep W U call) (replicate (3 * m) (i, False)) ?s =
      Some (goto i (W_loop (Suc k + m)) (set_dev ((dev ?s)\<lparr>byte := store (byte (dev ?s)) (Suc b)
        (take m (drop (Suc k) bs)), buff_len := int (Suc b + m)\<rparr>) ?s))"
    by (rule Suc.IH) (use Suc.prems k in auto)
  with st show ?case
    unfolding n replicate_add run_schedule_append steps by simp
qed

section \<open>Properties\<close>

text \<open>
  C6. With writes that do not overlap the driver is memory safe for any number of readers and writers,
  calls beginning at any time, any signals, any wait queue and any user memory, as long as no call asks for more than
  100 bytes: in every interleaving \<open>buff_len\<close> stays between 0 and 100, no call faults, a write
  returns 0 to 100, and a read returns \<open>-EAGAIN\<close> with nothing delivered, \<open>-EFAULT\<close>, or 0 to 100.
\<close>

theorem qw_one_writer_safe:
  assumes "qw_idle_start call N s" and "reaches (qw_sys_step W U call N writes) s t"
  shows "0 \<le> buff_len (dev t) \<and> buff_len (dev t) \<le> 100 \<and> (\<forall>i. call_ok (pcs t i))"
  using qws.reachable_inv [OF assms] by (auto simp: qw_within_def intro: pc_within_call_ok)

text \<open>The witnesses' calls: thread 0 reads into 100 bytes, thread 1 writes two.\<close>

definition two_calls :: "nat \<Rightarrow> qw_call" where
  "two_calls i = \<lparr>nonblock = False, ubuf = 0, usize = (if i = 1 then 2 else 100)\<rparr>"

definition empty_qw :: "(nat \<Rightarrow> qw_pc) \<Rightarrow> nat set qw_sys" where
  "empty_qw ps = \<lparr>dev = \<lparr>byte = (\<lambda>_. 0), buff_len = 0, havedata = 0\<rparr>, queue_rw = {}, pcs = ps\<rparr>"

theorem qw_one_writer_safe_witness:
  "\<exists>t. run_schedule (qw_sys_step set_waitq (flat_uaccess 0 [7, 8]) two_calls 2 (\<lambda>i. i = 1))
      [Begin 0, Begin 1, Step 1 False, Step 1 False, Step 1 False] (empty_qw (\<lambda>_. Idle)) = Some t \<and>
    buff_len (dev t) \<le> 100 \<and> (\<forall>i. call_ok (pcs t i))"
proof -
  have s: "qw_idle_start two_calls 2 (empty_qw (\<lambda>_. Idle))"
    by (simp add: qw_idle_start_def empty_qw_def two_calls_def)
  obtain t where t: "run_schedule (qw_sys_step set_waitq (flat_uaccess 0 [7, 8]) two_calls 2 (\<lambda>i. i = 1))
      [Begin 0, Begin 1, Step 1 False, Step 1 False, Step 1 False] (empty_qw (\<lambda>_. Idle)) = Some t"
    using user_readable_nth [OF flat_readable [of 0 "[7, 8]"], of 0]
    by (simp add: qw_begin_def qw_tstep_def empty_qw_def two_calls_def less_2_cases_iff wrap_simps Let_def)
  with qw_one_writer_safe [OF s run_schedule_reaches [OF t]] show ?thesis by blast
qed

text \<open>
  C35. A write that begins while a reader of the write before stands between its test of \<open>havedata\<close> and
  its copy spoils both calls: after \<open>p\<close> of its bytes the reader copies, is told \<open>p\<close>, and has
  the new write's beginning followed by what the old one left; and because it then sets
  \<open>buff_len\<close> to 0, the writer goes on and asks for the byte behind the end of its caller's buffer.
\<close>

theorem qw_write_meets_reader:
  assumes "pcs s i = W_start" and "pcs s j = R_take" and "i \<noteq> j"
    and "user_readable U (ubuf (call i)) bs" and "usize (call i) = int (length bs)" and "length bs \<le> 100"
    and "0 < p" and "p \<le> length bs" and "usize (call j) = 100" and "user_writable U (ubuf (call j)) 100"
  shows "\<exists>is t. run_schedule (qw_tstep W U call) is s = Some t \<and>
    pcs t j = R_done (int p) (take p bs @ load (byte (dev s)) p (100 - p)) \<and> pcs t i = W_copy (length bs)"
proof -
  let ?m = "store (byte (dev s)) 0 (take p bs)"
  let ?out = "load ?m 0 100"
  define s0 where "s0 = goto i (W_loop 0) (set_dev ((dev s)\<lparr>buff_len := 0\<rparr>) s)"
  define s1 where "s1 = goto i (W_loop p) (set_dev ((dev s)\<lparr>byte := ?m, buff_len := int p\<rparr>) s)"
  define s2 where "s2 = goto j (R_done (int p) ?out)
    (set_dev ((dev s1)\<lparr>havedata := 0, buff_len := 0\<rparr>) s1)"
  define s3 where "s3 = goto i (W_loop (length bs)) (set_dev ((dev s2)\<lparr>byte := store ?m 0 (drop p bs),
    buff_len := int (length bs - p)\<rparr>) s2)"
  have 0: "run_schedule (qw_tstep W U call) [(i, False)] s = Some s0"
    using assms(1) by (simp add: qw_tstep_def s0_def)
  have 1: "run_schedule (qw_tstep W U call) (replicate (3 * p) (i, False)) s0 = Some s1"
    using writer_part [of s0 i 0 U call bs p 0 W] assms by (simp add: s0_def s1_def)
  have 2: "run_schedule (qw_tstep W U call) (replicate (p + 5) (j, False)) s1 = Some s2"
    using reader_solo [of s1 j U call W] assms by (simp add: s1_def s2_def)
  have 3: "run_schedule (qw_tstep W U call) (replicate (3 * (length bs - p)) (i, False)) s2 = Some s3"
    using writer_part [of s2 i p U call bs "length bs - p" 0 W] assms by (simp add: s1_def s2_def s3_def)
  have 4: "run_schedule (qw_tstep W U call) [(i, False)] s3 = Some (goto i (W_copy (length bs)) s3)"
    using assms by (simp add: s3_def qw_tstep_def wrap_simps)
  have "run_schedule (qw_tstep W U call) ([(i, False)] @ replicate (3 * p) (i, False) @
      replicate (p + 5) (j, False) @ replicate (3 * (length bs - p)) (i, False) @ [(i, False)]) s =
      Some (goto i (W_copy (length bs)) s3)"
    unfolding run_schedule_append 0 by (simp add: 1 2 3 4 del: run_schedule.simps)
  moreover have "?out = take p bs @ load (byte (dev s)) p (100 - p)"
    using load_append [of ?m 0 p "100 - p"] load_store_same [of "byte (dev s)" 0 "take p bs"] assms(6,8)
    by (simp add: load_store_disjoint min_absorb2)
  ultimately show ?thesis
    using assms(3) by (intro exI [of _ "[(i, False)] @ replicate (3 * p) (i, False) @
      replicate (p + 5) (j, False) @ replicate (3 * (length bs - p)) (i, False) @ [(i, False)]"]
      exI [of _ "goto i (W_copy (length bs)) s3"]) (simp add: s3_def s2_def)
qed

text \<open>Sixes of an earlier write are in the array, the writer of 7 and 8 is between its bytes when the reader copies.\<close>

theorem qw_write_meets_reader_witness:
  "\<exists>is t. run_schedule (qw_tstep set_waitq (flat_uaccess 0 [7, 8]) two_calls) is
      \<lparr>dev = \<lparr>byte = (\<lambda>_. 6), buff_len = 100, havedata = 1\<rparr>, queue_rw = {},
       pcs = (\<lambda>_. Idle)(0 := R_take, 1 := W_start)\<rparr> = Some t \<and>
    pcs t 0 = R_done 1 (7 # load (\<lambda>_. 6) 1 99) \<and> pcs t 1 = W_copy 2"
  using qw_write_meets_reader [of "\<lparr>dev = \<lparr>byte = (\<lambda>_. 6), buff_len = 100, havedata = 1\<rparr>, queue_rw = {},
      pcs = (\<lambda>_. Idle)(0 := R_take, 1 := W_start)\<rparr>" 1 0 "flat_uaccess 0 [7, 8]" two_calls "[7, 8]" 1 set_waitq]
    flat_readable [of 0 "[7, 8]"]
  by (simp add: two_calls_def numeral_2_eq_2)

end
