(* ===== verification/Queue_Wait_Programs.thy ===== *)
theory Queue_Wait_Programs
  imports Queue_Wait
begin

text \<open>
  The test programs \<open>write.c\<close> and \<open>read.c\<close> of \<open>04-queue_wait\<close> as processes on the blocking device.
  Each opens the device without \<open>O_NONBLOCK\<close>, makes one call for five bytes and prints its array.
  The calls run as the threads of Queue_Wait, so the programs can be started in any
  order: what they print is shown for every interleaving of the two calls.
\<close>

datatype qw_app_line = Device_open_failure | The_globalvar_is "byte list" | The_variable_is "byte list"

definition write_num :: "byte list" where
  "write_num = [0x31, 0x32, 0x33, 0x34, 0, 0, 0, 0, 0, 0]"

text \<open>
  Up to the call: \<open>fd\<close> is what \<open>open\<close> returned and \<open>a\<close> is where the array lies; the result is the
  line printed instead or the call that is made.
\<close>

definition write_c :: "int \<Rightarrow> int \<Rightarrow> qw_app_line + qw_call" where
  "write_c fd a =
    (if fd \<noteq> -1 then Inr \<lparr>nonblock = False, ubuf = a, usize = 5\<rparr> else Inl Device_open_failure)"

definition read_c :: "int \<Rightarrow> int \<Rightarrow> qw_app_line + qw_call" where
  "read_c fd a =
    (if fd \<noteq> -1 then Inr \<lparr>nonblock = False, ubuf = a, usize = 5\<rparr> else Inl Device_open_failure)"

text \<open>
  After the call: neither program looks at what it returned. \<open>num0\<close> is what the stack held under
  the reader's array, \<open>out\<close> what the device put there.
\<close>

definition write_c_prints :: "fault + qw_app_line" where
  "write_c_prints =
    (case c_string 10 (store (\<lambda>_. 0) 0 write_num) 0 of
       Inl e \<Rightarrow> Inl e | Inr str \<Rightarrow> Inr (The_globalvar_is str))"

definition read_c_prints :: "kmem \<Rightarrow> byte list \<Rightarrow> fault + qw_app_line" where
  "read_c_prints num0 out =
    (case c_string 10 (store num0 0 out) 0 of
       Inl e \<Rightarrow> Inl e | Inr str \<Rightarrow> Inr (The_variable_is str))"

text \<open>Both programs started on a device without data; the reader is thread 0.\<close>

definition both_calls :: "qw_call \<Rightarrow> qw_call \<Rightarrow> nat \<Rightarrow> qw_call" where
  "both_calls rc wc i = (if i = 0 then rc else wc)"

definition both_started :: "qw_dev \<Rightarrow> 'q \<Rightarrow> 'q qw_sys" where
  "both_started d q = \<lparr>dev = d, queue_rw = q, pcs = (\<lambda>_. Idle)(0 := R_test, 1 := W_start)\<rparr>"

lemma write_c_prints_num: "write_c_prints = Inr (The_globalvar_is [0x31, 0x32, 0x33, 0x34])"
proof -
  have "c_string 10 (store (\<lambda>_. 0) 0 write_num) 0 = Inr [0x31, 0x32, 0x33, 0x34]"
    by (rule c_string_prefix) (simp_all add: store_def load_def write_num_def upt_rec nth_Cons')
  then show ?thesis by (simp add: write_c_prints_def)
qed

lemma take5_num: "take 5 write_num = [0x31, 0x32, 0x33, 0x34, 0]"
  by (simp add: write_num_def)

lemma read_c_prints_num:
  assumes "take 5 out = take 5 write_num"
  shows "read_c_prints num0 out = Inr (The_variable_is [0x31, 0x32, 0x33, 0x34])"
proof -
  have "out = take 5 write_num @ drop 5 out" using assms by (metis append_take_drop_id)
  then obtain rest where out: "out = [0x31, 0x32, 0x33, 0x34, 0] @ rest" unfolding take5_num by blast
  have "c_string 10 (store num0 0 out) 0 = Inr [0x31, 0x32, 0x33, 0x34]"
    unfolding out by (rule c_string_prefix) (simp_all add: store_def load_def upt_rec nth_Cons')
  then show ?thesis by (simp add: read_c_prints_def)
qed

lemma both_started_handoff:
  assumes "write_c wfd b = Inr wc" and "read_c rfd a = Inr rc"
    and "user_readable U b (take 5 write_num)" and "user_writable U a 100" and "havedata d = 0"
  shows "handoff_start U (both_calls rc wc) (take 5 write_num) (both_started d q)"
  using assms
  by (auto simp: handoff_start_def both_calls_def both_started_def write_c_def read_c_def write_num_def
    split: if_splits)

text \<open>
  C7. The test programs of the blocking device understand each other, in whatever order they
  start and however their calls are interleaved, signals included, on a device without data, with
  their arrays mapped and a wait queue that behaves as documented: when neither can move
  (a sleeper that nothing has woken cannot),
  both calls have returned, \<open>read.c\<close> prints "1234" whatever its uninitialised array held, and
  \<open>write.c\<close> prints the same.
\<close>

theorem qw_programs_meet:
  assumes "write_c wfd b = Inr wc" and "read_c rfd a = Inr rc"
    and "user_readable U b (take 5 write_num)" and "user_writable U a 100" and "havedata d = 0"
    and "wait_spec W" and "reaches (qw_tstep W U (both_calls rc wc)) (both_started d q) t"
    and "\<forall>i. qw_tstep W U (both_calls rc wc) (i, False) t = None"
  shows "\<exists>out w. pcs t 0 = R_done 5 out \<and> pcs t 1 = W_done w \<and>
    read_c_prints num0 out = Inr (The_variable_is [0x31, 0x32, 0x33, 0x34]) \<and>
    write_c_prints = Inr (The_globalvar_is [0x31, 0x32, 0x33, 0x34])"
proof -
  have live: "handoff_live W U (both_calls rc wc) (take 5 write_num) t"
    by (rule signalled.reachable_inv [OF _ assms(7)])
      (simp add: both_started_handoff [OF assms(1-5)] assms(6))
  then have inv: "handoff_inv U (both_calls rc wc) (take 5 write_num) t" by (simp add: handoff_live_def)
  have "handoff_finished t" using quiet.stuck_finished [OF live] assms(8) by blast
  then obtain n out w where t: "pcs t 0 = R_done n out" "pcs t 1 = W_done w"
    by (auto simp: handoff_finished_def elim!: returned.elims written.elims)
  have "length (take 5 write_num) = 5" by (simp add: write_num_def)
  with inv t have "n = 5" "take 5 out = take 5 write_num"
    by (auto simp: handoff_inv_def simp del: length_take)
  with t read_c_prints_num [of out num0] write_c_prints_num show ?thesis by blast
qed

theorem qw_programs_meet_witness:
  "\<exists>t out. reaches (qw_tstep set_waitq (flat_uaccess 0 (take 5 write_num)) (\<lambda>_. \<lparr>nonblock = False, ubuf = 0, usize = 5\<rparr>))
      (both_started \<lparr>byte = (\<lambda>_. 9), buff_len = 0, havedata = 0\<rparr> {}) t \<and>
    pcs t 0 = R_done 5 out \<and> read_c_prints (\<lambda>_. 9) out = Inr (The_variable_is [0x31, 0x32, 0x33, 0x34])"
proof -
  let ?c = "\<lparr>nonblock = False, ubuf = 0, usize = 5\<rparr>" and ?U = "flat_uaccess 0 (take 5 write_num)"
  let ?d = "\<lparr>byte = (\<lambda>_. 9), buff_len = 0, havedata = 0\<rparr>" and ?W = "set_waitq"
  have c: "write_c 3 0 = Inr ?c" "read_c 3 0 = Inr ?c" "both_calls ?c ?c = (\<lambda>_. ?c)"
    by (auto simp: write_c_def read_c_def both_calls_def)
  have st: "handoff_start ?U (both_calls ?c ?c) (take 5 write_num) (both_started ?d {})"
    by (rule both_started_handoff [OF c(1,2)]) simp_all
  then obtain t where t: "reaches (\<lambda>i. qw_tstep ?W ?U (both_calls ?c ?c) (i, False)) (both_started ?d {}) t"
      "handoff_finished t"
    using quiet.can_finish [OF handoff_start_live [OF _ set_waitq_spec]] by blast
  have r: "reaches (qw_tstep ?W ?U (both_calls ?c ?c)) (both_started ?d {}) t"
    using t(1) by (induction rule: reaches.induct) (auto intro: reaches.intros)
  have inv: "handoff_inv ?U (both_calls ?c ?c) (take 5 write_num) t"
    by (rule handoff.reachable_inv [OF st r])
  have "qw_tstep ?W ?U (both_calls ?c ?c) (i, False) t = None" for i
    using t(2) inv by (cases "i = 0"; cases "i = 1")
      (auto simp: handoff_finished_def handoff_inv_def qw_tstep_def elim!: returned.elims written.elims)
  with qw_programs_meet [OF c(1,2) _ _ _ set_waitq_spec r, of "\<lambda>_. 9"] r c(3) show ?thesis by auto
qed

end
