(* ===== verification/Share_Mem.thy ===== *)
theory Share_Mem
  imports Storage_Interface
begin

text \<open>
  The share-memory driver of \<open>03-fileOperate/mutex/{useMutex,unuseMutex}/mutex_drv.c\<close> run by
  one thread at a time (the two files differ only in the calls on \<open>share_mutex\<close>: \<open>mutex_read\<close> and
  \<open>mutex_write\<close> are the handlers without them, \<open>Share_Mem_Locks\<close> and \<open>Share_Mem_Threads\<close> add
  them), and the thread function of its test program \<open>app.c\<close>. The
  driver is a file of 128 bytes with a seek position; \<open>sh_rd\<close> and \<open>sh_wr\<close> show it as a
  \<open>byte_store\<close>.
\<close>

section \<open>State and handlers\<close>

record sh_dev =
  mem :: kmem
  writecount :: int

record 'd seek_reply = "'d reply" +
  r_loff :: int

definition MEM_SIZE :: int where
  "MEM_SIZE = 128"

definition mutex_open :: "sh_dev \<Rightarrow> sh_dev \<times> int" where
  "mutex_open d = (d, 0)"

definition mutex_release :: "sh_dev \<Rightarrow> sh_dev \<times> int" where
  "mutex_release d = (d, 0)"

text \<open>
  The guard \<open>_read\<close> and \<open>_write\<close> share: \<open>p\<close> is \<open>*loff\<close> as an \<open>unsigned long\<close>, \<open>count\<close> the
  size as an \<open>unsigned int\<close>, cut to what is left of the array. \<open>None\<close> is the early return 0.
\<close>

definition sh_clip :: "int \<Rightarrow> int \<Rightarrow> (nat \<times> nat) option" where
  "sh_clip loff cnt =
    (let p = u64 loff; count = u32 cnt
     in if MEM_SIZE \<le> p then None
        else Some (nat p, nat (if MEM_SIZE - p < count then MEM_SIZE - p else count)))"

definition mutex_read :: "uaccess \<Rightarrow> int \<Rightarrow> int \<Rightarrow> int \<Rightarrow> sh_dev \<Rightarrow> fault + sh_dev seek_reply" where
  "mutex_read U buff cnt loff d =
    (case sh_clip loff cnt of
       None \<Rightarrow> Inr \<lparr>r_dev = d, r_ret = 0, r_user = [], r_log = [], r_loff = loff\<rparr>
     | Some (p, count) \<Rightarrow>
         (if MEM_SIZE < int (p + count) then Inl Oob_read
          else
            let bs = load (mem d) p count; left = copy_to_user U buff bs
            in if left \<noteq> 0
               then Inr \<lparr>r_dev = d, r_ret = - EFAULT, r_user = copied bs left, r_log = [], r_loff = loff\<rparr>
               else Inr \<lparr>r_dev = d, r_ret = int count, r_user = bs, r_log = [],
                         r_loff = s64 (loff + int count)\<rparr>))"

text \<open>
  The copy loop of \<open>_write\<close>; a byte that cannot be copied sets \<open>ret\<close> and the loop goes on.
\<close>

fun sh_write_loop :: "uaccess \<Rightarrow> int \<Rightarrow> nat \<Rightarrow> nat \<Rightarrow> kmem \<Rightarrow> int \<Rightarrow> fault + kmem \<times> int" where
  "sh_write_loop U buff a 0 m ret = Inr (m, ret)"
| "sh_write_loop U buff a (Suc n) m ret =
    (if MEM_SIZE \<le> int a then Inl Oob_write
     else
       let (bs, left) = copy_from_user U buff 1
       in sh_write_loop U (buff + 1) (Suc a) n (store m a bs) (if left \<noteq> 0 then - EFAULT else ret))"

text \<open>
  \<open>writecount % 2 == 1\<close> chooses between two loops that differ in the log text and the delay;
  which one ran is the first component of the result. After the loop \<open>ret\<close> is overwritten.
\<close>

definition mutex_write ::
    "uaccess \<Rightarrow> int \<Rightarrow> int \<Rightarrow> int \<Rightarrow> sh_dev \<Rightarrow> nat option \<times> (fault + sh_dev seek_reply)" where
  "mutex_write U buff cnt loff d =
    (let d1 = d\<lparr>writecount := s32 (writecount d + 1)\<rparr>;
         odd_count = (0 \<le> writecount d1 \<and> writecount d1 mod 2 = 1)
     in case sh_clip loff cnt of
          None \<Rightarrow> (None, Inr \<lparr>r_dev = d1, r_ret = 0, r_user = [], r_log = [], r_loff = loff\<rparr>)
        | Some (p, count) \<Rightarrow>
            (Some (if odd_count then 0 else 1),
             case sh_write_loop U buff p count (mem d1) 0 of
               Inl e \<Rightarrow> Inl e
             | Inr (m, ret) \<Rightarrow>
                 Inr \<lparr>r_dev = d1\<lparr>mem := m\<rparr>, r_ret = int count, r_user = [], r_log = [],
                      r_loff = s64 (loff + int count)\<rparr>))"

text \<open>\<open>_llseek\<close>: the new position of the file and the return value.\<close>

definition mutex_llseek :: "int \<Rightarrow> int \<Rightarrow> int \<Rightarrow> int \<times> int" where
  "mutex_llseek f_pos offset whence =
    (if whence \<noteq> 0 \<and> whence \<noteq> 1 \<and> whence \<noteq> 2 then (f_pos, - EINVAL)
     else
       let new_pos = (if whence = 0 then offset
                      else if whence = 1 then s64 (f_pos + offset)
                      else s64 (MEM_SIZE - 1 + offset))
       in if new_pos < 0 \<or> MEM_SIZE < new_pos then (f_pos, - EINVAL) else (new_pos, new_pos))"

section \<open>The guard and the loop\<close>

lemma sh_clip_bounds: "sh_clip loff cnt = Some (p, n) \<Longrightarrow> p < 128 \<and> p + n \<le> 128"
  using u64_range [of loff] u32_range [of cnt]
  by (auto simp: sh_clip_def MEM_SIZE_def Let_def split: if_splits)

lemma sh_clip_inside:
  "a + n \<le> 128 \<Longrightarrow> a < 128 \<Longrightarrow> sh_clip (int a) (int n) = Some (a, n)"
  by (auto simp: sh_clip_def MEM_SIZE_def wrap_simps Let_def)

lemma sh_clip_end: "sh_clip 128 cnt = None"
  by (simp add: sh_clip_def MEM_SIZE_def wrap_simps)

lemma sh_write_loop_in_bounds:
  "a + n \<le> 128 \<Longrightarrow> \<exists>m' ret'. sh_write_loop U buff a n m ret = Inr (m', ret')"
  by (induction n arbitrary: a buff m ret) (auto simp: MEM_SIZE_def split: prod.split)

lemma sh_write_loop_readable:
  assumes "user_readable U buff bs" and "a + length bs \<le> 128"
  shows "sh_write_loop U buff a (length bs) m ret = Inr (store m a bs, ret)"
  using assms
proof (induction bs arbitrary: a buff m)
  case Nil
  then show ?case by simp
next
  case (Cons b bs)
  have "sh_write_loop U (buff + 1) (Suc a) (length bs) (store m a [b]) ret =
      Inr (store (store m a [b]) (Suc a) bs, ret)"
    by (rule Cons.IH) (use Cons.prems in \<open>auto intro: user_readable_tl\<close>)
  then show ?case
    using Cons.prems store_Cons [of m a b bs]
    by (simp add: MEM_SIZE_def user_readable_byte)
qed

lemma sh_write_loop_stays_fault:
  "\<forall>a k. snd (copy_from_user U a k) \<noteq> 0 \<Longrightarrow> a + n \<le> 128 \<Longrightarrow>
    \<exists>m'. sh_write_loop U buff a n m (- EFAULT) = Inr (m', - EFAULT)"
  by (induction n arbitrary: a buff m) (auto simp: MEM_SIZE_def case_prod_beta)

lemma sh_write_loop_all_fault:
  "\<forall>a k. snd (copy_from_user U a k) \<noteq> 0 \<Longrightarrow> a + n \<le> 128 \<Longrightarrow> 0 < n \<Longrightarrow>
    \<exists>m'. sh_write_loop U buff a n m ret = Inr (m', - EFAULT)"
  by (cases n) (simp_all add: MEM_SIZE_def case_prod_beta sh_write_loop_stays_fault)

lemma user_readable_take: "user_readable U a bs \<Longrightarrow> user_readable U a (take k bs)"
  by (auto simp: user_readable_def drop_take min_def)

lemma mutex_read_eq:
  assumes "sh_clip loff cnt = Some (p, n)" and "user_writable U buff 128"
  shows "mutex_read U buff cnt loff d =
    Inr \<lparr>r_dev = d, r_ret = int n, r_user = load (mem d) p n, r_log = [], r_loff = s64 (loff + int n)\<rparr>"
  using assms sh_clip_bounds [OF assms(1)] user_writableD [OF assms(2), of "load (mem d) p n"]
  by (simp add: mutex_read_def MEM_SIZE_def)

lemma mutex_write_eq:
  assumes "sh_clip loff cnt = Some (p, n)" and "user_readable U buff bs" and "n \<le> length bs"
  shows "snd (mutex_write U buff cnt loff d) =
    Inr \<lparr>r_dev = d\<lparr>writecount := s32 (writecount d + 1), mem := store (mem d) p (take n bs)\<rparr>,
         r_ret = int n, r_user = [], r_log = [], r_loff = s64 (loff + int n)\<rparr>"
proof -
  have "sh_write_loop U buff p n (mem d) 0 = Inr (store (mem d) p (take n bs), 0)"
    using sh_write_loop_readable [OF user_readable_take [OF assms(2), of n], of p "mem d" 0]
      sh_clip_bounds [OF assms(1)] assms(3)
    by (simp add: min_absorb2)
  then show ?thesis by (simp add: mutex_write_def assms(1) Let_def)
qed

section \<open>The driver as a byte store\<close>

definition sh_rd :: "sh_dev \<Rightarrow> nat \<Rightarrow> nat \<Rightarrow> byte list" where
  "sh_rd d a n =
    (case mutex_read (flat_uaccess 0 []) 0 (int n) (int a) d of Inl e \<Rightarrow> [] | Inr r \<Rightarrow> r_user r)"

definition sh_wr :: "sh_dev \<Rightarrow> nat \<Rightarrow> byte list \<Rightarrow> sh_dev" where
  "sh_wr d a bs =
    (case snd (mutex_write (flat_uaccess 0 bs) 0 (int (length bs)) (int a) d) of
       Inl e \<Rightarrow> d | Inr r \<Rightarrow> r_dev r)"

lemma sh_rd_eq:
  assumes "a + n \<le> 128"
  shows "sh_rd d a n = load (mem d) a n"
proof (cases "a < 128")
  case True
  with assms show ?thesis
    by (simp add: sh_rd_def mutex_read_eq [OF sh_clip_inside [OF assms True]])
next
  case False
  with assms have "a = 128" "n = 0" by simp_all
  then show ?thesis by (simp add: sh_rd_def mutex_read_def sh_clip_end)
qed

lemma sh_wr_mem:
  assumes "a + length bs \<le> 128"
  shows "mem (sh_wr d a bs) = store (mem d) a bs"
proof (cases "a < 128")
  case True
  then show ?thesis
    by (simp add: sh_wr_def mutex_write_eq [OF sh_clip_inside [OF assms True] flat_readable])
next
  case False
  with assms have "a = 128" "bs = []" by (cases bs; simp)+
  then show ?thesis by (simp add: sh_wr_def mutex_write_def sh_clip_end Let_def)
qed

interpretation shs: byte_store sh_rd sh_wr 128
  by unfold_locales (auto simp: sh_rd_eq sh_wr_mem store_simps load_append)

section \<open>Files and the test program\<close>

text \<open>
  The system calls on an open file: the position is handed to the driver by reference and
  kept in the file.
\<close>

record sh_file =
  f_pos :: int
  sh :: sh_dev

definition sys_lseek :: "int \<Rightarrow> int \<Rightarrow> sh_file \<Rightarrow> sh_file \<times> int" where
  "sys_lseek offset whence f =
    (let (pos, ret) = mutex_llseek (f_pos f) offset whence in (f\<lparr>f_pos := pos\<rparr>, ret))"

definition sys_read :: "uaccess \<Rightarrow> int \<Rightarrow> int \<Rightarrow> sh_file \<Rightarrow> fault + sh_file \<times> int \<times> byte list" where
  "sys_read U buff cnt f =
    (case mutex_read U buff cnt (f_pos f) (sh f) of
       Inl e \<Rightarrow> Inl e
     | Inr r \<Rightarrow> Inr (\<lparr>f_pos = r_loff r, sh = r_dev r\<rparr>, r_ret r, r_user r))"

definition sys_write :: "uaccess \<Rightarrow> int \<Rightarrow> int \<Rightarrow> sh_file \<Rightarrow> fault + sh_file \<times> int" where
  "sys_write U buff cnt f =
    (case snd (mutex_write U buff cnt (f_pos f) (sh f)) of
       Inl e \<Rightarrow> Inl e
     | Inr r \<Rightarrow> Inr (\<lparr>f_pos = r_loff r, sh = r_dev r\<rparr>, r_ret r))"

text \<open>
  The thread function \<open>wirite_share_mem\<close>: threads 0 and 1 fill their five bytes with
  \<open>tid + 'A'\<close> and write them at position 0, thread 2 reads five bytes there and prints them.
  \<open>fd\<close> is what \<open>open\<close> returned (a new file at position 0), \<open>rd0\<close> what \<open>malloc\<close> returned.
\<close>

datatype share_app_outcome = Node_open_fail | Wrote | Shown "byte list"

definition RW_BUFF_SIZE :: nat where
  "RW_BUFF_SIZE = 5"

definition wirite_share_mem ::
    "int \<Rightarrow> int \<Rightarrow> byte list \<Rightarrow> sh_dev \<Rightarrow> fault + sh_dev \<times> share_app_outcome" where
  "wirite_share_mem tid fd rd0 d =
    (if fd < 0 then Inr (d, Node_open_fail)
     else
       let f = fst (sys_lseek 0 0 \<lparr>f_pos = 0, sh = d\<rparr>)
       in if tid = 0 \<or> tid = 1
          then (let wrbuf = replicate RW_BUFF_SIZE (word_of_int (tid + 65))
                in case sys_write (flat_uaccess 0 wrbuf) 0 (int RW_BUFF_SIZE) f of
                     Inl e \<Rightarrow> Inl e | Inr (f', n) \<Rightarrow> Inr (sh f', Wrote))
          else if tid = 2
          then (case sys_read (flat_uaccess 0 []) 0 (int RW_BUFF_SIZE) f of
                  Inl e \<Rightarrow> Inl e
                | Inr (f', n, out) \<Rightarrow> Inr (sh f', Shown (out @ drop (length out) rd0)))
          else Inr (d, Wrote))"

section \<open>The system calls\<close>

definition sh_file_ok :: "sh_file \<Rightarrow> bool" where
  "sh_file_ok f \<longleftrightarrow> 0 \<le> f_pos f \<and> f_pos f \<le> 128"

lemma sh_clip_file:
  assumes "sh_file_ok f" and "int n < 4294967296"
  shows "sh_clip (f_pos f) (int n) =
    (if f_pos f = 128 then None else Some (nat (f_pos f), min n (nat (128 - f_pos f))))"
  using assms by (auto simp: sh_clip_def sh_file_ok_def MEM_SIZE_def wrap_simps Let_def min_def)

lemma sys_write_eq:
  assumes "sh_file_ok f" and "user_readable U buff bs" and "int (length bs) < 4294967296"
  defines "n \<equiv> min (length bs) (nat (128 - f_pos f))"
  shows "sys_write U buff (int (length bs)) f =
    Inr (\<lparr>f_pos = f_pos f + int n,
          sh = (sh f)\<lparr>writecount := s32 (writecount (sh f) + 1),
                      mem := store (mem (sh f)) (nat (f_pos f)) (take n bs)\<rparr>\<rparr>, int n)"
proof (cases "f_pos f = 128")
  case True
  then show ?thesis
    by (simp add: sys_write_def mutex_write_def sh_clip_end Let_def n_def)
next
  case False
  then have c: "sh_clip (f_pos f) (int (length bs)) = Some (nat (f_pos f), n)"
    using sh_clip_file [OF assms(1,3)] by (simp add: n_def)
  have "s64 (f_pos f + int n) = f_pos f + int n"
    using assms(1) by (auto simp: wrap_simps n_def sh_file_ok_def min_def)
  with mutex_write_eq [OF c assms(2)] show ?thesis by (simp add: sys_write_def n_def)
qed

lemma sys_read_eq:
  assumes "sh_file_ok f" and "user_writable U buff 128" and "int k < 4294967296"
  defines "n \<equiv> min k (nat (128 - f_pos f))"
  shows "sys_read U buff (int k) f =
    Inr (f\<lparr>f_pos := f_pos f + int n\<rparr>, int n, load (mem (sh f)) (nat (f_pos f)) n)"
proof (cases "f_pos f = 128")
  case True
  then show ?thesis by (simp add: sys_read_def mutex_read_def sh_clip_end n_def)
next
  case False
  then have c: "sh_clip (f_pos f) (int k) = Some (nat (f_pos f), n)"
    using sh_clip_file [OF assms(1,3)] by (simp add: n_def)
  have "s64 (f_pos f + int n) = f_pos f + int n"
    using assms(1) by (auto simp: wrap_simps n_def sh_file_ok_def min_def)
  with mutex_read_eq [OF c assms(2)] show ?thesis by (simp add: sys_read_def)
qed

lemma mutex_llseek_result:
  "mutex_llseek p offset whence = (q, r) \<Longrightarrow>
    q = r \<and> 0 \<le> q \<and> q \<le> 128 \<and> whence \<in> {0, 1, 2} \<or> q = p \<and> r = - EINVAL"
  by (auto simp: mutex_llseek_def MEM_SIZE_def Let_def split: if_splits)

lemma sys_lseek_set:
  "0 \<le> p \<Longrightarrow> p \<le> 128 \<Longrightarrow> sys_lseek p 0 f = (f\<lparr>f_pos := p\<rparr>, p)"
  by (simp add: sys_lseek_def mutex_llseek_def MEM_SIZE_def)

section \<open>Properties\<close>

text \<open>
  C20. Memory safety: whatever the position, the size and the caller's buffer, \<open>_read\<close> and
  \<open>_write\<close> never touch the share memory outside its 128 bytes.
\<close>

theorem sh_in_bounds:
  "(\<exists>r. mutex_read U buff cnt loff d = Inr r) \<and> (\<exists>r. snd (mutex_write U buff cnt loff d) = Inr r)"
proof (cases "sh_clip loff cnt")
  case None
  then show ?thesis by (simp add: mutex_read_def mutex_write_def Let_def)
next
  case (Some pn)
  obtain p n where pn: "pn = (p, n)" by (cases pn)
  then have b: "p + n \<le> 128" using sh_clip_bounds Some by blast
  obtain m ret where w: "sh_write_loop U buff p n (mem d) 0 = Inr (m, ret)"
    using sh_write_loop_in_bounds [OF b] by blast
  have "\<exists>r. mutex_read U buff cnt loff d = Inr r"
    using b Some pn by (auto simp: mutex_read_def MEM_SIZE_def Let_def)
  moreover have "\<exists>r. snd (mutex_write U buff cnt loff d) = Inr r"
    using w Some pn by (simp add: mutex_write_def Let_def)
  ultimately show ?thesis by blast
qed

text \<open>
  The device is a file of 128 bytes: a write at a position stores the bytes that fit
  before the end, returns their number and advances the position by it; at the end it
  returns 0.
\<close>

lemma sh_write_spec:
  assumes "sh_file_ok f" and "user_readable U buff bs" and "int (length bs) < 4294967296"
    and "sys_write U buff (int (length bs)) f = Inr (f', n)"
  shows "n = min (int (length bs)) (128 - f_pos f) \<and> f_pos f' = f_pos f + n \<and> sh_file_ok f' \<and>
    mem (sh f') = store (mem (sh f)) (nat (f_pos f)) (take (nat n) bs)"
  using assms(1,4) sys_write_eq [OF assms(1,2,3)]
  by (auto simp: sh_file_ok_def min_def nat_le_iff)

definition demo_file :: sh_file where
  "demo_file = \<lparr>f_pos = 126, sh = \<lparr>mem = (\<lambda>_. 0), writecount = 0\<rparr>\<rparr>"

text \<open>
  Round trip: seek, write, seek back and read the same number of bytes returns what was
  written, for every position from which it fits.
\<close>

lemma sh_write_then_read:
  assumes "p + length bs \<le> 128" and "user_readable U buff bs" and "user_writable U rbuf 128"
  shows "\<exists>f1 f2. sys_write U buff (int (length bs)) (fst (sys_lseek (int p) 0 f)) = Inr (f1, int (length bs)) \<and>
    sys_read U rbuf (int (length bs)) (fst (sys_lseek (int p) 0 f1)) = Inr (f2, int (length bs), bs)"
proof -
  let ?f = "f\<lparr>f_pos := int p\<rparr>"
  have l: "int p \<le> 128" "min (length bs) (nat (128 - int p)) = length bs" "int (length bs) < 4294967296"
    using assms(1) by linarith+
  have ok: "sh_file_ok ?f" using l by (simp add: sh_file_ok_def)
  obtain f1 where f1: "sys_write U buff (int (length bs)) ?f = Inr (f1, int (length bs))"
    and m: "mem (sh f1) = store (mem (sh f)) p bs"
    using sys_write_eq [OF ok assms(2) l(3)] l by simp
  have ok1: "sh_file_ok (f1\<lparr>f_pos := int p\<rparr>)" using l by (simp add: sh_file_ok_def)
  show ?thesis
    using f1 m l sys_read_eq [OF ok1 assms(3) l(3)] by (simp add: sys_lseek_set store_simps)
qed

text \<open>
  Writes compose: two adjacent writes are read back as one.
\<close>

lemma sh_two_writes:
  assumes "a + length xs + length ys \<le> 128"
  shows "sh_rd (sh_wr (sh_wr d a xs) (a + length xs) ys) a (length xs + length ys) = xs @ ys"
  using assms by (rule shs.rd_after_two_writes)

text \<open>
  \<open>_llseek\<close> keeps the position inside the file: it either moves to the position it
  returns, between 0 and 128, or returns \<open>-EINVAL\<close> and leaves the position alone; and
  \<open>SEEK_END\<close> with offset 0 is the last byte, 127, not the end.
\<close>

lemma sh_llseek_spec:
  assumes "sh_file_ok f"
  shows "sh_file_ok (fst (sys_lseek offset whence f)) \<and> sh (fst (sys_lseek offset whence f)) = sh f \<and>
    (snd (sys_lseek offset whence f) = f_pos (fst (sys_lseek offset whence f)) \<and> whence \<in> {0, 1, 2} \<or>
     snd (sys_lseek offset whence f) = - EINVAL \<and> fst (sys_lseek offset whence f) = f) \<and>
    snd (sys_lseek 0 2 f) = 127"
proof -
  obtain q r where qr: "mutex_llseek (f_pos f) offset whence = (q, r)" by fastforce
  have e: "mutex_llseek (f_pos f) 0 2 = (127, 127)"
    by (simp add: mutex_llseek_def MEM_SIZE_def wrap_simps)
  have "q = r \<and> 0 \<le> q \<and> q \<le> 128 \<and> whence \<in> {0, 1, 2} \<or> q = f_pos f \<and> r = - EINVAL"
    using qr by (rule mutex_llseek_result)
  then show ?thesis
    using assms by (auto simp: sys_lseek_def qr e sh_file_ok_def)
qed

text \<open>
  A failed copy is not reported: \<open>ret = -EFAULT\<close> of the loop is overwritten, so with a
  buffer of which no byte can be read, \<open>_write\<close> returns the full count and advances.
\<close>

lemma sh_write_hides_faults:
  assumes "sh_clip loff cnt = Some (p, n)" and "0 < n"
    and "\<forall>a k. snd (copy_from_user U a k) \<noteq> 0"
  shows "\<exists>r m. sh_write_loop U buff p n (mem d) 0 = Inr (m, - EFAULT) \<and>
    snd (mutex_write U buff cnt loff d) = Inr r \<and> r_ret r = int n \<and> r_loff r = s64 (loff + int n)"
  using sh_write_loop_all_fault [OF assms(3) _ assms(2), of p buff "mem d" 0]
    sh_clip_bounds [OF assms(1)] assms(1)
  by (auto simp: mutex_write_def Let_def)

text \<open>
  The test program run one thread after the other: whatever was in the share memory, after
  threads 0 and 1 thread 2 prints five times the letter of the later writer, "BBBBB".
\<close>

lemma sh_app_in_order:
  assumes "0 \<le> fd"
  shows "\<exists>d1 d2 d3. wirite_share_mem 0 fd rd0 d = Inr (d1, Wrote) \<and>
    wirite_share_mem 1 fd rd0 d1 = Inr (d2, Wrote) \<and>
    wirite_share_mem 2 fd rd0 d2 = Inr (d3, Shown (replicate 5 0x42 @ drop 5 rd0))"
proof -
  have seek: "fst (sys_lseek 0 0 \<lparr>f_pos = 0, sh = x\<rparr>) = \<lparr>f_pos = 0, sh = x\<rparr>" for x
    by (simp add: sys_lseek_set)
  have ok: "sh_file_ok \<lparr>f_pos = 0, sh = x\<rparr>" for x by (simp add: sh_file_ok_def)
  have w: "\<exists>d'. wirite_share_mem tid fd rd0 x = Inr (d', Wrote) \<and>
      mem d' = store (mem x) 0 (replicate 5 (word_of_int (tid + 65)))"
    if "tid = 0 \<or> tid = 1" for tid x
    using that assms
      sys_write_eq [OF ok [of x] flat_readable [of 0 "replicate 5 (word_of_int (tid + 65))"]]
    by (simp add: wirite_share_mem_def seek RW_BUFF_SIZE_def)
  obtain d1 where d1: "wirite_share_mem 0 fd rd0 d = Inr (d1, Wrote)" using w [of 0] by blast
  obtain d2 where d2: "wirite_share_mem 1 fd rd0 d1 = Inr (d2, Wrote)"
    and m: "mem d2 = store (mem d1) 0 (replicate 5 0x42)"
    using w [of 1 d1] by auto
  have "load (mem d2) 0 5 = replicate 5 0x42"
    using load_store_same [of "mem d1" 0 "replicate 5 0x42"] m by simp
  then have "\<exists>d3. wirite_share_mem 2 fd rd0 d2 = Inr (d3, Shown (replicate 5 0x42 @ drop 5 rd0))"
    using sys_read_eq [OF ok [of d2] flat_writable [of 0 "[]" 0 128], of 5] assms
    by (simp add: wirite_share_mem_def seek RW_BUFF_SIZE_def)
  with d1 d2 show ?thesis by blast
qed

end
