(* ===== verification/Share_Mem_Threads.thy ===== *)
theory Share_Mem_Threads
  imports Share_Mem Scheduler
begin

text \<open>
  The share-memory driver called by several threads at once, as \<open>app.c\<close> does. A thread is one
  call of \<open>_read\<close> or \<open>_write\<close>; its atomic steps are the guard, \<open>mutex_lock\<close>, one byte of the
  copy (the loop of \<open>_write\<close> calls \<open>schedule()\<close> after each), and \<open>mutex_unlock\<close> with the
  return. \<open>use_mutex\<close> tells the two versions of \<open>mutex_drv.c\<close> apart: in \<open>unuseMutex\<close> the four
  calls on \<open>share_mutex\<close> are commented out.

  The kernel's mutex is a parameter, a record of the two operations; \<open>mutex_spec\<close> states what
  is documented of them. \<open>order\<close> is an auxiliary field that no step reads: the threads in the
  order in which they left their critical sections.
\<close>

section \<open>Threads\<close>

record 'l mutex_ops =
  mutex_lock :: "nat \<Rightarrow> 'l \<Rightarrow> 'l option"
  mutex_unlock :: "nat \<Rightarrow> 'l \<Rightarrow> 'l"

text \<open>\<open>mutex_lock\<close> is \<open>None\<close> while the caller has to wait.\<close>

definition mutex_spec :: "'l mutex_ops \<Rightarrow> ('l \<Rightarrow> nat option) \<Rightarrow> bool" where
  "mutex_spec M holder \<longleftrightarrow>
    (\<forall>i l. mutex_lock M i l = None \<longleftrightarrow> holder l \<noteq> None) \<and>
    (\<forall>i l l'. mutex_lock M i l = Some l' \<longrightarrow> holder l' = Some i) \<and>
    (\<forall>i l. holder l = Some i \<longrightarrow> holder (mutex_unlock M i l) = None)"

record sh_call =
  writing :: bool
  cbuf :: int
  ccnt :: int
  coff :: int

datatype sm_pc =
    T_idle
  | T_start
  | T_want nat nat
  | T_in nat nat nat "byte list"
  | T_done int "byte list"

record 'l sm_sys =
  dev :: sh_dev
  lock :: 'l
  pcs :: "nat \<Rightarrow> sm_pc"
  order :: "nat list"

text \<open>The value a call returns and the bytes it delivers, from what \<open>_read\<close> has copied.\<close>

definition sh_result :: "uaccess \<Rightarrow> sh_call \<Rightarrow> nat \<Rightarrow> byte list \<Rightarrow> int \<times> byte list" where
  "sh_result U c n acc =
    (if writing c then (int n, [])
     else let left = copy_to_user U (cbuf c) acc
          in if left \<noteq> 0 then (- EFAULT, copied acc left) else (int n, acc))"

definition sm_tstep :: "bool \<Rightarrow> 'l mutex_ops \<Rightarrow> uaccess \<Rightarrow> (nat \<Rightarrow> sh_call) \<Rightarrow> nat \<Rightarrow> 'l sm_sys \<Rightarrow>
    'l sm_sys option" where
  "sm_tstep use_mutex M U call i s =
    (let c = call i; d = dev s; goto = (\<lambda>pc. (pcs s)(i := pc)) in
     case pcs s i of
       T_idle \<Rightarrow> None
     | T_start \<Rightarrow>
         Some (s\<lparr>dev := if writing c then d\<lparr>writecount := s32 (writecount d + 1)\<rparr> else d,
                 pcs := goto (case sh_clip (coff c) (ccnt c) of
                                None \<Rightarrow> T_done 0 [] | Some (p, n) \<Rightarrow> T_want p n)\<rparr>)
     | T_want p n \<Rightarrow>
         (if use_mutex
          then (case mutex_lock M i (lock s) of
                  None \<Rightarrow> None
                | Some l \<Rightarrow> Some (s\<lparr>lock := l, pcs := goto (T_in p n 0 [])\<rparr>))
          else Some (s\<lparr>pcs := goto (T_in p n 0 [])\<rparr>))
     | T_in p n k acc \<Rightarrow>
         (if k < n then
            (if writing c
             then Some (s\<lparr>dev := d\<lparr>mem := store (mem d) (p + k)
                                    (fst (copy_from_user U (cbuf c + int k) 1))\<rparr>,
                          pcs := goto (T_in p n (Suc k) acc)\<rparr>)
             else Some (s\<lparr>pcs := goto (T_in p n (Suc k) (acc @ [mem d (p + k)]))\<rparr>))
          else
            let (ret, out) = sh_result U c n acc
            in Some (s\<lparr>lock := if use_mutex then mutex_unlock M i (lock s) else lock s,
                       pcs := goto (T_done ret out), order := order s @ [i]\<rparr>))
     | T_done ret out \<Rightarrow> None)"

text \<open>The driver of \<open>unuseMutex\<close>, in which the calls on the mutex are commented out.\<close>

definition unuse_tstep :: "'l mutex_ops \<Rightarrow> uaccess \<Rightarrow> (nat \<Rightarrow> sh_call) \<Rightarrow> nat \<Rightarrow> 'l sm_sys \<Rightarrow>
    'l sm_sys option" where
  "unuse_tstep M U call i s = sm_tstep False M U call i s"

section \<open>The same calls one after the other\<close>

text \<open>What a call that runs alone makes of the memory and returns: the sequential handlers.\<close>

definition solo_mem :: "uaccess \<Rightarrow> sh_call \<Rightarrow> kmem \<Rightarrow> kmem" where
  "solo_mem U c m =
    (if writing c
     then (case snd (mutex_write U (cbuf c) (ccnt c) (coff c) \<lparr>mem = m, writecount = 0\<rparr>) of
             Inl e \<Rightarrow> m | Inr r \<Rightarrow> mem (r_dev r))
     else m)"

definition solo_result :: "uaccess \<Rightarrow> sh_call \<Rightarrow> kmem \<Rightarrow> int \<times> byte list" where
  "solo_result U c m =
    (case (if writing c
           then snd (mutex_write U (cbuf c) (ccnt c) (coff c) \<lparr>mem = m, writecount = 0\<rparr>)
           else mutex_read U (cbuf c) (ccnt c) (coff c) \<lparr>mem = m, writecount = 0\<rparr>) of
       Inl e \<Rightarrow> (0, []) | Inr r \<Rightarrow> (r_ret r, r_user r))"

definition serial_mem :: "uaccess \<Rightarrow> (nat \<Rightarrow> sh_call) \<Rightarrow> nat list \<Rightarrow> kmem \<Rightarrow> kmem" where
  "serial_mem U call is m = foldl (\<lambda>m i. solo_mem U (call i) m) m is"

lemma serial_mem_Nil [simp]: "serial_mem U call [] m = m"
  by (simp add: serial_mem_def)

lemma serial_mem_snoc [simp]:
  "serial_mem U call (is @ [i]) m = solo_mem U (call i) (serial_mem U call is m)"
  by (simp add: serial_mem_def)

text \<open>The bytes the loop of \<open>_write\<close> takes from the user, faults included.\<close>

definition job_bytes :: "uaccess \<Rightarrow> sh_call \<Rightarrow> nat \<Rightarrow> byte list" where
  "job_bytes U c n = concat (map (\<lambda>k. fst (copy_from_user U (cbuf c + int k) 1)) [0..<n])"

lemma length_cfu_byte: "uaccess_ok U \<Longrightarrow> length (fst (copy_from_user U a (Suc 0))) = 1"
  by (simp add: uaccess_ok_def)

lemma job_bytes_Suc:
  "job_bytes U c (Suc n) = job_bytes U c n @ fst (copy_from_user U (cbuf c + int n) 1)"
  by (simp add: job_bytes_def)

lemma length_job_bytes: "uaccess_ok U \<Longrightarrow> length (job_bytes U c n) = n"
  by (induction n) (simp_all add: job_bytes_Suc length_cfu_byte job_bytes_def [of U c 0])

lemma store_job_bytes_Suc:
  "uaccess_ok U \<Longrightarrow> store m p (job_bytes U c (Suc n)) =
    store (store m p (job_bytes U c n)) (p + n) (fst (copy_from_user U (cbuf c + int n) 1))"
  by (simp add: job_bytes_Suc store_append length_job_bytes)

lemma sh_write_loop_job:
  assumes "uaccess_ok U" and "p + n \<le> 128" and "k \<le> n"
  shows "\<exists>ret'. sh_write_loop U (cbuf c + int k) (p + k) (n - k) (store m p (job_bytes U c k)) ret =
    Inr (store m p (job_bytes U c n), ret')"
  using assms(3)
proof (induction "n - k" arbitrary: k ret)
  case 0
  then show ?case by simp
next
  case (Suc x)
  then have k: "k < n" "n - k = Suc (n - Suc k)" "x = n - Suc k" by simp_all
  show ?case
    using Suc.hyps(1) [OF k(3), of "if snd (copy_from_user U (cbuf c + int k) 1) \<noteq> 0 then - EFAULT else ret"]
      k(1) assms(1,2)
    unfolding k(2) by (simp add: MEM_SIZE_def case_prod_beta store_job_bytes_Suc algebra_simps)
qed

lemma solo_mem_eq:
  "uaccess_ok U \<Longrightarrow> sh_clip (coff c) (ccnt c) = Some (p, n) \<Longrightarrow>
    solo_mem U c m = (if writing c then store m p (job_bytes U c n) else m)"
  using sh_write_loop_job [of U p n 0 c m 0] sh_clip_bounds [of "coff c" "ccnt c" p n]
  by (auto simp: solo_mem_def mutex_write_def Let_def job_bytes_def [of U c 0])

lemma solo_result_eq:
  "uaccess_ok U \<Longrightarrow> sh_clip (coff c) (ccnt c) = Some (p, n) \<Longrightarrow>
    solo_result U c m = sh_result U c n (load m p n)"
  using sh_write_loop_job [of U p n 0 c m 0] sh_clip_bounds [of "coff c" "ccnt c" p n]
  by (auto simp: solo_result_def mutex_write_def mutex_read_def sh_result_def Let_def MEM_SIZE_def
    job_bytes_def [of U c 0])

lemma solo_none:
  "sh_clip (coff c) (ccnt c) = None \<Longrightarrow> solo_mem U c m = m \<and> solo_result U c m = (0, [])"
  by (simp add: solo_mem_def solo_result_def mutex_write_def mutex_read_def Let_def)

section \<open>The invariant of the version with the mutex\<close>

fun inside :: "sm_pc \<Rightarrow> bool" where
  "inside (T_in p n k acc) = True"
| "inside pc = False"

fun completed :: "sm_pc \<Rightarrow> bool" where
  "completed (T_done ret out) = True"
| "completed pc = False"

text \<open>
  With \<open>m\<close> the memory left by the critical sections completed so far: what a thread has
  computed at each point.
\<close>

fun pc_ok :: "uaccess \<Rightarrow> sh_call \<Rightarrow> kmem \<Rightarrow> sm_pc \<Rightarrow> bool" where
  "pc_ok U c m (T_want p n) = (sh_clip (coff c) (ccnt c) = Some (p, n))"
| "pc_ok U c m (T_in p n k acc) =
    (sh_clip (coff c) (ccnt c) = Some (p, n) \<and> k \<le> n \<and> acc = (if writing c then [] else load m p k))"
| "pc_ok U c m pc = True"

text \<open>The memory while a thread is in its critical section: a write may be half done.\<close>

fun mem_in_section :: "uaccess \<Rightarrow> sh_call \<Rightarrow> kmem \<Rightarrow> sm_pc \<Rightarrow> kmem" where
  "mem_in_section U c m (T_in p n k acc) = (if writing c then store m p (job_bytes U c k) else m)"
| "mem_in_section U c m pc = m"

definition result_ok :: "uaccess \<Rightarrow> (nat \<Rightarrow> sh_call) \<Rightarrow> kmem \<Rightarrow> nat list \<Rightarrow> nat \<Rightarrow> sm_pc \<Rightarrow> bool" where
  "result_ok U call m0 is i pc \<longleftrightarrow>
    (\<forall>ret out. pc = T_done ret out \<longrightarrow>
      (if sh_clip (coff (call i)) (ccnt (call i)) = None
       then (ret, out) = solo_result U (call i) m0
       else \<exists>xs ys. is = xs @ i # ys \<and> (ret, out) = solo_result U (call i) (serial_mem U call xs m0)))"

lemma result_ok_simps [simp]:
  "\<not> completed pc \<Longrightarrow> result_ok U call m0 is i pc"
  by (auto simp: result_ok_def)

lemma result_ok_snoc: "result_ok U call m0 is i pc \<Longrightarrow> result_ok U call m0 (is @ [j]) i pc"
  unfolding result_ok_def by (metis append_Cons append_assoc)

lemma pc_ok_outside: "\<not> inside pc \<Longrightarrow> pc_ok U c m pc \<Longrightarrow> pc_ok U c m' pc"
  by (cases pc) auto

text \<open>
  \<open>thread_ok\<close> is the invariant of one thread, given the completed sections \<open>is\<close> and the
  holder \<open>h\<close> of the mutex.
\<close>

definition thread_ok :: "uaccess \<Rightarrow> (nat \<Rightarrow> sh_call) \<Rightarrow> nat \<Rightarrow> kmem \<Rightarrow> nat list \<Rightarrow> nat option \<Rightarrow> nat \<Rightarrow>
    sm_pc \<Rightarrow> bool" where
  "thread_ok U call N m0 is h i pc \<longleftrightarrow>
    (pc = T_idle \<longleftrightarrow> N \<le> i) \<and> (inside pc \<longleftrightarrow> h = Some i) \<and>
    pc_ok U (call i) (serial_mem U call is m0) pc \<and> result_ok U call m0 is i pc \<and>
    (i \<in> set is \<longleftrightarrow> completed pc \<and> sh_clip (coff (call i)) (ccnt (call i)) \<noteq> None)"

definition section_mem :: "uaccess \<Rightarrow> (nat \<Rightarrow> sh_call) \<Rightarrow> kmem \<Rightarrow> nat option \<Rightarrow> (nat \<Rightarrow> sm_pc) \<Rightarrow> kmem" where
  "section_mem U call m h pc =
    (case h of None \<Rightarrow> m | Some i \<Rightarrow> mem_in_section U (call i) m (pc i))"

definition sm_inv :: "'l mutex_ops \<Rightarrow> ('l \<Rightarrow> nat option) \<Rightarrow> uaccess \<Rightarrow> (nat \<Rightarrow> sh_call) \<Rightarrow> nat \<Rightarrow> kmem \<Rightarrow>
    'l sm_sys \<Rightarrow> bool" where
  "sm_inv M holder U call N m0 s \<longleftrightarrow>
    mutex_spec M holder \<and> uaccess_ok U \<and> distinct (order s) \<and>
    (\<forall>i. thread_ok U call N m0 (order s) (holder (lock s)) i (pcs s i)) \<and>
    mem (dev s) = section_mem U call (serial_mem U call (order s) m0) (holder (lock s)) (pcs s)"

definition sm_start :: "'l mutex_ops \<Rightarrow> ('l \<Rightarrow> nat option) \<Rightarrow> uaccess \<Rightarrow> nat \<Rightarrow> kmem \<Rightarrow> 'l sm_sys \<Rightarrow> bool" where
  "sm_start M holder U N m0 s \<longleftrightarrow>
    mutex_spec M holder \<and> uaccess_ok U \<and> holder (lock s) = None \<and> mem (dev s) = m0 \<and>
    pcs s = (\<lambda>i. if i < N then T_start else T_idle) \<and> order s = []"

lemma sm_start_inv: "sm_start M holder U N m0 s \<Longrightarrow> sm_inv M holder U call N m0 s"
  by (simp add: sm_start_def sm_inv_def thread_ok_def section_mem_def)

lemma sm_inv_thread:
  "sm_inv M holder U call N m0 s \<Longrightarrow> pcs s i = pc \<Longrightarrow>
    thread_ok U call N m0 (order s) (holder (lock s)) i pc"
  by (auto simp: sm_inv_def)

lemma sm_guard_step:
  assumes "sm_inv M holder U call N m0 s" and "pcs s i = T_start"
    and "sm_tstep True M U call i s = Some t"
  shows "sm_inv M holder U call N m0 t"
proof -
  let ?pc = "case sh_clip (coff (call i)) (ccnt (call i)) of None \<Rightarrow> T_done 0 [] | Some (p, n) \<Rightarrow> T_want p n"
  have t: "lock t = lock s" "order t = order s" "mem (dev t) = mem (dev s)" "pcs t = (pcs s)(i := ?pc)"
    using assms(2,3) by (auto simp: sm_tstep_def Let_def)
  have old: "thread_ok U call N m0 (order s) (holder (lock s)) i T_start"
    using sm_inv_thread [OF assms(1,2)] .
  then have new: "thread_ok U call N m0 (order s) (holder (lock s)) i ?pc"
    using solo_none [of "call i" U m0]
    by (auto simp: thread_ok_def result_ok_def split: option.split)
  have "holder (lock s) \<noteq> Some i" using old by (simp add: thread_ok_def)
  then have "section_mem U call m (holder (lock s)) ((pcs s)(i := ?pc)) =
      section_mem U call m (holder (lock s)) (pcs s)" for m
    by (auto simp: section_mem_def split: option.split)
  with assms(1) new show ?thesis by (simp add: sm_inv_def t)
qed

lemma sm_lock_step:
  assumes "sm_inv M holder U call N m0 s" and "pcs s i = T_want p n"
    and "sm_tstep True M U call i s = Some t"
  shows "sm_inv M holder U call N m0 t"
proof -
  obtain l where l: "mutex_lock M i (lock s) = Some l"
    and t: "t = s\<lparr>lock := l, pcs := (pcs s)(i := T_in p n 0 [])\<rparr>"
    using assms(2,3) by (auto simp: sm_tstep_def Let_def split: option.splits)
  have h: "holder (lock s) = None" "holder l = Some i"
    using assms(1) l unfolding sm_inv_def mutex_spec_def by (metis option.distinct(1))+
  have new: "thread_ok U call N m0 (order s) (Some i) i (T_in p n 0 [])"
    using sm_inv_thread [OF assms(1,2)] by (simp add: thread_ok_def)
  have "\<forall>j. j \<noteq> i \<longrightarrow> thread_ok U call N m0 (order s) (Some i) j (pcs s j)"
    using assms(1) h(1) by (simp add: sm_inv_def thread_ok_def)
  with assms(1) new h show ?thesis
    by (simp add: sm_inv_def t section_mem_def job_bytes_def)
qed

lemma sm_copy_step:
  assumes "sm_inv M holder U call N m0 s" and "pcs s i = T_in p n k acc" and "k < n"
    and "sm_tstep True M U call i s = Some t"
  shows "sm_inv M holder U call N m0 t"
proof -
  let ?m = "serial_mem U call (order s) m0"
  define acc' where "acc' = (if writing (call i) then acc else acc @ [mem (dev s) (p + k)])"
  have old: "thread_ok U call N m0 (order s) (holder (lock s)) i (T_in p n k acc)"
    using sm_inv_thread [OF assms(1,2)] .
  then have h: "holder (lock s) = Some i" by (simp add: thread_ok_def)
  have m: "mem (dev s) = mem_in_section U (call i) ?m (T_in p n k acc)"
    using assms(1,2) h by (simp add: sm_inv_def section_mem_def)
  have t: "lock t = lock s" "order t = order s" "pcs t = (pcs s)(i := T_in p n (Suc k) acc')"
    using assms(2,3,4) by (auto simp: sm_tstep_def acc'_def Let_def split: if_splits)
  have "mem (dev t) = mem_in_section U (call i) ?m (T_in p n (Suc k) acc')"
    using assms m store_job_bytes_Suc [of U ?m p "call i" k]
    by (auto simp: sm_tstep_def Let_def sm_inv_def)
  moreover have "thread_ok U call N m0 (order s) (holder (lock s)) i (T_in p n (Suc k) acc')"
    using old m assms(3) load_append [of ?m p k 1]
    by (auto simp: thread_ok_def acc'_def load_def)
  ultimately show ?thesis
    using assms(1) h by (simp add: sm_inv_def t section_mem_def)
qed

lemma sm_unlock_step:
  assumes "sm_inv M holder U call N m0 s" and "pcs s i = T_in p n k acc" and "\<not> k < n"
    and "sm_tstep True M U call i s = Some t"
  shows "sm_inv M holder U call N m0 t"
proof -
  let ?m = "serial_mem U call (order s) m0"
  obtain ret out where r: "sh_result U (call i) n acc = (ret, out)" by fastforce
  have t: "t = s\<lparr>lock := mutex_unlock M i (lock s), pcs := (pcs s)(i := T_done ret out),
      order := order s @ [i]\<rparr>"
    using assms(2,3,4) r by (auto simp: sm_tstep_def Let_def)
  have old: "thread_ok U call N m0 (order s) (holder (lock s)) i (T_in p n k acc)"
    using sm_inv_thread [OF assms(1,2)] .
  then have h: "holder (lock s) = Some i" and i: "i \<notin> set (order s)" "k = n"
    and c: "sh_clip (coff (call i)) (ccnt (call i)) = Some (p, n)"
    using assms(3) by (auto simp: thread_ok_def)
  have U: "uaccess_ok U" using assms(1) by (simp add: sm_inv_def)
  have h': "holder (mutex_unlock M i (lock s)) = None"
    using assms(1) h by (simp add: sm_inv_def mutex_spec_def)
  have "(ret, out) = solo_result U (call i) ?m"
    using old r i solo_result_eq [OF U c, of ?m] by (simp add: thread_ok_def sh_result_def split: if_splits)
  then have new: "thread_ok U call N m0 (order s @ [i]) None i (T_done ret out)"
    using old c by (auto simp: thread_ok_def result_ok_def)
  have others: "thread_ok U call N m0 (order s @ [i]) None j (pcs s j)" if "j \<noteq> i" for j
    using sm_inv_thread [OF assms(1) refl, of j] that h
      result_ok_snoc [of U call m0 "order s" j "pcs s j" i]
      pc_ok_outside [of "pcs s j" U "call j" ?m "serial_mem U call (order s @ [i]) m0"]
    by (simp add: thread_ok_def del: serial_mem_snoc)
  have "mem (dev s) = solo_mem U (call i) ?m"
    using assms(1,2) h i solo_mem_eq [OF U c, of ?m] by (simp add: sm_inv_def section_mem_def)
  then show ?thesis
    using assms(1) new others h' i(1) by (simp add: sm_inv_def t section_mem_def)
qed

lemma sm_step_inv:
  assumes "sm_inv M holder U call N m0 s" and "sm_tstep True M U call i s = Some t"
  shows "sm_inv M holder U call N m0 t"
proof (cases "pcs s i")
  case (T_in p n k acc)
  then show ?thesis
    using sm_copy_step [OF assms(1) T_in _ assms(2)] sm_unlock_step [OF assms(1) T_in _ assms(2)]
    by blast
next
  case T_start
  then show ?thesis using sm_guard_step assms by blast
next
  case (T_want p n)
  then show ?thesis using sm_lock_step assms by blast
qed (use assms in \<open>simp_all add: sm_tstep_def\<close>)

interpretation smt: threaded_system "sm_tstep True M U call" "sm_start M holder U N m0"
  "sm_inv M holder U call N m0" for M holder U call N m0
  by unfold_locales (auto intro: sm_start_inv sm_step_inv)

section \<open>Termination and progress\<close>

fun pc_work :: "sh_call \<Rightarrow> sm_pc \<Rightarrow> nat" where
  "pc_work c T_start =
    (case sh_clip (coff c) (ccnt c) of None \<Rightarrow> 1 | Some (p, n) \<Rightarrow> n + 3)"
| "pc_work c (T_want p n) = n + 2"
| "pc_work c (T_in p n k acc) = n - k + 1"
| "pc_work c pc = 0"

definition sm_work :: "(nat \<Rightarrow> sh_call) \<Rightarrow> nat \<Rightarrow> 'l sm_sys \<Rightarrow> nat" where
  "sm_work call N s = (\<Sum>i < N. pc_work (call i) (pcs s i))"

definition sm_finished :: "nat \<Rightarrow> 'l sm_sys \<Rightarrow> bool" where
  "sm_finished N s \<longleftrightarrow> (\<forall>i < N. completed (pcs s i))"

lemma sm_step_pc_work:
  "sm_tstep b M U call i s = Some t \<Longrightarrow>
    pc_work (call i) (pcs t i) < pc_work (call i) (pcs s i) \<and> (\<forall>j. j \<noteq> i \<longrightarrow> pcs t j = pcs s j)"
  by (cases "pcs s i") (auto simp: sm_tstep_def Let_def split: if_splits option.splits prod.splits)

lemma sm_work_decreases:
  assumes "sm_inv M holder U call N m0 s" and "sm_tstep True M U call i s = Some t"
  shows "sm_work call N t < sm_work call N s"
proof -
  have "pcs s i \<noteq> T_idle" using assms(2) by (auto simp: sm_tstep_def)
  then have "i < N"
    using sm_inv_thread [OF assms(1) refl, of i] by (simp add: thread_ok_def)
  moreover have "\<forall>j. pc_work (call j) (pcs t j) \<le> pc_work (call j) (pcs s j)"
    using sm_step_pc_work [OF assms(2)] by (metis less_imp_le order_refl)
  ultimately show ?thesis
    using sm_step_pc_work [OF assms(2)] unfolding sm_work_def
    by (intro sum_strict_mono_ex1) auto
qed

lemma sm_progress:
  assumes "sm_inv M holder U call N m0 s" and "\<not> sm_finished N s"
  shows "\<exists>i t. sm_tstep True M U call i s = Some t"
proof (cases "holder (lock s)")
  case (Some i)
  then have "inside (pcs s i)"
    using sm_inv_thread [OF assms(1) refl, of i] by (simp add: thread_ok_def)
  then have "\<exists>t. sm_tstep True M U call i s = Some t"
    by (cases "pcs s i") (auto simp: sm_tstep_def Let_def split: prod.split)
  then show ?thesis by blast
next
  case None
  obtain i where i: "i < N" "\<not> completed (pcs s i)"
    using assms(2) by (auto simp: sm_finished_def)
  have "pcs s i \<noteq> T_idle" "\<not> inside (pcs s i)"
    using sm_inv_thread [OF assms(1) refl, of i] i None by (simp_all add: thread_ok_def)
  moreover have "mutex_lock M i (lock s) \<noteq> None"
    using assms(1) None by (simp add: sm_inv_def mutex_spec_def)
  ultimately have "\<exists>t. sm_tstep True M U call i s = Some t"
    using i(2) by (cases "pcs s i") (auto simp: sm_tstep_def Let_def)
  then show ?thesis by blast
qed

interpretation smw: terminating_system "sm_tstep True M U call" "sm_start M holder U N m0"
  "sm_inv M holder U call N m0" "sm_work call N" "sm_finished N" for M holder U call N m0
  by unfold_locales (auto intro: sm_work_decreases sm_progress)

section \<open>The test program\<close>

text \<open>
  The calls of \<open>app.c\<close>: threads 0 and 1 write five letters at position 0, thread 2 reads five
  bytes there. Their buffers lie at 0, 100 and 200 of the user's memory; Share_Mem_App has the
  program around the calls, with the buffers where \<open>malloc\<close> puts them.
\<close>

definition app_call :: "nat \<Rightarrow> sh_call" where
  "app_call i = \<lparr>writing = (i < 2), cbuf = 100 * int i, ccnt = 5, coff = 0\<rparr>"

definition app_uaccess :: uaccess where
  "app_uaccess =
    \<lparr>copy_from_user = (\<lambda>x n.
       if 0 \<le> x \<and> x + int n \<le> 5 then (replicate n 0x41, 0)
       else if 100 \<le> x \<and> x + int n \<le> 105 then (replicate n 0x42, 0)
       else (replicate n 0, n)),
     copy_to_user = (\<lambda>x bs. 0)\<rparr>"

definition option_mutex :: "nat option mutex_ops" where
  "option_mutex =
    \<lparr>mutex_lock = (\<lambda>i l. if l = None then Some (Some i) else None), mutex_unlock = (\<lambda>i l. None)\<rparr>"

definition app_sys :: "nat option sm_sys" where
  "app_sys = \<lparr>dev = \<lparr>mem = (\<lambda>_. 0), writecount = 0\<rparr>, lock = None,
    pcs = (\<lambda>i. if i < 3 then T_start else T_idle), order = []\<rparr>"

lemma app_uaccess_ok: "uaccess_ok app_uaccess"
  by (auto simp: uaccess_ok_def app_uaccess_def)

lemma option_mutex_spec: "mutex_spec option_mutex id"
  by (auto simp: mutex_spec_def option_mutex_def)

lemma app_sys_start: "sm_start option_mutex id app_uaccess 3 (\<lambda>_. 0) app_sys"
  using app_uaccess_ok option_mutex_spec by (simp add: sm_start_def app_sys_def)

lemma app_call_simps [simp]:
  "writing (app_call i) \<longleftrightarrow> i < 2" "cbuf (app_call i) = 100 * int i"
  "ccnt (app_call i) = 5" "coff (app_call i) = 0"
  by (simp_all add: app_call_def)

lemma app_clip: "sh_clip (coff (app_call i)) (ccnt (app_call i)) = Some (0, 5)"
  using sh_clip_inside [of 0 5] by simp

section \<open>Properties\<close>

text \<open>
  C4. Mutual exclusion: with the mutex, at most one thread is between \<open>mutex_lock\<close> and
  \<open>mutex_unlock\<close>, in every reachable state, for any number of threads and any calls.
\<close>

theorem sm_mutual_exclusion:
  assumes "sm_start M holder U N m0 s" and "reaches (sm_tstep True M U call) s t"
    and "inside (pcs t i)" and "inside (pcs t j)"
  shows "i = j"
proof -
  have inv: "sm_inv M holder U call N m0 t"
    using assms(1,2) by (rule smt.reachable_inv)
  show ?thesis
    using sm_inv_thread [OF inv refl, of i] sm_inv_thread [OF inv refl, of j] assms(3,4)
    by (simp add: thread_ok_def)
qed

theorem sm_mutual_exclusion_witness:
  "\<exists>t. reaches (sm_tstep True option_mutex app_uaccess app_call) app_sys t \<and> inside (pcs t 0) \<and>
    (\<forall>j. inside (pcs t j) = (j = 0))"
proof -
  obtain t where t: "run_schedule (sm_tstep True option_mutex app_uaccess app_call) [0, 0] app_sys = Some t"
    and i: "inside (pcs t 0)"
    by (auto simp: sm_tstep_def Let_def app_clip [simplified] option_mutex_def app_sys_def)
  note r = run_schedule_reaches [OF t]
  have "\<forall>j. inside (pcs t j) = (j = 0)"
    using sm_mutual_exclusion [OF app_sys_start r _ i] i by blast
  with r i show ?thesis by blast
qed

text \<open>
  C1. Serializability: with the mutex, a run in which all calls have returned is as good as a
  run of the sequential handlers one after the other. There is an order of the calls such
  that the final memory is that of the handlers run in this order, and each call returned
  and delivered what its handler does when its turn comes.
\<close>

theorem sm_serializable:
  assumes "sm_start M holder U N m0 s" and "reaches (sm_tstep True M U call) s t" and "sm_finished N t"
  shows "\<exists>is. distinct is \<and> set is = {i. i < N \<and> sh_clip (coff (call i)) (ccnt (call i)) \<noteq> None} \<and>
    mem (dev t) = serial_mem U call is m0 \<and>
    (\<forall>i < N. \<exists>ret out. pcs t i = T_done ret out \<and>
      (if i \<in> set is
       then \<exists>xs ys. is = xs @ i # ys \<and> (ret, out) = solo_result U (call i) (serial_mem U call xs m0)
       else ret = 0 \<and> out = []))"
proof -
  have inv: "sm_inv M holder U call N m0 t"
    using assms(1,2) by (rule smt.reachable_inv)
  note th = sm_inv_thread [OF inv refl, unfolded thread_ok_def]
  have dn: "completed (pcs t i) \<longleftrightarrow> i < N" for i
    using assms(3) th [of i] by (cases "i < N") (auto simp: sm_finished_def not_less)
  have "holder (lock t) = None"
  proof (cases "holder (lock t)")
    case (Some i)
    then have "inside (pcs t i)" using th [of i] by simp
    then show ?thesis using dn [of i] th [of i] by (cases "pcs t i") (auto simp: not_le)
  qed simp
  then have m: "mem (dev t) = serial_mem U call (order t) m0"
    using inv by (simp add: sm_inv_def section_mem_def)
  have set: "set (order t) = {i. i < N \<and> sh_clip (coff (call i)) (ccnt (call i)) \<noteq> None}"
    using th dn by blast
  have "\<exists>ret out. pcs t i = T_done ret out \<and>
      (if i \<in> set (order t)
       then \<exists>xs ys. order t = xs @ i # ys \<and> (ret, out) = solo_result U (call i) (serial_mem U call xs m0)
       else ret = 0 \<and> out = [])" if "i < N" for i
  proof -
    have "completed (pcs t i)" using dn that by simp
    then obtain ret out where d: "pcs t i = T_done ret out" by (cases "pcs t i") auto
    have "result_ok U call m0 (order t) i (T_done ret out)" using th [of i] d by simp
    then show ?thesis
      using d that solo_none [of "call i" U m0] unfolding set result_ok_def by (auto split: if_splits)
  qed
  with m set inv show ?thesis unfolding sm_inv_def by blast
qed

theorem sm_serializable_witness:
  "\<exists>t is. reaches (sm_tstep True option_mutex app_uaccess app_call) app_sys t \<and>
    set is = {0, 1, 2} \<and> mem (dev t) = serial_mem app_uaccess app_call is (\<lambda>_. 0)"
proof -
  obtain t where r: "reaches (sm_tstep True option_mutex app_uaccess app_call) app_sys t"
    and f: "sm_finished 3 t"
    using smw.can_finish [OF sm_start_inv [OF app_sys_start]] by blast
  have "{i. i < 3 \<and> sh_clip (coff (app_call i)) (ccnt (app_call i)) \<noteq> None} = {0, 1, 2}"
    using app_clip [simplified] by auto
  then show ?thesis
    using sm_serializable [OF app_sys_start r f] r by metis
qed

text \<open>
  C8. No deadlock and no starvation: every schedule of the calls is at most as long as the
  work they have, and when no thread can move every call has returned.
\<close>

theorem sm_terminates:
  assumes "sm_start M holder U N m0 s" and "run_schedule (sm_tstep True M U call) is s = Some t"
  shows "length is \<le> sm_work call N s \<and>
    ((\<forall>i. sm_tstep True M U call i t = None) \<longrightarrow> sm_finished N t)"
proof -
  have inv: "sm_inv M holder U call N m0 s" using sm_start_inv [OF assms(1)] .
  have inv': "sm_inv M holder U call N m0 t"
    using smt.reaches_inv [OF run_schedule_reaches [OF assms(2)] inv] .
  show ?thesis
    using smw.schedule_length [OF inv assms(2)] smw.stuck_finished [OF inv'] by simp
qed

theorem sm_terminates_witness:
  "run_schedule (sm_tstep True option_mutex app_uaccess app_call) [] app_sys = Some app_sys \<and>
    \<not> (\<forall>i. sm_tstep True option_mutex app_uaccess app_call i app_sys = None)"
proof -
  have r: "run_schedule (sm_tstep True option_mutex app_uaccess app_call) [] app_sys = Some app_sys"
    by simp
  have "\<not> sm_finished 3 app_sys" by (auto simp: sm_finished_def app_sys_def intro: exI [of _ 0])
  with sm_terminates [OF app_sys_start r] r show ?thesis by blast
qed

end
