(* ===== verification/Share_Mem_Locks.thy ===== *)
theory Share_Mem_Locks
  imports Share_Mem_Threads
begin

text \<open>
  The handlers of \<open>useMutex/mutex_drv.c\<close> with their calls on \<open>share_mutex\<close> written out, against
  those of \<open>unuseMutex/mutex_drv.c\<close>, which are \<open>mutex_read\<close> and \<open>mutex_write\<close>: called alone they do
  the same, and every path that takes the mutex gives it back.
\<close>

section \<open>The handlers with the mutex\<close>

text \<open>
  \<open>None\<close> is a call that has to wait for the mutex. The early return for a position at or behind
  the end comes before \<open>mutex_lock\<close>; \<open>writecount\<close> goes up before it too.
\<close>

definition locked_read :: "'l mutex_ops \<Rightarrow> nat \<Rightarrow> uaccess \<Rightarrow> int \<Rightarrow> int \<Rightarrow> int \<Rightarrow> sh_dev \<Rightarrow> 'l \<Rightarrow>
    ((fault + sh_dev seek_reply) \<times> 'l) option" where
  "locked_read M i U buff cnt loff d l =
    (case sh_clip loff cnt of
       None \<Rightarrow> Some (mutex_read U buff cnt loff d, l)
     | Some pn \<Rightarrow>
         (case mutex_lock M i l of
            None \<Rightarrow> None
          | Some l' \<Rightarrow> Some (mutex_read U buff cnt loff d, mutex_unlock M i l')))"

definition locked_write :: "'l mutex_ops \<Rightarrow> nat \<Rightarrow> uaccess \<Rightarrow> int \<Rightarrow> int \<Rightarrow> int \<Rightarrow> sh_dev \<Rightarrow> 'l \<Rightarrow>
    ((nat option \<times> (fault + sh_dev seek_reply)) \<times> 'l) option" where
  "locked_write M i U buff cnt loff d l =
    (case sh_clip loff cnt of
       None \<Rightarrow> Some (mutex_write U buff cnt loff d, l)
     | Some pn \<Rightarrow>
         (case mutex_lock M i l of
            None \<Rightarrow> None
          | Some l' \<Rightarrow> Some (mutex_write U buff cnt loff d, mutex_unlock M i l')))"

lemma mutex_lock_free:
  assumes "mutex_spec M holder" and "holder l = None"
  obtains l' where "mutex_lock M i l = Some l'" and "holder (mutex_unlock M i l') = None"
  using assms unfolding mutex_spec_def by (metis not_None_eq)

lemma mutex_lock_held: "mutex_spec M holder \<Longrightarrow> holder l \<noteq> None \<Longrightarrow> mutex_lock M i l = None"
  unfolding mutex_spec_def by blast

text \<open>With the mutex free the calls are those without it, and it is free again afterwards.\<close>

lemma locked_calls_alone:
  assumes "mutex_spec M holder" and "holder l = None"
  shows "\<exists>l'. locked_read M i U buff cnt loff d l = Some (mutex_read U buff cnt loff d, l') \<and> holder l' = None"
    and "\<exists>l'. locked_write M i U buff cnt loff d l = Some (mutex_write U buff cnt loff d, l') \<and> holder l' = None"
proof -
  obtain l' where l: "mutex_lock M i l = Some l'" "holder (mutex_unlock M i l') = None"
    by (rule mutex_lock_free [OF assms])
  show "\<exists>l'. locked_read M i U buff cnt loff d l = Some (mutex_read U buff cnt loff d, l') \<and> holder l' = None"
    using l assms(2) by (cases "sh_clip loff cnt") (simp_all add: locked_read_def)
  show "\<exists>l'. locked_write M i U buff cnt loff d l = Some (mutex_write U buff cnt loff d, l') \<and> holder l' = None"
    using l assms(2) by (cases "sh_clip loff cnt") (simp_all add: locked_write_def)
qed

text \<open>While another call holds the mutex, only calls at or behind the end return.\<close>

lemma locked_calls_wait:
  assumes "mutex_spec M holder" and "holder l \<noteq> None"
  shows "locked_read M i U buff cnt loff d l = None \<longleftrightarrow> u64 loff < MEM_SIZE"
    and "locked_write M i U buff cnt loff d l = None \<longleftrightarrow> u64 loff < MEM_SIZE"
  using mutex_lock_held [OF assms, of i]
  by (auto simp: locked_read_def locked_write_def sh_clip_def Let_def split: option.splits)

section \<open>Sequences of calls\<close>

datatype sh_request = Rq_read int int int | Rq_write int int int

text \<open>Calls of one caller, one after the other, over either driver: the results and the final device.\<close>

definition reply_dev :: "sh_dev \<Rightarrow> fault + sh_dev seek_reply \<Rightarrow> sh_dev" where
  "reply_dev d r = (case r of Inl e \<Rightarrow> d | Inr r \<Rightarrow> r_dev r)"

fun unlocked_calls :: "uaccess \<Rightarrow> sh_request list \<Rightarrow> sh_dev \<Rightarrow> sh_dev \<times> (fault + sh_dev seek_reply) list" where
  "unlocked_calls U [] d = (d, [])"
| "unlocked_calls U (Rq_read b c p # qs) d =
    (let r = mutex_read U b c p d; (e, rs) = unlocked_calls U qs (reply_dev d r) in (e, r # rs))"
| "unlocked_calls U (Rq_write b c p # qs) d =
    (let r = snd (mutex_write U b c p d); (e, rs) = unlocked_calls U qs (reply_dev d r) in (e, r # rs))"

fun locked_calls :: "'l mutex_ops \<Rightarrow> nat \<Rightarrow> uaccess \<Rightarrow> sh_request list \<Rightarrow> sh_dev \<Rightarrow> 'l \<Rightarrow>
    ((sh_dev \<times> (fault + sh_dev seek_reply) list) \<times> 'l) option" where
  "locked_calls M i U [] d l = Some ((d, []), l)"
| "locked_calls M i U (Rq_read b c p # qs) d l =
    (case locked_read M i U b c p d l of
       None \<Rightarrow> None
     | Some (r, l') \<Rightarrow>
         (case locked_calls M i U qs (reply_dev d r) l' of
            None \<Rightarrow> None | Some ((e, rs), l'') \<Rightarrow> Some ((e, r # rs), l'')))"
| "locked_calls M i U (Rq_write b c p # qs) d l =
    (case locked_write M i U b c p d l of
       None \<Rightarrow> None
     | Some (w, l') \<Rightarrow>
         (case locked_calls M i U qs (reply_dev d (snd w)) l' of
            None \<Rightarrow> None | Some ((e, rs), l'') \<Rightarrow> Some ((e, snd w # rs), l'')))"

lemma locked_calls_unlocked:
  assumes "mutex_spec M holder"
  shows "holder l = None \<Longrightarrow>
    \<exists>l'. locked_calls M i U qs d l = Some (unlocked_calls U qs d, l') \<and> holder l' = None"
proof (induction U qs d arbitrary: l rule: unlocked_calls.induct)
  case (1 U d)
  then show ?case by simp
next
  case (2 U b c p qs d)
  obtain l' where l: "locked_read M i U b c p d l = Some (mutex_read U b c p d, l')" "holder l' = None"
    using locked_calls_alone(1) [OF assms 2(2)] by blast
  from 2(1) [OF refl l(2)] show ?case using l by (auto split: prod.splits)
next
  case (3 U b c p qs d)
  obtain l' where l: "locked_write M i U b c p d l = Some (mutex_write U b c p d, l')" "holder l' = None"
    using locked_calls_alone(2) [OF assms 3(2)] by blast
  from 3(1) [OF refl l(2)] show ?case using l by (auto split: prod.splits)
qed

section \<open>Properties\<close>

text \<open>
  For one caller the driver with the mutex and the driver without it are the same: with the
  mutex free, every sequence of reads and writes returns from both, on every branch of the
  handlers, with the same results, bytes and final memory, and the mutex is free again; while
  somebody else holds it, a call waits exactly when its position is inside the memory.
\<close>

lemma sh_locks_are_transparent:
  assumes "mutex_spec M holder"
  shows "(holder l = None \<longrightarrow>
      (\<exists>l'. locked_calls M i U qs d l = Some (unlocked_calls U qs d, l') \<and> holder l' = None)) \<and>
    (holder l \<noteq> None \<longrightarrow>
      (locked_read M i U buff cnt loff d l = None \<longleftrightarrow> u64 loff < MEM_SIZE) \<and>
      (locked_write M i U buff cnt loff d l = None \<longleftrightarrow> u64 loff < MEM_SIZE))"
  using locked_calls_unlocked [OF assms] locked_calls_wait [OF assms] by blast

end
