(* ===== verification/Share_Mem_File.thy ===== *)
theory Share_Mem_File
  imports Share_Mem_Locks
begin

text \<open>
  The share-memory drivers behind their tables of file operations (\<open>myfops\<close> of
  \<open>useMutex/mutex_drv.c\<close> and of \<open>unuseMutex/mutex_drv.c\<close>): any number of open files, each with a
  position of its own, over the one device. \<open>mem_file\<close> is what the two drivers promise, a file of
  128 bytes, and \<open>sh_session_refines_file\<close> that they keep it.
\<close>

section \<open>Tables of file operations\<close>

text \<open>
  An operation gets the device and gives it back with its result; a read or write may have to wait
  (\<open>None\<close>), may fault, and otherwise gives its return value, the bytes delivered and the new position.
\<close>

type_synonym rw_result = "fault + int \<times> byte list \<times> int"

record 'd file_operations =
  fo_open :: "'d \<Rightarrow> 'd \<times> int"
  fo_llseek :: "int \<Rightarrow> int \<Rightarrow> int \<Rightarrow> int \<times> int"
  fo_release :: "'d \<Rightarrow> 'd \<times> int"
  fo_read :: "uaccess \<Rightarrow> int \<Rightarrow> int \<Rightarrow> int \<Rightarrow> 'd \<Rightarrow> ('d \<times> rw_result) option"
  fo_write :: "uaccess \<Rightarrow> int \<Rightarrow> int \<Rightarrow> int \<Rightarrow> 'd \<Rightarrow> ('d \<times> rw_result) option"

definition rw_result_of :: "fault + sh_dev seek_reply \<Rightarrow> rw_result" where
  "rw_result_of r = (case r of Inl e \<Rightarrow> Inl e | Inr r \<Rightarrow> Inr (r_ret r, r_user r, r_loff r))"

text \<open>
  The functions of \<open>unuseMutex/mutex_drv.c\<close> beside \<open>_read\<close> and \<open>_write\<close>.
\<close>

definition unuse_open :: "sh_dev \<Rightarrow> sh_dev \<times> int" where
  "unuse_open d = (d, 0)"

definition unuse_release :: "sh_dev \<Rightarrow> sh_dev \<times> int" where
  "unuse_release d = (d, 0)"

definition unuse_llseek :: "int \<Rightarrow> int \<Rightarrow> int \<Rightarrow> int \<times> int" where
  "unuse_llseek pos offset whence =
    (let new_pos = (if whence = 0 then Some offset
                    else if whence = 1 then Some (s64 (pos + offset))
                    else if whence = 2 then Some (s64 (MEM_SIZE - 1 + offset))
                    else None)
     in case new_pos of
          None \<Rightarrow> (pos, - EINVAL)
        | Some p \<Rightarrow> if p < 0 \<or> p > MEM_SIZE then (pos, - EINVAL) else (p, p))"

definition unuse_myfops :: "sh_dev file_operations" where
  "unuse_myfops =
    \<lparr>fo_open = unuse_open, fo_llseek = unuse_llseek, fo_release = unuse_release,
     fo_read = (\<lambda>U buff cnt loff d.
       let r = mutex_read U buff cnt loff d in Some (reply_dev d r, rw_result_of r)),
     fo_write = (\<lambda>U buff cnt loff d.
       let r = snd (mutex_write U buff cnt loff d) in Some (reply_dev d r, rw_result_of r))\<rparr>"

definition use_myfops :: "'l mutex_ops \<Rightarrow> nat \<Rightarrow> (sh_dev \<times> 'l) file_operations" where
  "use_myfops M i =
    \<lparr>fo_open = (\<lambda>(d, l). let (d', r) = mutex_open d in ((d', l), r)), fo_llseek = mutex_llseek,
     fo_release = (\<lambda>(d, l). let (d', r) = mutex_release d in ((d', l), r)),
     fo_read = (\<lambda>U buff cnt loff (d, l). case locked_read M i U buff cnt loff d l of
        None \<Rightarrow> None | Some (r, l') \<Rightarrow> Some ((reply_dev d r, l'), rw_result_of r)),
     fo_write = (\<lambda>U buff cnt loff (d, l). case locked_write M i U buff cnt loff d l of
        None \<Rightarrow> None | Some (w, l') \<Rightarrow> Some ((reply_dev d (snd w), l'), rw_result_of (snd w)))\<rparr>"

section \<open>Sessions\<close>

text \<open>
  The system calls a program makes on the device file. A number that is in use is not given out by
  an open, and a call on a number that is not open is refused; a write names the bytes of its buffer.
\<close>

datatype file_call =
    F_open nat
  | F_read nat int int
  | F_write nat int "byte list"
  | F_lseek nat int int
  | F_close nat

abbreviation (input) EBADF :: int where "EBADF \<equiv> 9"

record 'd session =
  ss_dev :: 'd
  ss_pos :: "nat \<Rightarrow> int option"

type_synonym call_result = "fault + int \<times> byte list"

definition end_rw :: "nat \<Rightarrow> 'd session \<Rightarrow> ('d \<times> rw_result) option \<Rightarrow> ('d session \<times> call_result) option" where
  "end_rw fd s r =
    (case r of
       None \<Rightarrow> None
     | Some (d, Inl e) \<Rightarrow> Some (s\<lparr>ss_dev := d\<rparr>, Inl e)
     | Some (d, Inr (n, out, p)) \<Rightarrow> Some (\<lparr>ss_dev = d, ss_pos = (ss_pos s)(fd := Some p)\<rparr>, Inr (n, out)))"

fun session_call :: "'d file_operations \<Rightarrow> uaccess \<Rightarrow> file_call \<Rightarrow> 'd session \<Rightarrow>
    ('d session \<times> call_result) option" where
  "session_call F U (F_open fd) s =
    (case ss_pos s fd of
       Some p \<Rightarrow> Some (s, Inr (- EBADF, []))
     | None \<Rightarrow> (let (d, r) = fo_open F (ss_dev s)
                in if r \<noteq> 0 then Some (s\<lparr>ss_dev := d\<rparr>, Inr (r, []))
                   else Some (\<lparr>ss_dev = d, ss_pos = (ss_pos s)(fd := Some 0)\<rparr>, Inr (int fd, []))))"
| "session_call F U (F_read fd buff cnt) s =
    (case ss_pos s fd of
       None \<Rightarrow> Some (s, Inr (- EBADF, []))
     | Some p \<Rightarrow> end_rw fd s (fo_read F U buff cnt p (ss_dev s)))"
| "session_call F U (F_write fd buff bs) s =
    (case ss_pos s fd of
       None \<Rightarrow> Some (s, Inr (- EBADF, []))
     | Some p \<Rightarrow> end_rw fd s (fo_write F U buff (int (length bs)) p (ss_dev s)))"
| "session_call F U (F_lseek fd offset whence) s =
    (case ss_pos s fd of
       None \<Rightarrow> Some (s, Inr (- EBADF, []))
     | Some p \<Rightarrow> (let (q, r) = fo_llseek F p offset whence
                  in Some (s\<lparr>ss_pos := (ss_pos s)(fd := Some q)\<rparr>, Inr (r, []))))"
| "session_call F U (F_close fd) s =
    (case ss_pos s fd of
       None \<Rightarrow> Some (s, Inr (- EBADF, []))
     | Some p \<Rightarrow> (let (d, r) = fo_release F (ss_dev s)
                  in Some (\<lparr>ss_dev = d, ss_pos = (ss_pos s)(fd := None)\<rparr>, Inr (0, []))))"

fun session_run :: "'d file_operations \<Rightarrow> uaccess \<Rightarrow> file_call list \<Rightarrow> 'd session \<Rightarrow>
    ('d session \<times> call_result list) option" where
  "session_run F U [] s = Some (s, [])"
| "session_run F U (c # cs) s =
    (case session_call F U c s of
       None \<Rightarrow> None
     | Some (t, r) \<Rightarrow> (case session_run F U cs t of None \<Rightarrow> None | Some (u, rs) \<Rightarrow> Some (u, r # rs)))"

section \<open>What a file of 128 bytes promises\<close>

text \<open>
  The bytes, and the position of every open file. A transfer is cut at the end of the file and moves
  the position behind itself; its size counts modulo $2^{32}$. A seek may go anywhere from 0 to 128,
  and counts from the last byte when it counts from the end.
\<close>

record mem_file =
  mf_bytes :: "byte list"
  mf_pos :: "nat \<Rightarrow> nat option"

definition mf_goto :: "nat \<Rightarrow> nat \<Rightarrow> mem_file \<Rightarrow> mem_file" where
  "mf_goto fd p f = f\<lparr>mf_pos := (mf_pos f)(fd := Some p)\<rparr>"

definition splice :: "byte list \<Rightarrow> nat \<Rightarrow> byte list \<Rightarrow> byte list" where
  "splice xs p bs = take p xs @ bs @ drop (p + length bs) xs"

definition seek_target :: "nat \<Rightarrow> int \<Rightarrow> int \<Rightarrow> int option" where
  "seek_target p offset whence =
    (if whence = 0 then Some offset else if whence = 1 then Some (int p + offset)
     else if whence = 2 then Some (127 + offset) else None)"

fun mf_call :: "file_call \<Rightarrow> mem_file \<Rightarrow> mem_file \<times> int \<times> byte list" where
  "mf_call (F_open fd) f =
    (if mf_pos f fd \<noteq> None then (f, - EBADF, []) else (mf_goto fd 0 f, int fd, []))"
| "mf_call (F_read fd buff cnt) f =
    (case mf_pos f fd of
       None \<Rightarrow> (f, - EBADF, [])
     | Some p \<Rightarrow> (let out = take (nat (u32 cnt)) (drop p (mf_bytes f))
                  in (mf_goto fd (p + length out) f, int (length out), out)))"
| "mf_call (F_write fd buff bs) f =
    (case mf_pos f fd of
       None \<Rightarrow> (f, - EBADF, [])
     | Some p \<Rightarrow> (let new = take (128 - p) (take (nat (u32 (int (length bs)))) bs)
                  in (mf_goto fd (p + length new) (f\<lparr>mf_bytes := splice (mf_bytes f) p new\<rparr>),
                      int (length new), [])))"
| "mf_call (F_lseek fd offset whence) f =
    (case mf_pos f fd of
       None \<Rightarrow> (f, - EBADF, [])
     | Some p \<Rightarrow> (case seek_target p offset whence of
                    None \<Rightarrow> (f, - EINVAL, [])
                  | Some q \<Rightarrow> if 0 \<le> q \<and> q \<le> 128 then (mf_goto fd (nat q) f, q, [])
                               else (f, - EINVAL, [])))"
| "mf_call (F_close fd) f =
    (if mf_pos f fd = None then (f, - EBADF, []) else (f\<lparr>mf_pos := (mf_pos f)(fd := None)\<rparr>, 0, []))"

fun mf_run :: "file_call list \<Rightarrow> mem_file \<Rightarrow> mem_file \<times> (int \<times> byte list) list" where
  "mf_run [] f = (f, [])"
| "mf_run (c # cs) f = (let (g, r) = mf_call c f; (h, rs) = mf_run cs g in (h, r # rs))"

section \<open>The drivers keep it\<close>

text \<open>
  The callers' buffers are readable and writable, and an offset is a \<open>loff_t\<close>.
\<close>

fun call_fits :: "uaccess \<Rightarrow> file_call \<Rightarrow> bool" where
  "call_fits U (F_read fd buff cnt) = user_writable U buff 128"
| "call_fits U (F_write fd buff bs) = user_readable U buff bs"
| "call_fits U (F_lseek fd offset whence) =
    (- 9223372036854775808 \<le> offset \<and> offset < 9223372036854775808)"
| "call_fits U c = True"

definition file_of :: "sh_dev \<Rightarrow> (nat \<Rightarrow> int option) \<Rightarrow> mem_file" where
  "file_of d ps = \<lparr>mf_bytes = load (mem d) 0 128, mf_pos = (\<lambda>fd. map_option nat (ps fd))\<rparr>"

definition positions_ok :: "(nat \<Rightarrow> int option) \<Rightarrow> bool" where
  "positions_ok ps \<longleftrightarrow> (\<forall>fd p. ps fd = Some p \<longrightarrow> 0 \<le> p \<and> p \<le> 128)"

lemma positions_okD: "positions_ok ps \<Longrightarrow> ps fd = Some p \<Longrightarrow> 0 \<le> p \<and> p \<le> 128"
  by (simp add: positions_ok_def)

lemma positions_ok_upd: "positions_ok ps \<Longrightarrow> 0 \<le> q \<Longrightarrow> q \<le> 128 \<Longrightarrow> positions_ok (ps(fd := Some q))"
  by (simp add: positions_ok_def)

lemma positions_ok_close: "positions_ok ps \<Longrightarrow> positions_ok (ps(fd := None))"
  by (simp add: positions_ok_def)

lemma file_of_goto: "file_of d (ps(fd := Some q)) = mf_goto fd (nat q) (file_of d ps)"
  by (auto simp: file_of_def mf_goto_def)

lemma file_of_close: "file_of d (ps(fd := None)) = (file_of d ps)\<lparr>mf_pos := (mf_pos (file_of d ps))(fd := None)\<rparr>"
  by (auto simp: file_of_def)

lemma splice_load:
  assumes "p + length bs \<le> 128"
  shows "splice (load m 0 128) p bs = load (store m p bs) 0 128"
proof -
  let ?m = "store m p bs" and ?k = "128 - (p + length bs)"
  have "load ?m 0 (p + (length bs + ?k)) = load ?m 0 p @ load ?m p (length bs) @ load ?m (p + length bs) ?k"
    by (simp add: load_append)
  then show ?thesis
    using assms by (simp add: splice_def take_load drop_load store_simps min_def)
qed

lemma file_of_store:
  "p + length bs \<le> 128 \<Longrightarrow> file_of (d\<lparr>mem := store (mem d) p bs\<rparr>) ps =
    (file_of d ps)\<lparr>mf_bytes := splice (mf_bytes (file_of d ps)) p bs\<rparr>"
  by (simp add: file_of_def splice_load)

text \<open>One read and one write of a driver against the file.\<close>

lemma clip_pos:
  assumes "0 \<le> p" and "p \<le> 128"
  shows "sh_clip p cnt = (if p = 128 then None else Some (nat p, min (nat (u32 cnt)) (nat (128 - p))))"
  using assms u32_range [of cnt] by (auto simp: sh_clip_def MEM_SIZE_def wrap_simps Let_def min_def)

lemma read_matches:
  fixes d :: sh_dev and cnt :: int
  assumes "0 \<le> p" and "p \<le> 128" and "user_writable U buff 128"
  defines "out \<equiv> take (nat (u32 cnt)) (drop (nat p) (load (mem d) 0 128))"
  shows "reply_dev d (mutex_read U buff cnt p d) = d \<and>
    rw_result_of (mutex_read U buff cnt p d) = Inr (int (length out), out, p + int (length out))"
proof (cases "p = 128")
  case True
  then show ?thesis
    by (simp add: mutex_read_def sh_clip_end reply_dev_def rw_result_of_def out_def)
next
  case False
  let ?n = "min (nat (u32 cnt)) (nat (128 - p))"
  have c: "sh_clip p cnt = Some (nat p, ?n)" using clip_pos [OF assms(1,2)] False by simp
  have out: "out = load (mem d) (nat p) ?n"
    using assms(1,2) by (simp add: out_def drop_load take_load nat_diff_distrib)
  have "s64 (p + int ?n) = p + int ?n" by (rule s64_id) (use assms(1,2) in auto)
  with mutex_read_eq [OF c assms(3), of d] out show ?thesis
    by (simp add: reply_dev_def rw_result_of_def)
qed

lemma write_matches:
  fixes d :: sh_dev
  assumes "0 \<le> p" and "p \<le> 128" and "user_readable U buff bs"
  defines "new \<equiv> take (128 - nat p) (take (nat (u32 (int (length bs)))) bs)"
  defines "w \<equiv> snd (mutex_write U buff (int (length bs)) p d)"
  shows "reply_dev d w =
      d\<lparr>writecount := s32 (writecount d + 1), mem := store (mem d) (nat p) new\<rparr> \<and>
    rw_result_of w = Inr (int (length new), [], p + int (length new)) \<and> nat p + length new \<le> 128"
proof (cases "p = 128")
  case True
  then show ?thesis
    by (simp add: mutex_write_def sh_clip_end Let_def reply_dev_def rw_result_of_def new_def w_def)
next
  case False
  let ?n = "min (nat (u32 (int (length bs)))) (nat (128 - p))"
  have c: "sh_clip p (int (length bs)) = Some (nat p, ?n)" using clip_pos [OF assms(1,2)] False by simp
  have "nat (u32 (int (length bs))) \<le> length bs"
    by (simp add: u32_def nat_le_iff zmod_le_nonneg_dividend)
  then have le: "?n \<le> length bs" by simp
  have new: "new = take ?n bs"
    using assms(1,2) by (simp add: new_def min.commute nat_diff_distrib)
  have len: "length new = ?n" using le new by simp
  have "s64 (p + int ?n) = p + int ?n" by (rule s64_id) (use assms(1,2) in auto)
  then have w: "w = Inr \<lparr>r_dev = d\<lparr>writecount := s32 (writecount d + 1), mem := store (mem d) (nat p) new\<rparr>,
      r_ret = int (length new), r_user = [], r_log = [], r_loff = p + int (length new)\<rparr>"
    unfolding w_def len unfolding new using mutex_write_eq [OF c assms(3) le, of d] by (simp only:)
  have "nat p + length new \<le> 128" unfolding len using assms(1,2) by linarith
  then show ?thesis unfolding w by (simp add: reply_dev_def rw_result_of_def del: length_take)
qed

lemma seek_matches:
  assumes "0 \<le> p" and "p \<le> 128" and "- 9223372036854775808 \<le> offset" and "offset < 9223372036854775808"
  shows "mutex_llseek p offset whence =
    (case seek_target (nat p) offset whence of
       None \<Rightarrow> (p, - EINVAL)
     | Some q \<Rightarrow> if 0 \<le> q \<and> q \<le> 128 then (q, q) else (p, - EINVAL))"
proof -
  have wrap: "s64 (b + offset) < 0 \<or> 128 < s64 (b + offset) \<longleftrightarrow> b + offset < 0 \<or> 128 < b + offset"
    "\<not> (b + offset < 0 \<or> 128 < b + offset) \<Longrightarrow> s64 (b + offset) = b + offset"
    if "0 \<le> b" "b \<le> 128" for b
  proof -
    show r: "\<not> (b + offset < 0 \<or> 128 < b + offset) \<Longrightarrow> s64 (b + offset) = b + offset"
      by (rule s64_id) auto
    show "s64 (b + offset) < 0 \<or> 128 < s64 (b + offset) \<longleftrightarrow> b + offset < 0 \<or> 128 < b + offset"
    proof (cases "b + offset < 9223372036854775808")
      case True
      then have "s64 (b + offset) = b + offset" by (intro s64_id) (use that assms(3) in auto)
      then show ?thesis by simp
    next
      case False
      have "(b + offset + 9223372036854775808) mod 18446744073709551616 =
          (b + offset - 9223372036854775808) mod 18446744073709551616"
        using minus_mod_self2 [of "b + offset + 9223372036854775808" "18446744073709551616 :: int"] by simp
      also have "\<dots> = b + offset - 9223372036854775808"
        using False that assms(4) by (intro mod_pos_pos_trivial) auto
      finally have "s64 (b + offset) = b + offset - 18446744073709551616" by (simp add: s64_def)
      then show ?thesis using False that assms(4) by auto
    qed
  qed
  show ?thesis
    using wrap [of p] wrap [of 127] assms(1,2)
    by (simp add: mutex_llseek_def seek_target_def MEM_SIZE_def Let_def)
qed

lemma unuse_llseek_same: "unuse_llseek p offset whence = mutex_llseek p offset whence"
  by (auto simp: unuse_llseek_def mutex_llseek_def Let_def)

text \<open>
  A table that serves the file, with a view of its device as the share memory and a condition under
  which it never has to wait: what both drivers' tables are.
\<close>

locale file_driver =
  fixes F :: "'d file_operations" and U :: uaccess and view :: "'d \<Rightarrow> sh_dev" and ready :: "'d \<Rightarrow> bool"
  assumes open_ok: "ready d \<Longrightarrow> \<exists>d'. fo_open F d = (d', 0) \<and> ready d' \<and> mem (view d') = mem (view d)"
    and release_ok: "ready d \<Longrightarrow> \<exists>d' r. fo_release F d = (d', r) \<and> ready d' \<and> mem (view d') = mem (view d)"
    and llseek_ok: "fo_llseek F p offset whence = mutex_llseek p offset whence"
    and read_ok: "ready d \<Longrightarrow> let r = mutex_read U buff cnt p (view d) in
      \<exists>d'. fo_read F U buff cnt p d = Some (d', rw_result_of r) \<and> ready d' \<and> view d' = reply_dev (view d) r"
    and write_ok: "ready d \<Longrightarrow> let r = snd (mutex_write U buff cnt p (view d)) in
      \<exists>d'. fo_write F U buff cnt p d = Some (d', rw_result_of r) \<and> ready d' \<and> view d' = reply_dev (view d) r"
begin

definition shows_file :: "'d session \<Rightarrow> mem_file" where
  "shows_file s = file_of (view (ss_dev s)) (ss_pos s)"

definition good :: "'d session \<Rightarrow> bool" where
  "good s \<longleftrightarrow> ready (ss_dev s) \<and> positions_ok (ss_pos s)"

lemma call_read:
  assumes "good s" and "user_writable U buff 128" and "ss_pos s fd = Some p"
  shows "\<exists>t. session_call F U (F_read fd buff cnt) s =
      Some (t, Inr (snd (mf_call (F_read fd buff cnt) (shows_file s)))) \<and>
    good t \<and> shows_file t = fst (mf_call (F_read fd buff cnt) (shows_file s))"
proof -
  let ?d = "view (ss_dev s)"
  let ?out = "take (nat (u32 cnt)) (drop (nat p) (load (mem ?d) 0 128))"
  have p: "0 \<le> p" "p \<le> 128" using assms(1,3) positions_okD [of "ss_pos s" fd p] by (simp_all add: good_def)
  note r = read_matches [OF p assms(2), of ?d cnt]
  obtain d' where d': "fo_read F U buff cnt p (ss_dev s) =
      Some (d', Inr (int (length ?out), ?out, p + int (length ?out)))" "ready d'" "view d' = ?d"
    using read_ok [of "ss_dev s" buff cnt p] assms(1) unfolding Let_def good_def
    by (metis r)
  let ?t = "\<lparr>ss_dev = d', ss_pos = (ss_pos s)(fd := Some (p + int (length ?out)))\<rparr>"
  have "length ?out \<le> 128 - nat p" by simp
  then have "p + int (length ?out) \<le> 128" using p by linarith
  then have "good ?t" using assms(1) d'(2) p by (simp add: good_def positions_ok_upd)
  moreover have "shows_file ?t = mf_goto fd (nat p + length ?out) (shows_file s)"
    unfolding shows_file_def session.simps d'(3) file_of_goto using p by (simp add: nat_add_distrib)
  moreover have "mf_pos (shows_file s) fd = Some (nat p)" "mf_bytes (shows_file s) = load (mem ?d) 0 128"
    using assms(3) by (simp_all add: shows_file_def file_of_def)
  ultimately show ?thesis
    using d'(1) assms(3) by (auto simp: end_rw_def Let_def)
qed

lemma call_write:
  assumes "good s" and "user_readable U buff bs" and "ss_pos s fd = Some p"
  shows "\<exists>t. session_call F U (F_write fd buff bs) s =
      Some (t, Inr (snd (mf_call (F_write fd buff bs) (shows_file s)))) \<and>
    good t \<and> shows_file t = fst (mf_call (F_write fd buff bs) (shows_file s))"
proof -
  let ?d = "view (ss_dev s)"
  let ?new = "take (128 - nat p) (take (nat (u32 (int (length bs)))) bs)"
  have p: "0 \<le> p" "p \<le> 128" using assms(1,3) positions_okD [of "ss_pos s" fd p] by (simp_all add: good_def)
  note r = write_matches [OF p assms(2), of ?d]
  obtain d' where d': "fo_write F U buff (int (length bs)) p (ss_dev s) =
      Some (d', Inr (int (length ?new), [], p + int (length ?new)))" "ready d'"
      "mem (view d') = store (mem ?d) (nat p) ?new" and le: "nat p + length ?new \<le> 128"
  proof -
    from write_ok [of "ss_dev s" buff "int (length bs)" p] assms(1) obtain d' where
      "fo_write F U buff (int (length bs)) p (ss_dev s) =
        Some (d', rw_result_of (snd (mutex_write U buff (int (length bs)) p ?d)))" "ready d'"
      "view d' = reply_dev ?d (snd (mutex_write U buff (int (length bs)) p ?d))"
      unfolding Let_def good_def by blast
    moreover have "mem (view d') = store (mem ?d) (nat p) ?new"
      unfolding calculation(3) conjunct1 [OF r] by simp
    ultimately show thesis using that r by (metis r)
  qed
  let ?t = "\<lparr>ss_dev = d', ss_pos = (ss_pos s)(fd := Some (p + int (length ?new)))\<rparr>"
  have le': "0 \<le> p + int (length ?new)" "p + int (length ?new) \<le> 128" using p le by linarith+
  have "good ?t" using assms(1) d'(2) positions_ok_upd [OF _ le'] by (simp add: good_def del: length_take)
  moreover have "shows_file ?t =
      mf_goto fd (nat p + length ?new) ((shows_file s)\<lparr>mf_bytes := splice (mf_bytes (shows_file s)) (nat p) ?new\<rparr>)"
    unfolding shows_file_def session.simps file_of_goto
    using p d'(3) splice_load [OF le, of "mem ?d"] by (simp add: file_of_def nat_add_distrib)
  moreover have "mf_pos (shows_file s) fd = Some (nat p)"
    using assms(3) by (simp add: shows_file_def file_of_def)
  ultimately show ?thesis
    using d'(1) assms(3) by (auto simp: end_rw_def Let_def)
qed

lemma call_lseek:
  assumes "good s" and "call_fits U (F_lseek fd offset whence)" and "ss_pos s fd = Some p"
  shows "\<exists>t. session_call F U (F_lseek fd offset whence) s =
      Some (t, Inr (snd (mf_call (F_lseek fd offset whence) (shows_file s)))) \<and>
    good t \<and> shows_file t = fst (mf_call (F_lseek fd offset whence) (shows_file s))"
proof -
  have p: "0 \<le> p" "p \<le> 128" using assms(1,3) positions_okD [of "ss_pos s" fd p] by (simp_all add: good_def)
  have same: "(ss_pos s)(fd := Some p) = ss_pos s" using assms(3) by (simp add: fun_upd_idem)
  have m: "mf_pos (shows_file s) fd = Some (nat p)"
    using assms(3) by (simp add: shows_file_def file_of_def)
  have "mutex_llseek p offset whence =
    (case seek_target (nat p) offset whence of
       None \<Rightarrow> (p, - EINVAL)
     | Some q \<Rightarrow> if 0 \<le> q \<and> q \<le> 128 then (q, q) else (p, - EINVAL))"
    using seek_matches [OF p, of offset whence] assms(2) by simp
  with m same assms(1,3) show ?thesis
    by (auto simp: llseek_ok good_def shows_file_def file_of_goto positions_ok_upd split: option.splits)
qed

lemma call_matches:
  assumes "good s" and "call_fits U c"
  shows "\<exists>t. session_call F U c s = Some (t, Inr (snd (mf_call c (shows_file s)))) \<and>
    good t \<and> shows_file t = fst (mf_call c (shows_file s))"
proof (cases c)
  case (F_open fd)
  obtain d' where d': "fo_open F (ss_dev s) = (d', 0)" "ready d'" "mem (view d') = mem (view (ss_dev s))"
    using open_ok assms(1) unfolding good_def by blast
  show ?thesis
  proof (cases "ss_pos s fd")
    case None
    have "file_of (view d') ((ss_pos s)(fd := Some 0)) = mf_goto fd 0 (shows_file s)"
      unfolding file_of_goto using d'(3) by (simp add: file_of_def shows_file_def)
    with None F_open d' assms(1) show ?thesis
      by (auto simp: good_def shows_file_def file_of_def positions_ok_upd)
  next
    case (Some p)
    with F_open assms(1) show ?thesis by (simp add: shows_file_def file_of_def)
  qed
next
  case (F_close fd)
  obtain d' r where d': "fo_release F (ss_dev s) = (d', r)" "ready d'"
      "mem (view d') = mem (view (ss_dev s))"
    using release_ok assms(1) unfolding good_def by blast
  show ?thesis
  proof (cases "ss_pos s fd")
    case None
    with F_close assms(1) show ?thesis by (simp add: shows_file_def file_of_def)
  next
    case (Some p)
    have "file_of (view d') ((ss_pos s)(fd := None)) = (shows_file s)\<lparr>mf_pos := (mf_pos (shows_file s))(fd := None)\<rparr>"
      unfolding file_of_close using d'(3) by (simp add: file_of_def shows_file_def)
    with Some F_close d' assms(1) show ?thesis
      by (auto simp: good_def shows_file_def file_of_def positions_ok_close)
  qed
next
  case (F_read fd buff cnt)
  then show ?thesis using call_read [OF assms(1)] assms
    by (cases "ss_pos s fd") (auto simp: shows_file_def file_of_def)
next
  case (F_write fd buff bs)
  then show ?thesis using call_write [OF assms(1)] assms
    by (cases "ss_pos s fd") (auto simp: shows_file_def file_of_def)
next
  case (F_lseek fd offset whence)
  then show ?thesis using call_lseek [OF assms(1)] assms
    by (cases "ss_pos s fd") (auto simp: shows_file_def file_of_def)
qed

lemma run_matches:
  "good s \<Longrightarrow> list_all (call_fits U) cs \<Longrightarrow>
    \<exists>t. session_run F U cs s = Some (t, map Inr (snd (mf_run cs (shows_file s)))) \<and>
      good t \<and> shows_file t = fst (mf_run cs (shows_file s))"
proof (induction cs arbitrary: s)
  case Nil
  then show ?case by simp
next
  case (Cons c cs)
  obtain t where t: "session_call F U c s = Some (t, Inr (snd (mf_call c (shows_file s))))" "good t"
      "shows_file t = fst (mf_call c (shows_file s))"
    using call_matches [OF Cons.prems(1), of c] Cons.prems(2) by auto
  from Cons.IH [OF t(2)] Cons.prems(2) obtain u where
    "session_run F U cs t = Some (u, map Inr (snd (mf_run cs (shows_file t))))" "good u"
    "shows_file u = fst (mf_run cs (shows_file t))" by auto
  with t show ?case by (simp add: case_prod_beta)
qed

end

interpretation unuse: file_driver unuse_myfops U "\<lambda>d. d" "\<lambda>d. True" for U
  by unfold_locales (auto simp: unuse_myfops_def unuse_open_def unuse_release_def unuse_llseek_same Let_def)

text \<open>With the mutex as a parameter its specification is part of what makes the table ready.\<close>

definition mutex_ready :: "'l mutex_ops \<Rightarrow> ('l \<Rightarrow> nat option) \<Rightarrow> sh_dev \<times> 'l \<Rightarrow> bool" where
  "mutex_ready M holder x \<longleftrightarrow> mutex_spec M holder \<and> holder (snd x) = None"

interpretation use: file_driver "use_myfops M i" U fst "mutex_ready M holder" for M i U holder
proof unfold_locales
  fix x :: "sh_dev \<times> 'a" and buff cnt p
  assume "mutex_ready M holder x"
  then obtain d l where x: "x = (d, l)" "mutex_spec M holder" "holder l = None"
    by (cases x) (auto simp: mutex_ready_def)
  show "let r = mutex_read U buff cnt p (fst x) in \<exists>d'. fo_read (use_myfops M i) U buff cnt p x =
      Some (d', rw_result_of r) \<and> mutex_ready M holder d' \<and> fst d' = reply_dev (fst x) r"
    using locked_calls_alone(1) [OF x(2,3), of i U buff cnt p d] x
    by (auto simp: use_myfops_def Let_def mutex_ready_def)
  show "let r = snd (mutex_write U buff cnt p (fst x)) in \<exists>d'. fo_write (use_myfops M i) U buff cnt p x =
      Some (d', rw_result_of r) \<and> mutex_ready M holder d' \<and> fst d' = reply_dev (fst x) r"
    using locked_calls_alone(2) [OF x(2,3), of i U buff cnt p d] x
    by (auto simp: use_myfops_def Let_def mutex_ready_def)
qed (auto simp: use_myfops_def mutex_open_def mutex_release_def mutex_ready_def)

section \<open>The test program of \<open>unuseMutex\<close>\<close>

text \<open>
  The thread function of \<open>unuseMutex/app.c\<close> as the calls it makes: threads 0 and 1 write five times
  \<open>tid + 'A'\<close>, thread 2 reads. \<open>wr\<close> and \<open>rd\<close> are where its buffers lie, \<open>fd\<close> the file that \<open>open\<close> gives.
\<close>

definition unuse_thread_calls :: "int \<Rightarrow> int \<Rightarrow> nat \<Rightarrow> nat \<Rightarrow> file_call list" where
  "unuse_thread_calls wr rd tid fd =
    F_open fd #
    (if tid = 0 \<or> tid = 1 then [F_lseek fd 0 0, F_write fd wr (replicate 5 (of_nat (tid + 65)))]
     else if tid = 2 then [F_lseek fd 0 0, F_read fd rd 5]
     else []) @
    [F_close fd]"

text \<open>One writer and then the reader, whatever was in the memory: the reader gets the five letters.\<close>

lemma unuse_threads_in_turn:
  assumes "tid = 0 \<or> tid = 1" and "user_readable U wr (replicate 5 (of_nat (tid + 65)))"
    and "user_writable U rd 128"
  shows "\<exists>t rs. session_run unuse_myfops U (unuse_thread_calls wr rd tid 3 @ unuse_thread_calls wr rd 2 3)
      \<lparr>ss_dev = d, ss_pos = (\<lambda>_. None)\<rparr> = Some (t, rs) \<and>
    rs ! 6 = Inr (5, replicate 5 (of_nat (tid + 65)))"
proof -
  let ?cs = "unuse_thread_calls wr rd tid 3 @ unuse_thread_calls wr rd 2 3"
  let ?s = "\<lparr>ss_dev = d, ss_pos = (\<lambda>_. None)\<rparr>" and ?l = "replicate 5 (of_nat (tid + 65)) :: byte list"
  have fits: "list_all (call_fits U) ?cs"
    using assms by (auto simp: unuse_thread_calls_def)
  have good: "unuse.good ?s" by (simp add: unuse.good_def positions_ok_def)
  obtain t where t: "session_run unuse_myfops U ?cs ?s = Some (t, map Inr (snd (mf_run ?cs (unuse.shows_file ?s))))"
    using unuse.run_matches [OF good fits] by blast
  have "snd (mf_run ?cs (file_of d (\<lambda>_. None))) =
      [(3, []), (0, []), (5, []), (0, []), (3, []), (0, []), (5, ?l), (0, [])]"
    using assms(1) by (auto simp: unuse_thread_calls_def mf_goto_def file_of_def seek_target_def splice_def
      u32_def Let_def)
  with t show ?thesis by (simp add: unuse.shows_file_def)
qed

section \<open>Properties\<close>

text \<open>
  C10. Both share-memory drivers are a file of 128 bytes. Whatever a program does through their tables of
  file operations, opening, reading, writing, seeking and closing any number of files in any order, at
  any size and offset, every call returns what the file promises and leaves the bytes and the positions
  that it promises; nothing faults and, with the mutex free at the start, nothing waits and the mutex is
  free at the end.
\<close>

theorem sh_session_refines_file:
  assumes "list_all (call_fits U) cs" and "positions_ok ps"
  shows "(\<exists>d' ps'. session_run unuse_myfops U cs \<lparr>ss_dev = d, ss_pos = ps\<rparr> =
        Some (\<lparr>ss_dev = d', ss_pos = ps'\<rparr>, map Inr (snd (mf_run cs (file_of d ps)))) \<and>
      positions_ok ps' \<and> file_of d' ps' = fst (mf_run cs (file_of d ps))) \<and>
    (mutex_spec M holder \<and> holder l = None \<longrightarrow>
      (\<exists>d' l' ps'. session_run (use_myfops M i) U cs \<lparr>ss_dev = (d, l), ss_pos = ps\<rparr> =
          Some (\<lparr>ss_dev = (d', l'), ss_pos = ps'\<rparr>, map Inr (snd (mf_run cs (file_of d ps)))) \<and>
        holder l' = None \<and> positions_ok ps' \<and> file_of d' ps' = fst (mf_run cs (file_of d ps))))"
proof (intro conjI impI)
  show "\<exists>d' ps'. session_run unuse_myfops U cs \<lparr>ss_dev = d, ss_pos = ps\<rparr> =
        Some (\<lparr>ss_dev = d', ss_pos = ps'\<rparr>, map Inr (snd (mf_run cs (file_of d ps)))) \<and>
      positions_ok ps' \<and> file_of d' ps' = fst (mf_run cs (file_of d ps))"
  proof -
    have "unuse.good \<lparr>ss_dev = d, ss_pos = ps\<rparr>" using assms(2) by (simp add: unuse.good_def)
    from unuse.run_matches [OF this assms(1)] obtain t where
      "session_run unuse_myfops U cs \<lparr>ss_dev = d, ss_pos = ps\<rparr> =
        Some (t, map Inr (snd (mf_run cs (file_of d ps))))" "positions_ok (ss_pos t)"
      "file_of (ss_dev t) (ss_pos t) = fst (mf_run cs (file_of d ps))"
      by (auto simp: unuse.shows_file_def unuse.good_def)
    then show ?thesis by (cases t) auto
  qed
next
  assume m: "mutex_spec M holder \<and> holder l = None"
  have "use.good M holder \<lparr>ss_dev = (d, l), ss_pos = ps\<rparr>"
    using m assms(2) by (simp add: use.good_def mutex_ready_def)
  from use.run_matches [OF this assms(1), of i] obtain t where
    t: "session_run (use_myfops M i) U cs \<lparr>ss_dev = (d, l), ss_pos = ps\<rparr> =
        Some (t, map Inr (snd (mf_run cs (file_of d ps))))" "use.good M holder t"
      "file_of (fst (ss_dev t)) (ss_pos t) = fst (mf_run cs (file_of d ps))"
    by (auto simp: use.shows_file_def)
  obtain d' l' ps' where "t = \<lparr>ss_dev = (d', l'), ss_pos = ps'\<rparr>"
    by (cases t) auto
  with t show "\<exists>d' l' ps'. session_run (use_myfops M i) U cs \<lparr>ss_dev = (d, l), ss_pos = ps\<rparr> =
          Some (\<lparr>ss_dev = (d', l'), ss_pos = ps'\<rparr>, map Inr (snd (mf_run cs (file_of d ps)))) \<and>
        holder l' = None \<and> positions_ok ps' \<and> file_of d' ps' = fst (mf_run cs (file_of d ps))"
    by (auto simp: use.good_def mutex_ready_def)
qed

text \<open>Two files on the device: the second sees what was written through the first.\<close>

definition two_files :: "file_call list" where
  "two_files = [F_open 3, F_open 4, F_lseek 3 (- 2) 2, F_write 3 0 [1, 2, 3, 4], F_lseek 4 125 0,
     F_read 4 9 10, F_close 3, F_read 3 9 10]"

theorem sh_session_refines_file_witness:
  "\<exists>t. session_run (use_myfops option_mutex 0) (flat_uaccess 0 [1, 2, 3, 4]) two_files
      \<lparr>ss_dev = (\<lparr>mem = (\<lambda>_. 0), writecount = 0\<rparr>, None), ss_pos = (\<lambda>_. None)\<rparr> =
    Some (t, map Inr [(3, []), (4, []), (125, []), (3, []), (125, []), (3, [1, 2, 3]), (0, []), (- 9, [])])"
proof -
  have r: "snd (mf_run two_files (file_of \<lparr>mem = (\<lambda>_. 0), writecount = 0\<rparr> (\<lambda>_. None))) =
      [(3, []), (4, []), (125, []), (3, []), (125, []), (3, [1, 2, 3]), (0, []), (- 9, [])]"
    by (simp add: two_files_def mf_goto_def file_of_def seek_target_def splice_def u32_def load_def Let_def)
  have fits: "list_all (call_fits (flat_uaccess 0 [1, 2, 3, 4])) two_files" by (simp add: two_files_def)
  have ps: "positions_ok (\<lambda>_. None)" by (simp add: positions_ok_def)
  have m: "mutex_spec option_mutex id \<and> id None = None" using option_mutex_spec by simp
  from sh_session_refines_file [OF fits ps, of "\<lparr>mem = (\<lambda>_. 0), writecount = 0\<rparr>" option_mutex id None 0] m
  show ?thesis unfolding r by blast
qed

end
