(* ===== verification/Share_Mem_App.thy ===== *)
theory Share_Mem_App
  imports Share_Mem_Threads
begin

text \<open>
  The whole test program \<open>app.c\<close> of the mutex example: \<open>main\<close> creates three threads one after
  another, each of which allocates its buffers, opens the device, makes its call and leaves. Every
  call of the C library is given its result by \<open>app_env\<close>. The process can end early, when a creation
  fails or a thread uses a buffer \<open>malloc\<close> did not give it; a thread inside a call then still finishes
  it, because the kernel's \<open>mutex_lock\<close> and the copy loops do not look for signals.
  A state of the program simulates a state of Share_Mem_Threads in which the
  threads that have not made their call are there but have not moved.
\<close>

section \<open>The program\<close>

definition NUM_THREADS :: nat where
  "NUM_THREADS = 3"

text \<open>
  For each thread what \<open>pthread_create\<close>, \<open>open\<close> and the two \<open>malloc\<close> give it (an address, 0 for none),
  and what the reader's buffer holds before.
\<close>

record app_env =
  created :: "nat \<Rightarrow> int"
  opened :: "nat \<Rightarrow> int"
  wrbuf :: "nat \<Rightarrow> int"
  rdbuf :: "nat \<Rightarrow> int"
  rdbuf_old :: "byte list"

datatype main_pc = Creating nat | Main_exit | Exit_failed int

text \<open>
  A worker: not created, before \<open>open\<close>, before its call, in it (Share_Mem_Threads says where), and gone.
\<close>

datatype worker_pc = A_none | A_start | A_ready | A_call | A_gone

datatype app_thread = Main_thread | Worker nat

record 'l prog =
  sm :: "'l sm_sys"
  main :: main_pc
  workers :: "nat \<Rightarrow> worker_pc"
  killed :: bool
  shown :: "byte list option"

text \<open>The calls of the workers, five bytes at position 0: threads 0 and 1 write, thread 2 reads.\<close>

definition prog_call :: "app_env \<Rightarrow> nat \<Rightarrow> sh_call" where
  "prog_call e i = \<lparr>writing = (i < 2), cbuf = (if i < 2 then wrbuf e i else rdbuf e i), ccnt = 5, coff = 0\<rparr>"

text \<open>\<open>exit (-1)\<close> after a failed creation ends the process, \<open>pthread_exit\<close> at the end does not.\<close>

definition main_step :: "app_env \<Rightarrow> 'l prog \<Rightarrow> 'l prog option" where
  "main_step e s =
    (if killed s then None else
     case main s of
       Creating k \<Rightarrow>
         if k < NUM_THREADS
         then if created e k = 0
              then Some (s\<lparr>workers := (workers s)(k := A_start), main := Creating (Suc k)\<rparr>)
              else Some (s\<lparr>main := Exit_failed (- 1), killed := True\<rparr>)
         else Some (s\<lparr>main := Main_exit\<rparr>)
     | _ \<Rightarrow> None)"

text \<open>
  A worker whose \<open>open\<close> failed prints so and leaves. A writer fills its buffer before the call and the
  reader prints its buffer after it, whatever the call returned: without a buffer that is the
  end of the process.
\<close>

definition worker_step :: "app_env \<Rightarrow> ('l sm_sys \<Rightarrow> 'l sm_sys option) \<Rightarrow> nat \<Rightarrow> 'l prog \<Rightarrow> 'l prog option" where
  "worker_step e step k s =
    (let to = (\<lambda>w. (workers s)(k := w)) in
     case workers s k of
       A_start \<Rightarrow> if killed s then None
         else Some (s\<lparr>workers := to (if opened e k < 0 then A_gone else A_ready)\<rparr>)
     | A_ready \<Rightarrow> if killed s then None
         else if k < 2 \<and> wrbuf e k = 0 then Some (s\<lparr>killed := True\<rparr>)
         else Some (s\<lparr>sm := (sm s)\<lparr>pcs := (pcs (sm s))(k := T_start)\<rparr>, workers := to A_call\<rparr>)
     | A_call \<Rightarrow>
         (case pcs (sm s) k of
            T_done ret out \<Rightarrow> if killed s then None
              else if 2 \<le> k \<and> rdbuf e k = 0 then Some (s\<lparr>killed := True\<rparr>)
              else Some (s\<lparr>workers := to A_gone,
                shown := if k < 2 then shown s else Some (take 5 (out @ drop (length out) (rdbuf_old e)))\<rparr>)
          | _ \<Rightarrow> (case step (sm s) of None \<Rightarrow> None | Some t \<Rightarrow> Some (s\<lparr>sm := t\<rparr>)))
     | _ \<Rightarrow> None)"

definition app_step :: "app_env \<Rightarrow> 'l mutex_ops \<Rightarrow> uaccess \<Rightarrow> app_thread \<Rightarrow> 'l prog \<Rightarrow> 'l prog option" where
  "app_step e M U i s =
    (case i of Main_thread \<Rightarrow> main_step e s
     | Worker k \<Rightarrow> worker_step e (sm_tstep True M U (prog_call e) k) k s)"


definition app_start :: "'l mutex_ops \<Rightarrow> ('l \<Rightarrow> nat option) \<Rightarrow> uaccess \<Rightarrow> kmem \<Rightarrow> 'l prog \<Rightarrow> bool" where
  "app_start M holder U m0 s \<longleftrightarrow> main s = Creating 0 \<and> workers s = (\<lambda>_. A_none) \<and> \<not> killed s \<and>
    shown s = None \<and> pcs (sm s) = (\<lambda>_. T_idle) \<and>
    mutex_spec M holder \<and> uaccess_ok U \<and> holder (lock (sm s)) = None \<and> order (sm s) = [] \<and>
    mem (dev (sm s)) = m0"

text \<open>
  What user memory is: the buffers that were allocated are mapped, and a writer's, once filled, holds its
  letter five times.
\<close>

definition letter :: "nat \<Rightarrow> byte" where
  "letter i = (if i = 0 then 0x41 else 0x42)"

definition app_buffers :: "app_env \<Rightarrow> uaccess \<Rightarrow> bool" where
  "app_buffers e U \<longleftrightarrow>
    (\<forall>i<2. wrbuf e i \<noteq> 0 \<longrightarrow> user_readable U (wrbuf e i) (replicate 5 (letter i))) \<and>
    (rdbuf e 2 \<noteq> 0 \<longrightarrow> user_writable U (rdbuf e 2) 5)"

text \<open>An environment in which nothing fails that ends the process.\<close>

definition env_good :: "app_env \<Rightarrow> bool" where
  "env_good e \<longleftrightarrow> (\<forall>k<3. created e k = 0) \<and> wrbuf e 0 \<noteq> 0 \<and> wrbuf e 1 \<noteq> 0 \<and> rdbuf e 2 \<noteq> 0"

section \<open>The calls\<close>

lemma prog_call_simps [simp]:
  "writing (prog_call e i) \<longleftrightarrow> i < 2" "cbuf (prog_call e i) = (if i < 2 then wrbuf e i else rdbuf e i)"
  "ccnt (prog_call e i) = 5" "coff (prog_call e i) = 0"
  by (simp_all add: prog_call_def)

lemma prog_clip: "sh_clip (coff (prog_call e i)) (ccnt (prog_call e i)) = Some (0, 5)"
  using sh_clip_inside [of 0 5] by simp

lemma prog_job_bytes:
  assumes "app_buffers e U" and "i < 2" and "wrbuf e i \<noteq> 0"
  shows "job_bytes U (prog_call e i) 5 = replicate 5 (letter i)"
proof -
  have "user_readable U (wrbuf e i) (replicate 5 (letter i))"
    using assms by (simp add: app_buffers_def)
  then have b: "copy_from_user U (wrbuf e i + int k) 1 = ([letter i], 0)" if "k < 5" for k
    using user_readable_nth [of U "wrbuf e i" "replicate 5 (letter i)" k] that by simp
  have "job_bytes U (prog_call e i) n = replicate n (letter i)" if "n \<le> 5" for n
    using that
  proof (induction n)
    case 0
    then show ?case by (simp add: job_bytes_def)
  next
    case (Suc n)
    then show ?case using b [of n] assms(2) by (simp add: job_bytes_Suc replicate_append_same)
  qed
  then show ?thesis by simp
qed

lemma prog_serial_mem:
  assumes "uaccess_ok U" and "app_buffers e U" and "\<forall>i \<in> set is. i < 2 \<longrightarrow> wrbuf e i \<noteq> 0"
  shows "load (serial_mem U (prog_call e) is m0) 0 5 \<in>
    {load m0 0 5, replicate 5 (letter 0), replicate 5 (letter 1)}"
  using assms(3)
proof (induction "is" rule: rev_induct)
  case Nil
  then show ?case by simp
next
  case (snoc i "is")
  show ?case
  proof (cases "i < 2")
    case True
    then have "solo_mem U (prog_call e i) m = store m 0 (replicate 5 (letter i))" for m
      using solo_mem_eq [OF assms(1) prog_clip] prog_job_bytes [OF assms(2) True] snoc.prems by simp
    then show ?thesis
      using load_store_same [of "serial_mem U (prog_call e) is m0" 0 "replicate 5 (letter i)"] True
      by (auto simp: less_2_cases_iff)
  next
    case False
    then show ?thesis
      using snoc solo_mem_eq [OF assms(1) prog_clip] by simp
  qed
qed

section \<open>The simulation\<close>

text \<open>The threads that have not made their call, as threads that have not moved.\<close>

definition awake_all :: "(nat \<Rightarrow> sm_pc) \<Rightarrow> nat \<Rightarrow> sm_pc" where
  "awake_all f i = (if i < 3 \<and> f i = T_idle then T_start else f i)"

definition all_created :: "'l prog \<Rightarrow> 'l sm_sys" where
  "all_created s = (sm s)\<lparr>pcs := awake_all (pcs (sm s))\<rparr>"

lemma awake_all_upd:
  "pc \<noteq> T_idle \<Longrightarrow> awake_all (f(k := pc)) = (awake_all f)(k := pc)"
  "f k = T_idle \<Longrightarrow> k < 3 \<Longrightarrow> awake_all (f(k := T_start)) = awake_all f"
  by (auto simp: awake_all_def fun_eq_iff)

lemma awake_all_simps [simp]:
  "f i \<noteq> T_idle \<Longrightarrow> awake_all f i = f i"
  "awake_all (\<lambda>_. T_idle) = (\<lambda>i. if i < 3 then T_start else T_idle)"
  by (auto simp: awake_all_def)

lemma awake_all_iff [simp]:
  "inside (awake_all f i) = inside (f i)" "completed (awake_all f i) = completed (f i)"
  by (auto simp: awake_all_def)

lemma all_created_simps [simp]:
  "lock (all_created s) = lock (sm s)" "order (all_created s) = order (sm s)"
  "dev (all_created s) = dev (sm s)" "pcs (all_created s) = awake_all (pcs (sm s))"
  by (simp_all add: all_created_def)

fun none_from :: "main_pc \<Rightarrow> nat \<Rightarrow> worker_pc \<Rightarrow> bool" where
  "none_from (Creating k) i w = (k \<le> 3 \<and> (w = A_none \<longleftrightarrow> k \<le> i))"
| "none_from Main_exit i w = (w = A_none \<longleftrightarrow> 3 \<le> i)"
| "none_from (Exit_failed c) i w = (3 \<le> i \<longrightarrow> w = A_none)"

text \<open>Where a worker is and how far its call has come.\<close>

fun worker_ok :: "app_env \<Rightarrow> nat \<Rightarrow> sm_pc \<Rightarrow> worker_pc \<Rightarrow> bool" where
  "worker_ok e i pc A_none = (pc = T_idle)"
| "worker_ok e i pc A_start = (pc = T_idle)"
| "worker_ok e i pc A_ready = (pc = T_idle \<and> 0 \<le> opened e i)"
| "worker_ok e i pc A_call = (pc \<noteq> T_idle \<and> 0 \<le> opened e i \<and> (i < 2 \<longrightarrow> wrbuf e i \<noteq> 0))"
| "worker_ok e i pc A_gone = (if opened e i < 0 then pc = T_idle
     else completed pc \<and> (i < 2 \<longrightarrow> wrbuf e i \<noteq> 0))"

definition shown_ok :: "app_env \<Rightarrow> 'l prog \<Rightarrow> bool" where
  "shown_ok e s \<longleftrightarrow> (\<forall>bs. shown s = Some bs \<longrightarrow> rdbuf e 2 \<noteq> 0 \<and>
    (\<exists>ret out. pcs (sm s) 2 = T_done ret out \<and> bs = take 5 (out @ drop (length out) (rdbuf_old e))))"

definition prog_inv :: "app_env \<Rightarrow> 'l mutex_ops \<Rightarrow> ('l \<Rightarrow> nat option) \<Rightarrow> uaccess \<Rightarrow> kmem \<Rightarrow> 'l prog \<Rightarrow> bool" where
  "prog_inv e M holder U m0 s \<longleftrightarrow> sm_inv M holder U (prog_call e) 3 m0 (all_created s) \<and>
    (\<forall>i. none_from (main s) i (workers s i)) \<and> (\<forall>i. worker_ok e i (pcs (sm s) i) (workers s i)) \<and>
    shown_ok e s \<and> (killed s \<longrightarrow> \<not> env_good e) \<and> ((\<exists>c. main s = Exit_failed c) \<longrightarrow> killed s)"

lemma app_start_created:
  assumes "app_start M holder U m0 s"
  shows "sm_start M holder U 3 m0 (all_created s)"
  using assms by (auto simp: app_start_def sm_start_def)

lemma app_start_inv: "app_start M holder U m0 s \<Longrightarrow> prog_inv e M holder U m0 s"
  using sm_start_inv [OF app_start_created, of M holder U m0 s "prog_call e"]
  by (simp add: prog_inv_def app_start_def shown_ok_def)

fun main_left :: "main_pc \<Rightarrow> nat" where
  "main_left (Creating k) = 4 - k"
| "main_left pc = 0"

fun worker_left :: "worker_pc \<Rightarrow> nat" where
  "worker_left A_none = 3"
| "worker_left A_start = 3"
| "worker_left A_ready = 2"
| "worker_left A_call = 1"
| "worker_left A_gone = 0"

definition own_work :: "'l prog \<Rightarrow> nat" where
  "own_work s = main_left (main s) + (\<Sum>i<3. worker_left (workers s i)) + (if killed s then 0 else 1)"

text \<open>A step of the program itself, one that leaves the simulated state.\<close>

definition own_step :: "app_env \<Rightarrow> 'l prog \<Rightarrow> 'l prog \<Rightarrow> bool" where
  "own_step e s t \<longleftrightarrow> all_created t = all_created s \<and>
    (\<forall>i. none_from (main t) i (workers t i)) \<and> (\<forall>i. worker_ok e i (pcs (sm t) i) (workers t i)) \<and>
    shown_ok e t \<and> (killed t \<longrightarrow> \<not> env_good e) \<and> ((\<exists>c. main t = Exit_failed c) \<longrightarrow> killed t) \<and>
    own_work t < own_work s"

lemma left_less:
  assumes "k < 3" and "worker_left w < worker_left (f k)"
  shows "(\<Sum>i<3. worker_left ((f(k := w)) i)) < (\<Sum>i<(3 :: nat). worker_left (f i))"
  by (rule sum_strict_mono_ex1) (use assms in \<open>auto intro!: bexI [of _ k]\<close>)

lemma main_step_own:
  assumes "prog_inv e M holder U m0 s" and "main_step e s = Some t"
  shows "own_step e s t"
proof -
  note inv = assms(1) [unfolded prog_inv_def]
  have alive: "\<not> killed s" using assms(2) by (auto simp: main_step_def)
  show ?thesis
  proof (cases "main s")
    case (Creating k)
    have k: "k \<le> 3" and none: "\<And>i. workers s i = A_none \<longleftrightarrow> k \<le> i"
      using inv Creating by (auto simp: all_conj_distrib)
    consider (made) "k < 3" "created e k = 0" | (failed) "k < 3" "created e k \<noteq> 0" | (through) "k = 3"
      using k by linarith
    then show ?thesis
    proof cases
      case made
      have t: "t = s\<lparr>workers := (workers s)(k := A_start), main := Creating (Suc k)\<rparr>"
        using assms(2) alive Creating made by (simp add: main_step_def NUM_THREADS_def)
      have "workers s k = A_none" using none by simp
      then have w: "worker_ok e k (pcs (sm s) k) A_none" using inv by metis
      have "(\<Sum>i<3. worker_left (((workers s)(k := A_start)) i)) \<le> (\<Sum>i<3. worker_left (workers s i))"
        by (rule sum_mono) (use \<open>workers s k = A_none\<close> in auto)
      moreover have "none_from (main t) i (workers t i)" for i
        using none [of i] made by (auto simp: t)
      moreover have "3 - k < 4 - k" using made by arith
      ultimately show ?thesis
        using inv w Creating by (auto simp: own_step_def own_work_def shown_ok_def t all_created_def)
    next
      case failed
      have t: "t = s\<lparr>main := Exit_failed (- 1), killed := True\<rparr>"
        using assms(2) alive Creating failed by (simp add: main_step_def NUM_THREADS_def)
      have "\<not> env_good e" using failed by (auto simp: env_good_def)
      then show ?thesis
        using inv none failed Creating alive
        by (auto simp: own_step_def own_work_def shown_ok_def t all_created_def)
    next
      case through
      have t: "t = s\<lparr>main := Main_exit\<rparr>"
        using assms(2) alive Creating through by (simp add: main_step_def NUM_THREADS_def)
      then show ?thesis
        using inv none through Creating alive
        by (auto simp: own_step_def own_work_def shown_ok_def t all_created_def)
    qed
  qed (use assms(2) alive in \<open>simp_all add: main_step_def\<close>)
qed


text \<open>A worker's step is one of the program, or one of its call.\<close>

lemma sm_tstep_others:
  assumes "sm_tstep b M U call k s = Some t"
  shows "pcs s k \<noteq> T_idle \<and> \<not> completed (pcs s k) \<and> (\<exists>pc. pc \<noteq> T_idle \<and> pcs t = (pcs s)(k := pc))"
  using assms
  by (auto simp: sm_tstep_def Let_def split: sm_pc.splits if_splits option.splits prod.splits)

lemma sm_tstep_awake:
  assumes "sm_tstep b M U call k s = Some t"
  shows "sm_tstep b M U call k (s\<lparr>pcs := awake_all (pcs s)\<rparr>) = Some (t\<lparr>pcs := awake_all (pcs t)\<rparr>)"
  using assms
  by (auto simp: sm_tstep_def Let_def awake_all_upd split: sm_pc.splits if_splits option.splits prod.splits)

definition call_step :: "app_env \<Rightarrow> 'l mutex_ops \<Rightarrow> uaccess \<Rightarrow> nat \<Rightarrow> 'l prog \<Rightarrow> 'l prog \<Rightarrow> bool" where
  "call_step e M U k s t \<longleftrightarrow> (\<exists>u. sm_tstep True M U (prog_call e) k (sm s) = Some u \<and> t = s\<lparr>sm := u\<rparr> \<and>
    workers s k = A_call)"

lemma worker_small:
  assumes "prog_inv e M holder U m0 s" and "workers s k \<noteq> A_none"
  shows "k < 3"
proof -
  have "none_from (main s) k (workers s k)" using assms(1) by (simp add: prog_inv_def)
  then show ?thesis using assms(2) by (cases "main s") auto
qed

lemma worker_step_cases:
  assumes "prog_inv e M holder U m0 s" and "worker_step e (sm_tstep True M U (prog_call e) k) k s = Some t"
  shows "own_step e s t \<or> call_step e M U k s t"
proof -
  note inv = assms(1) [unfolded prog_inv_def]
  have live: "workers s k \<noteq> A_none" using assms(2) by (auto simp: worker_step_def)
  then have k: "k < 3" by (rule worker_small [OF assms(1)])
  have none: "none_from (main s) i (((workers s)(k := w)) i)" if "w \<noteq> A_none" for i w
    using inv live that by (cases "main s") auto
  have ok: "worker_ok e k (pcs (sm s) k) (workers s k)" using inv by blast
  have less: "own_work t < own_work s" if "workers t = (workers s)(k := w)" "worker_left w < worker_left (workers s k)"
    "main t = main s" "killed t = killed s" for w
    using left_less [where f = "workers s" and k = k and w = w] k that by (simp add: own_work_def)
  have dies: "own_step e s (s\<lparr>killed := True\<rparr>)" if "\<not> env_good e" "\<not> killed s"
    using inv that by (auto simp: own_step_def own_work_def shown_ok_def all_created_def)
  show ?thesis
  proof (cases "workers s k")
    case A_start
    then have t: "\<not> killed s" "t = s\<lparr>workers := (workers s)(k := if opened e k < 0 then A_gone else A_ready)\<rparr>"
      using assms(2) by (auto simp: worker_step_def split: if_splits)
    have "worker_left (if opened e k < 0 then A_gone else A_ready) < worker_left (workers s k)"
      using A_start by (cases "opened e k < 0") simp_all
    then have "own_work t < own_work s" by (intro less) (simp_all add: t)
    then show ?thesis
      using inv none ok A_start t by (auto simp: own_step_def shown_ok_def all_created_def)
  next
    case A_ready
    show ?thesis
    proof (cases "k < 2 \<and> wrbuf e k = 0")
      case True
      then have t: "\<not> killed s" "t = s\<lparr>killed := True\<rparr>"
        using assms(2) A_ready by (auto simp: worker_step_def split: if_splits)
      have "\<not> env_good e" using True by (auto simp: env_good_def less_2_cases_iff)
      then show ?thesis using dies t by simp
    next
      case False
      then have t: "\<not> killed s"
        "t = s\<lparr>sm := (sm s)\<lparr>pcs := (pcs (sm s))(k := T_start)\<rparr>, workers := (workers s)(k := A_call)\<rparr>"
        using assms(2) A_ready by (auto simp: worker_step_def split: if_splits)
      have "own_work t < own_work s" by (rule less [of A_call]) (use A_ready in \<open>simp_all add: t\<close>)
      moreover have "all_created t = all_created s"
        using ok A_ready k by (simp add: t all_created_def awake_all_upd(2))
      moreover have "shown_ok e t" using inv ok A_ready by (auto simp: shown_ok_def t)
      ultimately show ?thesis
        using inv none ok A_ready t False by (auto simp: own_step_def)
    qed
  next
    case A_call
    show ?thesis
    proof (cases "pcs (sm s) k")
      case (T_done ret out)
      show ?thesis
      proof (cases "2 \<le> k \<and> rdbuf e k = 0")
        case True
        then have t: "\<not> killed s" "t = s\<lparr>killed := True\<rparr>"
          using assms(2) A_call T_done by (auto simp: worker_step_def split: if_splits)
        have "k = 2" using True k by simp
        then have "\<not> env_good e" using True by (auto simp: env_good_def)
        then show ?thesis using dies t by simp
      next
        case False
        then have t: "\<not> killed s" "t = s\<lparr>workers := (workers s)(k := A_gone),
            shown := if k < 2 then shown s else Some (take 5 (out @ drop (length out) (rdbuf_old e)))\<rparr>"
          using assms(2) A_call T_done by (auto simp: worker_step_def split: if_splits)
        have "own_work t < own_work s" by (rule less [of A_gone]) (use A_call in \<open>simp_all add: t\<close>)
        moreover have "shown_ok e t"
        proof (cases "k < 2")
          case True
          then show ?thesis using inv by (simp add: t shown_ok_def)
        next
          case high: False
          then have "k = 2" using k by simp
          then show ?thesis using False T_done by (simp add: t shown_ok_def)
        qed
        ultimately show ?thesis
          using inv none ok A_call T_done t by (auto simp: own_step_def all_created_def)
      qed
    qed (use assms(2) A_call in \<open>auto simp: worker_step_def call_step_def split: option.splits\<close>)
  qed (use assms(2) in \<open>simp_all add: worker_step_def\<close>)
qed

text \<open>A step of a call is its step in the simulated state, and leaves the program alone.\<close>

lemma call_step_created:
  assumes "prog_inv e M holder U m0 s" and "call_step e M U k s t"
  shows "sm_tstep True M U (prog_call e) k (all_created s) = Some (all_created t)"
    and "prog_inv e M holder U m0 t" and "own_work t = own_work s"
proof -
  note inv = assms(1) [unfolded prog_inv_def]
  obtain u where u: "sm_tstep True M U (prog_call e) k (sm s) = Some u" and t: "t = s\<lparr>sm := u\<rparr>"
    and w: "workers s k = A_call" using assms(2) by (auto simp: call_step_def)
  obtain pc where pc: "pcs (sm s) k \<noteq> T_idle" "\<not> completed (pcs (sm s) k)" "pc \<noteq> T_idle"
      "pcs u = (pcs (sm s))(k := pc)"
    using sm_tstep_others [OF u] by blast
  show step: "sm_tstep True M U (prog_call e) k (all_created s) = Some (all_created t)"
    unfolding all_created_def t by (simp add: sm_tstep_awake [OF u])
  have "sm_inv M holder U (prog_call e) 3 m0 (all_created t)"
    using inv by (blast intro: sm_step_inv [OF _ step])
  moreover have "worker_ok e k (pcs (sm s) k) A_call" using inv w by metis
  then have "worker_ok e i (pcs (sm t) i) (workers t i)" for i
    using inv w pc by (cases "i = k") (simp_all add: t)
  moreover have "shown_ok e t"
    using inv pc by (cases "k = 2") (auto simp: shown_ok_def t)
  ultimately show "prog_inv e M holder U m0 t" using inv by (simp add: prog_inv_def t)
  show "own_work t = own_work s" by (simp add: t own_work_def)
qed

lemma app_step_cases:
  assumes "prog_inv e M holder U m0 s" and "app_step e M U i s = Some t"
  shows "prog_inv e M holder U m0 t \<and>
    (all_created t = all_created s \<and> own_work t < own_work s \<or>
     (\<exists>k. sm_tstep True M U (prog_call e) k (all_created s) = Some (all_created t)) \<and> own_work t = own_work s)"
proof -
  have "own_step e s t \<or> (\<exists>k. call_step e M U k s t)"
    using assms main_step_own [OF assms(1), of t] worker_step_cases [OF assms(1)]
    by (cases i) (auto simp: app_step_def)
  then show ?thesis
  proof
    assume "own_step e s t"
    then show ?thesis using assms(1) by (auto simp: own_step_def prog_inv_def)
  next
    assume "\<exists>k. call_step e M U k s t"
    then show ?thesis using call_step_created [OF assms(1)] by blast
  qed
qed

interpretation prg: refined_system "app_step e M U" "app_start M holder U m0" "prog_inv e M holder U m0"
    "sm_tstep True M U (prog_call e)" all_created for e M holder U m0
proof
  show "app_start M holder U m0 s \<Longrightarrow> prog_inv e M holder U m0 s" for s by (rule app_start_inv)
  show "prog_inv e M holder U m0 s \<Longrightarrow> app_step e M U i s = Some t \<Longrightarrow> prog_inv e M holder U m0 t" for s i t
    using app_step_cases by blast
  show "prog_inv e M holder U m0 s \<Longrightarrow> app_step e M U i s = Some t \<Longrightarrow>
      all_created t = all_created s \<or> (\<exists>j. sm_tstep True M U (prog_call e) j (all_created s) = Some (all_created t))"
    for s i t using app_step_cases by blast
qed

section \<open>The program ends\<close>

definition prog_work :: "app_env \<Rightarrow> 'l prog \<Rightarrow> nat" where
  "prog_work e s = own_work s + sm_work (prog_call e) 3 (all_created s)"

text \<open>
  Where it comes to rest: no call is under way; and unless the process has been ended, \<open>main\<close> and the
  workers have left.
\<close>

definition prog_finished :: "app_env \<Rightarrow> 'l prog \<Rightarrow> bool" where
  "prog_finished e s \<longleftrightarrow> (\<forall>i. pcs (sm s) i = T_idle \<or> completed (pcs (sm s) i)) \<and>
    (killed s \<or> main s = Main_exit \<and> (\<forall>i<3. workers s i = A_gone))"

lemma prog_work_decreases:
  assumes "prog_inv e M holder U m0 s" and "app_step e M U i s = Some t"
  shows "prog_work e t < prog_work e s"
  using app_step_cases [OF assms] smw.work_decreases [of M holder U "prog_call e" 3 m0 "all_created s"] assms(1)
  by (auto simp: prog_work_def prog_inv_def)

text \<open>A call under way can be brought forward, by its own step or by that of the holder of the mutex.\<close>

lemma call_progress:
  assumes "prog_inv e M holder U m0 s" and "pcs (sm s) i \<noteq> T_idle" and "\<not> completed (pcs (sm s) i)"
  shows "\<exists>k u. pcs (sm s) k \<noteq> T_idle \<and> \<not> completed (pcs (sm s) k) \<and>
    sm_tstep True M U (prog_call e) k (sm s) = Some u"
proof -
  have inv: "sm_inv M holder U (prog_call e) 3 m0 (all_created s)" using assms(1) by (simp add: prog_inv_def)
  show ?thesis
  proof (cases "holder (lock (sm s))")
    case (Some j)
    then have "inside (pcs (sm s) j)"
      using sm_inv_thread [OF inv refl, of j] by (simp add: thread_ok_def)
    then show ?thesis
      by (intro exI [of _ j], cases "pcs (sm s) j") (auto simp: sm_tstep_def Let_def split: prod.split)
  next
    case None
    have "\<not> inside (pcs (sm s) i)"
      using sm_inv_thread [OF inv refl, of i] None by (simp add: thread_ok_def)
    moreover have "mutex_lock M i (lock (sm s)) \<noteq> None"
      using inv None by (simp add: sm_inv_def mutex_spec_def)
    ultimately show ?thesis
      using assms(2,3) by (intro exI [of _ i], cases "pcs (sm s) i") (auto simp: sm_tstep_def Let_def)
  qed
qed

lemma prog_progress:
  assumes "prog_inv e M holder U m0 s" and "\<not> prog_finished e s"
  shows "\<exists>i t. app_step e M U i s = Some t"
proof (cases "\<exists>i. pcs (sm s) i \<noteq> T_idle \<and> \<not> completed (pcs (sm s) i)")
  case True
  then obtain k u where k: "pcs (sm s) k \<noteq> T_idle" "\<not> completed (pcs (sm s) k)"
    "sm_tstep True M U (prog_call e) k (sm s) = Some u" using call_progress [OF assms(1)] by blast
  have "worker_ok e k (pcs (sm s) k) (workers s k)" using assms(1) by (simp add: prog_inv_def)
  with k have "workers s k = A_call" by (cases "workers s k") (auto split: if_splits)
  with k have "app_step e M U (Worker k) s = Some (s\<lparr>sm := u\<rparr>)"
    by (cases "pcs (sm s) k") (auto simp: app_step_def worker_step_def)
  then show ?thesis by blast
next
  case False
  then have alive: "\<not> killed s" and busy: "main s \<noteq> Main_exit \<or> (\<exists>i<3. workers s i \<noteq> A_gone)"
    using assms(2) by (auto simp: prog_finished_def)
  show ?thesis
  proof (cases "main s")
    case (Creating k)
    then show ?thesis using alive by (intro exI [of _ Main_thread]) (simp add: app_step_def main_step_def)
  next
    case Main_exit
    then obtain i where i: "i < 3" "workers s i \<noteq> A_gone" using busy by blast
    have "none_from Main_exit i (workers s i)" "worker_ok e i (pcs (sm s) i) (workers s i)"
      using assms(1) Main_exit unfolding prog_inv_def by metis+
    moreover have "pcs (sm s) i = T_idle \<or> completed (pcs (sm s) i)" using False by blast
    ultimately have "\<exists>t. app_step e M U (Worker i) s = Some t"
      using i alive
      by (cases "workers s i"; cases "pcs (sm s) i") (auto simp: app_step_def worker_step_def)
    then show ?thesis by blast
  next
    case (Exit_failed c)
    with alive assms(1) show ?thesis by (auto simp: prog_inv_def)
  qed
qed

interpretation prw: terminating_system "app_step e M U" "app_start M holder U m0" "prog_inv e M holder U m0"
    "prog_work e" "prog_finished e" for e M holder U m0
  by unfold_locales (auto intro: prog_work_decreases prog_progress)

section \<open>What the reader sees\<close>

lemma prog_reads_whole_writes:
  assumes "prog_inv e M holder U m0 t" and "app_buffers e U"
    and "pcs (sm t) 2 = T_done ret out" and "rdbuf e 2 \<noteq> 0"
  shows "ret = 5 \<and> out \<in> {load m0 0 5, replicate 5 (letter 0), replicate 5 (letter 1)}"
proof -
  note inv = assms(1) [unfolded prog_inv_def]
  have sminv: "sm_inv M holder U (prog_call e) 3 m0 (all_created t)" using inv by blast
  have U: "uaccess_ok U" using sminv by (simp add: sm_inv_def)
  have fin: "pcs (all_created t) 2 = T_done ret out" using assms(3) by simp
  obtain xs ys where xs: "order (sm t) = xs @ 2 # ys"
    "(ret, out) = solo_result U (prog_call e 2) (serial_mem U (prog_call e) xs m0)"
    using sm_inv_thread [OF sminv fin] prog_clip [of e 2] by (auto simp: thread_ok_def result_ok_def)
  have "i < 2 \<longrightarrow> wrbuf e i \<noteq> 0" if "i \<in> set xs" for i
  proof -
    have "completed (pcs (sm t) i)"
      using sm_inv_thread [OF sminv refl, of i] that xs(1) by (simp add: thread_ok_def)
    moreover have "worker_ok e i (pcs (sm t) i) (workers t i)" using inv by blast
    ultimately show ?thesis by (cases "workers t i") (auto split: if_splits)
  qed
  then have mem: "load (serial_mem U (prog_call e) xs m0) 0 5 \<in>
      {load m0 0 5, replicate 5 (letter 0), replicate 5 (letter 1)}"
    by (intro prog_serial_mem [OF U assms(2)]) blast
  have "ret = 5 \<and> out = load (serial_mem U (prog_call e) xs m0) 0 5"
    using xs(2) solo_result_eq [OF U prog_clip] assms(2,4)
      user_writableD [of U "rdbuf e 2" 5 "load (serial_mem U (prog_call e) xs m0) 0 5"]
    by (simp add: sh_result_def app_buffers_def)
  with mem show ?thesis by simp
qed

section \<open>Properties\<close>

definition app_prog :: "nat option prog" where
  "app_prog = \<lparr>sm = \<lparr>dev = \<lparr>mem = (\<lambda>_. 0), writecount = 0\<rparr>, lock = None, pcs = (\<lambda>_. T_idle), order = []\<rparr>,
    main = Creating 0, workers = (\<lambda>_. A_none), killed = False, shown = None\<rparr>"

text \<open>The witnesses' environment: the given creations and opens succeed, writer 1's buffer is at 100.\<close>

definition demo_env :: "(nat \<Rightarrow> int) \<Rightarrow> (nat \<Rightarrow> int) \<Rightarrow> app_env" where
  "demo_env made fds = \<lparr>created = made, opened = fds, wrbuf = (\<lambda>i. if i = 1 then 100 else 1),
    rdbuf = (\<lambda>_. 200), rdbuf_old = [0, 0, 0, 0, 0]\<rparr>"

text \<open>User memory with five letters A from address 1 on and five letters B from 100 on.\<close>

definition demo_user :: uaccess where
  "demo_user =
    \<lparr>copy_from_user = (\<lambda>x n.
       if 1 \<le> x \<and> x + int n \<le> 6 then (replicate n 0x41, 0)
       else if 100 \<le> x \<and> x + int n \<le> 105 then (replicate n 0x42, 0)
       else (replicate n 0, n)),
     copy_to_user = (\<lambda>x bs. 0)\<rparr>"

lemma demo_user_ok: "uaccess_ok demo_user \<and> app_buffers (demo_env made fds) demo_user"
  by (auto simp: uaccess_ok_def app_buffers_def user_readable_def user_writable_def demo_user_def demo_env_def
    letter_def less_2_cases_iff min_def)

lemma demo_prog_start: "app_start option_mutex id demo_user (\<lambda>_. 0) app_prog"
  using demo_user_ok option_mutex_spec by (simp add: app_start_def app_prog_def)

text \<open>
  C21. The test program with the mutex, from \<open>main\<close> on, in every interleaving and whatever creations,
  opens and allocations give it. It refines the system of its three calls: each of its states simulates
  one of Share_Mem_Threads, which is reached there. So at most one thread is in the critical
  section, and what the reader prints is one writer's five letters or the five bytes from before. Every
  schedule has at most 38 steps, and when nothing can move no call is under way, not even after the
  process has been ended; unless it was, \<open>main\<close> and all workers have left, and every thread whose \<open>open\<close>
  succeeded has made its call. It is ended early only by a failed creation or an allocation that gave nothing.
\<close>

theorem sm_program_safe:
  assumes "app_start M holder U m0 s" and "app_buffers e U" and "run_schedule (app_step e M U) is s = Some t"
  shows "reaches (sm_tstep True M U (prog_call e)) (all_created s) (all_created t) \<and>
    (\<forall>i j. inside (pcs (sm t) i) \<and> inside (pcs (sm t) j) \<longrightarrow> i = j) \<and>
    (\<forall>bs. shown t = Some bs \<longrightarrow> bs \<in> {load m0 0 5, replicate 5 0x41, replicate 5 0x42}) \<and>
    length is \<le> 38 \<and> (killed t \<longrightarrow> \<not> env_good e) \<and>
    ((\<forall>i. app_step e M U i t = None) \<longrightarrow>
      (\<forall>i. pcs (sm t) i = T_idle \<or> completed (pcs (sm t) i)) \<and>
      (killed t \<or> main t = Main_exit \<and>
        (\<forall>i<3. workers t i = A_gone \<and> (completed (pcs (sm t) i) \<longleftrightarrow> 0 \<le> opened e i))))"
proof -
  have start: "prog_inv e M holder U m0 s" by (rule app_start_inv [OF assms(1)])
  have reach: "reaches (app_step e M U) s t" by (rule run_schedule_reaches [OF assms(3)])
  have inv: "prog_inv e M holder U m0 t" by (rule prg.reachable_inv [OF assms(1) reach])
  note t = inv [unfolded prog_inv_def]
  have "holder (lock (sm t)) = Some i" if "inside (pcs (sm t) i)" for i
    using sm_inv_thread [of M holder U "prog_call e" 3 m0 "all_created t", OF _ refl, of i] t that
    by (simp add: thread_ok_def)
  then have "i = j" if "inside (pcs (sm t) i)" "inside (pcs (sm t) j)" for i j
    using that by (metis option.inject)
  moreover have "bs \<in> {load m0 0 5, replicate 5 0x41, replicate 5 0x42}" if sh: "shown t = Some bs" for bs
  proof -
    obtain ret out where r: "rdbuf e 2 \<noteq> 0" "pcs (sm t) 2 = T_done ret out"
      "bs = take 5 (out @ drop (length out) (rdbuf_old e))"
      using t sh unfolding shown_ok_def by blast
    from prog_reads_whole_writes [OF inv assms(2) r(2,1)]
    show ?thesis unfolding r(3) by (auto simp: letter_def)
  qed
  moreover have "prog_work e s = 38"
    using assms(1) prog_clip [of e] by (simp add: prog_work_def own_work_def sm_work_def app_start_def lessThan_nat_numeral)
  moreover have "prog_finished e t" if "\<forall>i. app_step e M U i t = None"
    using prw.stuck_finished [OF inv] that by blast
  moreover have "completed (pcs (sm t) i) \<longleftrightarrow> 0 \<le> opened e i" if "workers t i = A_gone" for i
  proof -
    have "worker_ok e i (pcs (sm t) i) A_gone" using t that by metis
    then show ?thesis by (cases "pcs (sm t) i") (auto split: if_splits)
  qed
  ultimately show ?thesis
    using prg.reaches_abs [OF reach start] prw.schedule_length [OF start assms(3)] t
    by (auto simp: prog_finished_def)
qed

text \<open>
  The witness: the second creation fails while the first writer, with its buffer filled, is in its
  critical section; its call is finished although the process is gone.
\<close>

theorem sm_program_safe_witness:
  "\<exists>t. run_schedule (app_step (demo_env (\<lambda>k. if k = 1 then 11 else 0) (\<lambda>_. 3)) option_mutex demo_user)
      ([Main_thread] @ replicate 5 (Worker 0) @ [Main_thread] @ replicate 5 (Worker 0)) app_prog = Some t \<and>
    killed t \<and> main t = Exit_failed (- 1) \<and> pcs (sm t) 0 = T_done 5 [] \<and>
    (\<forall>i. pcs (sm t) i = T_idle \<or> completed (pcs (sm t) i))"
proof -
  let ?e = "demo_env (\<lambda>k. if k = 1 then 11 else 0) (\<lambda>_. 3)"
  let ?is = "[Main_thread] @ replicate 5 (Worker 0) @ [Main_thread] @ replicate 5 (Worker 0)"
  have "case run_schedule (app_step ?e option_mutex demo_user) ?is app_prog of None \<Rightarrow> False
    | Some t \<Rightarrow> killed t \<and> main t = Exit_failed (- 1) \<and> pcs (sm t) 0 = T_done 5 [] \<and>
        workers t 0 = A_call \<and> workers t 1 = A_none \<and> workers t 2 = A_none"
    by code_simp
  then obtain t where t: "run_schedule (app_step ?e option_mutex demo_user) ?is app_prog = Some t"
    "killed t" "main t = Exit_failed (- 1)" "pcs (sm t) 0 = T_done 5 []"
    "workers t 0 = A_call" "workers t 1 = A_none" "workers t 2 = A_none"
    by (auto split: option.splits)
  have inv: "prog_inv ?e option_mutex id demo_user (\<lambda>_. 0) t"
    by (rule prg.reachable_inv [OF demo_prog_start run_schedule_reaches [OF t(1)]])
  have none: "workers t i = A_none" if "i \<noteq> 0" for i
  proof (rule ccontr)
    assume w: "workers t i \<noteq> A_none"
    then have "i < 3" by (rule worker_small [OF inv])
    with that have "i = 1 \<or> i = 2" by arith
    with w t(6,7) show False by blast
  qed
  have "app_step ?e option_mutex demo_user i t = None" for i
  proof (cases i)
    case (Worker k)
    then show ?thesis
      using t(2,4,5) none by (cases "k = 0") (auto simp: app_step_def worker_step_def)
  qed (simp add: app_step_def main_step_def t(2))
  then have stuck: "\<forall>i. app_step ?e option_mutex demo_user i t = None" by blast
  have "app_buffers ?e demo_user" using demo_user_ok by blast
  from sm_program_safe [OF demo_prog_start this t(1)] stuck
  have "\<forall>i. pcs (sm t) i = T_idle \<or> completed (pcs (sm t) i)" by blast
  with t show ?thesis by blast
qed


end
