(* ===== verification/Block_Device.thy ===== *)
theory Block_Device
  imports Storage_Interface
begin

text \<open>
  The RAM disk \<open>12-block_device/block_device.c\<close>: the request function
  \<open>simp_blkdev_do_request\<close> that serves the queue of the block layer from the array
  \<open>simp_blkdev_data\<close>. Sector numbers are \<open>sector_t\<close>, 64-bit words, and request sizes are
  \<open>unsigned int\<close>, 32-bit words, so the range check of the driver wraps as it does in C.

  The block layer is not part of the repository. Its functions are the fields of the record
  \<open>block_layer\<close>, an argument of the request function; \<open>block_layer_spec\<close> states what the
  kernel documents about them, over a view of the queue: requests that wait, requests that
  have been fetched, and requests whose last segment has been ended. Both loops run until
  the block layer says so, hence they are partial functions, and that they return is proved.
\<close>

unbundle bit_operations_syntax

section \<open>The block layer as a parameter\<close>

record ('q, 'r) block_layer =
  blk_fetch_request :: "'q \<Rightarrow> 'r option \<times> 'q"
  blk_rq_pos :: "'q \<Rightarrow> 'r \<Rightarrow> 64 word"
  blk_rq_bytes :: "'q \<Rightarrow> 'r \<Rightarrow> 32 word"
  blk_rq_cur_bytes :: "'q \<Rightarrow> 'r \<Rightarrow> 32 word"
  rq_data_dir :: "'q \<Rightarrow> 'r \<Rightarrow> nat"
  bio_data_get :: "'q \<Rightarrow> 'r \<Rightarrow> nat \<Rightarrow> byte list"
  bio_data_put :: "'q \<Rightarrow> 'r \<Rightarrow> byte list \<Rightarrow> 'q"
  blk_end_request_cur :: "'q \<Rightarrow> 'r \<Rightarrow> int \<Rightarrow> bool \<times> 'q"

text \<open>
  A request in the view: current sector, direction, the buffers of the segments still to be
  ended, and the segments ended so far with the status given for each.
\<close>

record blk_rq =
  rq_pos :: "64 word"
  rq_write :: bool
  rq_todo :: "byte list list"
  rq_ended :: "(byte list \<times> int) list"

record 'r blk_view =
  waiting :: "blk_rq list"
  started :: "'r \<Rightarrow> blk_rq option"
  completed :: "blk_rq list"

definition rq_size :: "blk_rq \<Rightarrow> nat" where
  "rq_size x = length (concat (rq_todo x))"

text \<open>The block layer only builds requests of whole, non-empty sectors that fit an \<open>unsigned int\<close>.\<close>

definition rq_wf :: "blk_rq \<Rightarrow> bool" where
  "rq_wf x \<longleftrightarrow> rq_todo x \<noteq> [] \<and> rq_size x < 4294967296 \<and>
    (\<forall>seg \<in> set (rq_todo x). seg \<noteq> [] \<and> 512 dvd length seg)"

definition end_segment :: "int \<Rightarrow> blk_rq \<Rightarrow> blk_rq" where
  "end_segment status x = x\<lparr>rq_pos := rq_pos x + of_nat (length (hd (rq_todo x)) div 512),
     rq_todo := tl (rq_todo x), rq_ended := rq_ended x @ [(hd (rq_todo x), status)]\<rparr>"

definition after_end :: "'r \<Rightarrow> blk_rq \<Rightarrow> 'r blk_view \<Rightarrow> 'r blk_view" where
  "after_end r x v =
    (if rq_todo x = [] then v\<lparr>started := (started v)(r := None), completed := completed v @ [x]\<rparr>
     else v\<lparr>started := (started v)(r \<mapsto> x)\<rparr>)"

definition block_layer_spec :: "('q, 'r) block_layer \<Rightarrow> ('q \<Rightarrow> 'r blk_view) \<Rightarrow> bool" where
  "block_layer_spec B view \<longleftrightarrow>
    (\<forall>q. waiting (view q) = [] \<longrightarrow>
      fst (blk_fetch_request B q) = None \<and> view (snd (blk_fetch_request B q)) = view q) \<and>
    (\<forall>q x xs. waiting (view q) = x # xs \<longrightarrow>
      (\<exists>r q'. blk_fetch_request B q = (Some r, q') \<and> started (view q) r = None \<and>
        view q' = (view q)\<lparr>waiting := xs, started := (started (view q))(r \<mapsto> x)\<rparr>)) \<and>
    (\<forall>q r x. started (view q) r = Some x \<and> rq_wf x \<longrightarrow>
      blk_rq_pos B q r = rq_pos x \<and> blk_rq_bytes B q r = of_nat (rq_size x) \<and>
      blk_rq_cur_bytes B q r = of_nat (length (hd (rq_todo x))) \<and>
      rq_data_dir B q r = (if rq_write x then 1 else 0) \<and>
      bio_data_get B q r (length (hd (rq_todo x))) = hd (rq_todo x) \<and>
      (\<forall>bs. length bs = length (hd (rq_todo x)) \<longrightarrow>
        view (bio_data_put B q r bs) =
          (view q)\<lparr>started := (started (view q))(r \<mapsto> x\<lparr>rq_todo := bs # tl (rq_todo x)\<rparr>)\<rparr>) \<and>
      (\<forall>status. fst (blk_end_request_cur B q r status) = (tl (rq_todo x) \<noteq> []) \<and>
        view (snd (blk_end_request_cur B q r status)) =
          after_end r (end_segment status x) (view q)))"

section \<open>The driver\<close>

record 'q blk_sys =
  simp_blkdev_data :: kmem
  layer :: 'q

definition SIMP_BLKDEV_BYTES :: "64 word" where
  "SIMP_BLKDEV_BYTES = 16 * 1024 * 1024"

definition SECTOR_SIZE_SHIFT :: nat where
  "SECTOR_SIZE_SHIFT = 9"

definition rq_offset :: "('q, 'r) block_layer \<Rightarrow> 'q \<Rightarrow> 'r \<Rightarrow> 64 word" where
  "rq_offset B q r = push_bit SECTOR_SIZE_SHIFT (blk_rq_pos B q r)"

text \<open>The range check of the driver, in 64-bit arithmetic.\<close>

definition bad_request :: "('q, 'r) block_layer \<Rightarrow> 'q \<Rightarrow> 'r \<Rightarrow> bool" where
  "bad_request B q r \<longleftrightarrow> rq_offset B q r + ucast (blk_rq_bytes B q r) > SIMP_BLKDEV_BYTES"

text \<open>The two copies; the array has \<open>SIMP_BLKDEV_BYTES\<close> elements.\<close>

definition blk_copy_out :: "('q, 'r) block_layer \<Rightarrow> 'r \<Rightarrow> 'q blk_sys \<Rightarrow> fault + 'q blk_sys" where
  "blk_copy_out B r s =
    (let off = uint (rq_offset B (layer s) r); n = unat (blk_rq_cur_bytes B (layer s) r) in
     if in_array (unat SIMP_BLKDEV_BYTES) off (int n)
     then Inr (s\<lparr>layer := bio_data_put B (layer s) r (load (simp_blkdev_data s) (nat off) n)\<rparr>)
     else Inl Oob_read)"

definition blk_copy_in :: "('q, 'r) block_layer \<Rightarrow> 'r \<Rightarrow> 'q blk_sys \<Rightarrow> fault + 'q blk_sys" where
  "blk_copy_in B r s =
    (let off = uint (rq_offset B (layer s) r); n = unat (blk_rq_cur_bytes B (layer s) r) in
     if in_array (unat SIMP_BLKDEV_BYTES) off (int n)
     then Inr (s\<lparr>simp_blkdev_data :=
       store (simp_blkdev_data s) (nat off) (bio_data_get B (layer s) r n)\<rparr>)
     else Inl Oob_write)"

text \<open>The loop \<open>do { copy; } while (__blk_end_request_cur(req, 0))\<close> of both directions.\<close>

partial_function (option) blk_segments ::
  "('q, 'r) block_layer \<Rightarrow> ('q blk_sys \<Rightarrow> fault + 'q blk_sys) \<Rightarrow> 'r \<Rightarrow> 'q blk_sys \<Rightarrow>
    (fault + 'q blk_sys) option" where
  "blk_segments B copy r s =
    (case copy s of
       Inl e \<Rightarrow> Some (Inl e)
     | Inr t \<Rightarrow>
         if fst (blk_end_request_cur B (layer t) r 0)
         then blk_segments B copy r (t\<lparr>layer := snd (blk_end_request_cur B (layer t) r 0)\<rparr>)
         else Some (Inr (t\<lparr>layer := snd (blk_end_request_cur B (layer t) r 0)\<rparr>)))"

declare blk_segments.simps [code]

text \<open>One round of the outer loop, for a request that has been fetched.\<close>

definition blk_serve :: "('q, 'r) block_layer \<Rightarrow> 'r \<Rightarrow> 'q blk_sys \<Rightarrow> (fault + 'q blk_sys) option" where
  "blk_serve B r s =
    (if bad_request B (layer s) r
     then Some (Inr (s\<lparr>layer := snd (blk_end_request_cur B (layer s) r 0)\<rparr>))
     else if rq_data_dir B (layer s) r = 0 then blk_segments B (blk_copy_out B r) r s
     else if rq_data_dir B (layer s) r = 1 then blk_segments B (blk_copy_in B r) r s
     else Some (Inr s))"

partial_function (option) simp_blkdev_do_request ::
  "('q, 'r) block_layer \<Rightarrow> 'q blk_sys \<Rightarrow> (fault + 'q blk_sys) option" where
  "simp_blkdev_do_request B s =
    (case fst (blk_fetch_request B (layer s)) of
       None \<Rightarrow> Some (Inr (s\<lparr>layer := snd (blk_fetch_request B (layer s))\<rparr>))
     | Some r \<Rightarrow>
         Option.bind (blk_serve B r (s\<lparr>layer := snd (blk_fetch_request B (layer s))\<rparr>))
           (\<lambda>res. case res of Inl e \<Rightarrow> Some (Inl e) | Inr t \<Rightarrow> simp_blkdev_do_request B t))"

declare simp_blkdev_do_request.simps [code]


section \<open>The disk as the request queue should see it\<close>

text \<open>
  One request served at once: the array as a whole is stored to or loaded from, and the
  request ends with all its segments. A request beyond the disk only loses its first segment.
\<close>

fun split_like :: "byte list list \<Rightarrow> byte list \<Rightarrow> byte list list" where
  "split_like [] bs = []"
| "split_like (seg # segs) bs = take (length seg) bs # split_like segs (drop (length seg) bs)"

definition rq_start :: "blk_rq \<Rightarrow> nat" where
  "rq_start x = 512 * unat (rq_pos x)"

definition rq_on_disk :: "blk_rq \<Rightarrow> bool" where
  "rq_on_disk x \<longleftrightarrow> rq_start x + rq_size x \<le> 16777216"

definition finish_rq :: "blk_rq \<Rightarrow> byte list list \<Rightarrow> blk_rq" where
  "finish_rq x segs = x\<lparr>rq_pos := rq_pos x + of_nat (rq_size x div 512), rq_todo := [],
     rq_ended := rq_ended x @ map (\<lambda>seg. (seg, 0)) segs\<rparr>"

definition disk_serve :: "kmem \<Rightarrow> blk_rq \<Rightarrow> kmem \<times> blk_rq" where
  "disk_serve m x =
    (if \<not> rq_on_disk x then (m, end_segment 0 x)
     else if rq_write x then (store m (rq_start x) (concat (rq_todo x)), finish_rq x (rq_todo x))
     else (m, finish_rq x (split_like (rq_todo x) (load m (rq_start x) (rq_size x)))))"

fun disk_run :: "kmem \<Rightarrow> blk_rq list \<Rightarrow> kmem \<times> blk_rq list" where
  "disk_run m [] = (m, [])"
| "disk_run m (x # xs) =
    (let (m1, y) = disk_serve m x; (m2, ys) = disk_run m1 xs in (m2, y # ys))"

text \<open>The position does not wrap: the request ends below \<open>2\<^sup>6\<^sup>4\<close> bytes.\<close>

definition rq_no_wrap :: "blk_rq \<Rightarrow> bool" where
  "rq_no_wrap x \<longleftrightarrow> rq_start x + rq_size x < 18446744073709551616"

lemma split_like_lengths: "length bs = length (concat segs) \<Longrightarrow> concat (split_like segs bs) = bs"
proof (induction segs arbitrary: bs)
  case Nil
  then show ?case by simp
next
  case (Cons seg segs)
  then show ?case by simp
qed

section \<open>Reading the contract of the block layer\<close>

lemma layer_fetch_None:
  "block_layer_spec B view \<Longrightarrow> waiting (view q) = [] \<Longrightarrow>
    fst (blk_fetch_request B q) = None \<and> view (snd (blk_fetch_request B q)) = view q"
  unfolding block_layer_spec_def by blast

lemma layer_fetch_Some:
  assumes "block_layer_spec B view" and "waiting (view q) = x # xs"
  obtains r q' where "blk_fetch_request B q = (Some r, q')" and "started (view q) r = None"
    and "view q' = (view q)\<lparr>waiting := xs, started := (started (view q))(r \<mapsto> x)\<rparr>"
  using assms unfolding block_layer_spec_def by blast

lemma layer_rq:
  assumes "block_layer_spec B view" and "started (view q) r = Some x" and "rq_wf x"
  shows "blk_rq_pos B q r = rq_pos x" and "blk_rq_bytes B q r = of_nat (rq_size x)"
    and "blk_rq_cur_bytes B q r = of_nat (length (hd (rq_todo x)))"
    and "rq_data_dir B q r = (if rq_write x then 1 else 0)"
    and "bio_data_get B q r (length (hd (rq_todo x))) = hd (rq_todo x)"
    and "length bs = length (hd (rq_todo x)) \<Longrightarrow> view (bio_data_put B q r bs) =
      (view q)\<lparr>started := (started (view q))(r \<mapsto> x\<lparr>rq_todo := bs # tl (rq_todo x)\<rparr>)\<rparr>"
    and "fst (blk_end_request_cur B q r status) = (tl (rq_todo x) \<noteq> [])"
    and "view (snd (blk_end_request_cur B q r status)) = after_end r (end_segment status x) (view q)"
  using assms unfolding block_layer_spec_def by blast+

lemma rq_wf_cases:
  assumes "rq_wf x"
  obtains seg segs where "rq_todo x = seg # segs" and "seg \<noteq> []" and "512 dvd length seg"
    and "rq_size x = length seg + length (concat segs)" and "rq_size x < 4294967296"
proof -
  from assms obtain seg segs where "rq_todo x = seg # segs"
    by (cases "rq_todo x") (auto simp: rq_wf_def)
  with assms that show ?thesis by (auto simp: rq_wf_def rq_size_def)
qed

lemma rq_wf_size: "rq_wf x \<Longrightarrow> 512 dvd rq_size x \<and> 0 < rq_size x"
proof -
  assume x: "rq_wf x"
  have "512 dvd length (concat segs)" if "\<forall>seg \<in> set segs. 512 dvd length seg" for segs :: "byte list list"
    using that by (induction segs) auto
  with x show ?thesis unfolding rq_wf_def rq_size_def by (cases "rq_todo x") auto
qed

lemma end_segment_wf: "rq_wf x \<Longrightarrow> tl (rq_todo x) \<noteq> [] \<Longrightarrow> rq_wf (end_segment status x)"
  by (cases "rq_todo x") (auto simp: rq_wf_def end_segment_def rq_size_def)

section \<open>Sector arithmetic\<close>

lemma unat_cur_bytes:
  assumes "rq_wf x"
  shows "unat (of_nat (length (hd (rq_todo x))) :: 32 word) = length (hd (rq_todo x))"
  using assms by (elim rq_wf_cases) (simp add: unat_of_nat)

lemma uint_offset:
  fixes w :: "64 word"
  assumes "512 * unat w < 18446744073709551616"
  shows "uint (push_bit 9 w) = 512 * uint w"
proof -
  have w: "push_bit 9 w = w * 512" by (simp add: push_bit_eq_mult)
  have "int (512 * unat w) < 18446744073709551616" using assms by linarith
  then have b: "uint w * 512 < 18446744073709551616" by simp
  have n: "0 \<le> uint w * 512" by simp
  have "(uint w * 512) mod 18446744073709551616 = uint w * 512"
    by (rule mod_pos_pos_trivial [OF n b])
  then show ?thesis by (simp add: w uint_word_ariths)
qed

lemma bad_request_exact:
  assumes "block_layer_spec B view" and "started (view q) r = Some x" and "rq_wf x"
    and "rq_no_wrap x"
  shows "bad_request B q r \<longleftrightarrow> \<not> rq_on_disk x"
proof -
  have sz: "rq_size x < 4294967296" using assms(3) by (elim rq_wf_cases)
  have off: "uint (push_bit 9 (rq_pos x)) = int (rq_start x)"
    using assms(4) by (subst uint_offset) (auto simp: rq_no_wrap_def rq_start_def)
  have "uint (ucast (of_nat (rq_size x) :: 32 word) :: 64 word) = int (rq_size x)"
    using sz by (simp add: unsigned_ucast_eq unsigned_of_nat take_bit_nat_eq_self take_bit_int_eq_self)
  with off have "uint (push_bit 9 (rq_pos x) + ucast (of_nat (rq_size x) :: 32 word) :: 64 word) =
      int (rq_start x + rq_size x)"
    using assms(4) by (simp add: uint_word_ariths rq_no_wrap_def)
  then show ?thesis
    using layer_rq(1,2) [OF assms(1-3)]
    by (simp add: bad_request_def rq_offset_def SECTOR_SIZE_SHIFT_def SIMP_BLKDEV_BYTES_def
        word_less_def rq_on_disk_def not_le flip: of_nat_add)
qed


section \<open>Serving one request\<close>

lemma end_segment_todo [simp]: "rq_todo (end_segment status x) = tl (rq_todo x)"
  by (simp add: end_segment_def)

lemma end_segment_write [simp]: "rq_write (end_segment status x) = rq_write x"
  by (simp add: end_segment_def)

lemma end_last:
  assumes "block_layer_spec B view" and "started (view q) r = Some x" and "rq_wf x"
    and "tl (rq_todo x) = []"
  shows "\<not> fst (blk_end_request_cur B q r status)"
    and "view (snd (blk_end_request_cur B q r status)) =
      (view q)\<lparr>started := (started (view q))(r := None),
        completed := completed (view q) @ [end_segment status x]\<rparr>"
  using layer_rq(7,8) [OF assms(1-3), of status] assms(4) by (simp_all add: after_end_def)

lemma end_not_last:
  assumes "block_layer_spec B view" and "started (view q) r = Some x" and "rq_wf x"
    and "tl (rq_todo x) \<noteq> []"
  shows "fst (blk_end_request_cur B q r status)"
    and "view (snd (blk_end_request_cur B q r status)) =
      (view q)\<lparr>started := (started (view q))(r \<mapsto> end_segment status x)\<rparr>"
  using layer_rq(7,8) [OF assms(1-3), of status] assms(4) by (simp_all add: after_end_def)

lemma rq_size_end: "rq_wf x \<Longrightarrow> rq_size x = length (hd (rq_todo x)) + rq_size (end_segment status x)"
  by (cases "rq_todo x") (auto simp: rq_wf_def rq_size_def)

lemma rq_start_end:
  assumes "rq_wf x" and "rq_on_disk x"
  shows "rq_start (end_segment status x) = rq_start x + length (hd (rq_todo x))"
proof -
  obtain k where k: "length (hd (rq_todo x)) = 512 * k"
    using assms(1) by (elim rq_wf_cases dvdE) simp
  have "512 * unat (rq_pos x) + 512 * k \<le> 16777216"
    using assms rq_size_end [OF assms(1), of 0] k by (simp add: rq_on_disk_def rq_start_def)
  then have le: "unat (rq_pos x) + k \<le> 32768" by simp
  then have "unat (rq_pos x + of_nat k :: 64 word) = unat (rq_pos x) + k"
    by (simp add: unat_word_ariths unat_of_nat)
  then show ?thesis using k by (simp add: rq_start_def end_segment_def)
qed

lemma rq_on_disk_end: "rq_wf x \<Longrightarrow> rq_on_disk x \<Longrightarrow> rq_on_disk (end_segment status x)"
  using rq_size_end [of x status] rq_start_end [of x status] by (simp add: rq_on_disk_def)

lemma rq_on_disk_no_wrap: "rq_on_disk x \<Longrightarrow> rq_no_wrap x"
  by (simp add: rq_on_disk_def rq_no_wrap_def)

lemma uint_rq_offset:
  assumes "block_layer_spec B view" and "started (view q) r = Some x" and "rq_wf x" and "rq_on_disk x"
  shows "uint (rq_offset B q r) = int (rq_start x)"
  using layer_rq(1) [OF assms(1-3)] assms(4)
  by (simp add: rq_offset_def SECTOR_SIZE_SHIFT_def rq_start_def rq_on_disk_def uint_offset)

lemma blk_copy_step:
  assumes "block_layer_spec B view" and "started (view (layer s)) r = Some x"
    and "rq_wf x" and "rq_on_disk x"
  shows "blk_copy_in B r s =
      Inr (s\<lparr>simp_blkdev_data := store (simp_blkdev_data s) (rq_start x) (hd (rq_todo x))\<rparr>)"
    and "blk_copy_out B r s = Inr (s\<lparr>layer := bio_data_put B (layer s) r
      (load (simp_blkdev_data s) (rq_start x) (length (hd (rq_todo x))))\<rparr>)"
proof -
  have "in_array 16777216 (int (rq_start x)) (int (length (hd (rq_todo x))))"
    using assms(4) rq_size_end [OF assms(3), of 0] by (auto simp: in_array_def rq_on_disk_def)
  then show "blk_copy_in B r s =
      Inr (s\<lparr>simp_blkdev_data := store (simp_blkdev_data s) (rq_start x) (hd (rq_todo x))\<rparr>)"
    and "blk_copy_out B r s = Inr (s\<lparr>layer := bio_data_put B (layer s) r
      (load (simp_blkdev_data s) (rq_start x) (length (hd (rq_todo x))))\<rparr>)"
    using layer_rq [OF assms(1-3)] uint_rq_offset [OF assms] unat_cur_bytes [OF assms(3)]
    by (simp_all add: blk_copy_in_def blk_copy_out_def Let_def SIMP_BLKDEV_BYTES_def)
qed

lemma finish_end:
  assumes "rq_wf x" and "rq_todo x = seg # segs"
  shows "finish_rq (end_segment 0 x) done_segs = finish_rq x (seg # done_segs)"
proof -
  obtain k where k: "length seg = 512 * k"
    using assms by (elim rq_wf_cases dvdE) simp
  show ?thesis
    using assms(2) k by (simp add: finish_rq_def end_segment_def rq_size_def)
qed

lemma finish_last:
  assumes "rq_todo x = [seg]"
  shows "end_segment 0 x = finish_rq x [seg]"
  using assms by (simp add: finish_rq_def end_segment_def rq_size_def)

lemma blk_segments_write:
  assumes spec: "block_layer_spec B view"
  shows "started (view (layer s)) r = Some x \<Longrightarrow> rq_wf x \<Longrightarrow> rq_on_disk x \<Longrightarrow> rq_todo x = segs \<Longrightarrow>
    \<exists>t. blk_segments B (blk_copy_in B r) r s = Some (Inr t) \<and>
      simp_blkdev_data t = store (simp_blkdev_data s) (rq_start x) (concat segs) \<and>
      view (layer t) = (view (layer s))\<lparr>started := (started (view (layer s)))(r := None),
        completed := completed (view (layer s)) @ [finish_rq x segs]\<rparr>"
proof (induction segs arbitrary: s x)
  case Nil
  then show ?case by (simp add: rq_wf_def)
next
  case (Cons seg segs)
  let ?t = "s\<lparr>simp_blkdev_data := store (simp_blkdev_data s) (rq_start x) seg\<rparr>"
  let ?u = "?t\<lparr>layer := snd (blk_end_request_cur B (layer s) r 0)\<rparr>"
  note copy = blk_copy_step(1) [OF spec Cons.prems(1-3)]
  show ?case
  proof (cases "segs = []")
    case True
    with copy Cons.prems end_last [OF spec Cons.prems(1,2), of 0] show ?thesis
      by (subst blk_segments.simps) (simp add: finish_last)
  next
    case False
    with Cons.prems have more: "tl (rq_todo x) \<noteq> []" by simp
    note e = end_not_last [OF spec Cons.prems(1,2) more, of 0]
    have "\<exists>t. blk_segments B (blk_copy_in B r) r ?u = Some (Inr t) \<and>
        simp_blkdev_data t = store (simp_blkdev_data ?u) (rq_start (end_segment 0 x)) (concat segs) \<and>
        view (layer t) = (view (layer ?u))\<lparr>started := (started (view (layer ?u)))(r := None),
          completed := completed (view (layer ?u)) @ [finish_rq (end_segment 0 x) segs]\<rparr>"
      by (rule Cons.IH) (use e Cons.prems more end_segment_wf rq_on_disk_end in auto)
    with copy e Cons.prems show ?thesis
      by (subst blk_segments.simps) (simp add: rq_start_end finish_end store_append)
  qed
qed

lemma blk_segments_read:
  assumes spec: "block_layer_spec B view"
  shows "started (view (layer s)) r = Some x \<Longrightarrow> rq_wf x \<Longrightarrow> rq_on_disk x \<Longrightarrow> rq_todo x = segs \<Longrightarrow>
    \<exists>t. blk_segments B (blk_copy_out B r) r s = Some (Inr t) \<and>
      simp_blkdev_data t = simp_blkdev_data s \<and>
      view (layer t) = (view (layer s))\<lparr>started := (started (view (layer s)))(r := None),
        completed := completed (view (layer s)) @
          [finish_rq x (split_like segs (load (simp_blkdev_data s) (rq_start x) (rq_size x)))]\<rparr>"
proof (induction segs arbitrary: s x)
  case Nil
  then show ?case by (simp add: rq_wf_def)
next
  case (Cons seg segs)
  let ?bs = "load (simp_blkdev_data s) (rq_start x) (length seg)"
  let ?y = "x\<lparr>rq_todo := ?bs # segs\<rparr>"
  let ?q = "bio_data_put B (layer s) r ?bs"
  let ?u = "s\<lparr>layer := snd (blk_end_request_cur B ?q r 0)\<rparr>"
  note copy = blk_copy_step(2) [OF spec Cons.prems(1-3)]
  have q: "view ?q = (view (layer s))\<lparr>started := (started (view (layer s)))(r \<mapsto> ?y)\<rparr>"
    using layer_rq(6) [OF spec Cons.prems(1,2), of ?bs] Cons.prems(4) by simp
  then have y: "started (view ?q) r = Some ?y" by simp
  have sz: "rq_size x = length seg + length (concat segs)" "rq_size ?y = rq_size x"
    using Cons.prems(4) by (simp_all add: rq_size_def)
  have wf: "rq_wf ?y"
    using Cons.prems(2,4) sz by (auto simp: rq_wf_def load_def)
  have od: "rq_on_disk ?y" using Cons.prems(3) sz by (simp add: rq_on_disk_def rq_start_def)
  have st: "rq_start ?y = rq_start x" by (simp add: rq_start_def)
  have first: "take (length seg) (load (simp_blkdev_data s) (rq_start x) (rq_size x)) = ?bs"
    "drop (length seg) (load (simp_blkdev_data s) (rq_start x) (rq_size x)) =
      load (simp_blkdev_data s) (rq_start x + length seg) (length (concat segs))"
    by (simp_all add: take_load drop_load sz)
  have fin: "finish_rq ?y ss = finish_rq x ss" for ss
    using sz by (simp add: finish_rq_def)
  show ?case
  proof (cases "segs = []")
    case True
    with copy q Cons.prems end_last [OF spec y wf, of 0] first sz show ?thesis
      by (subst blk_segments.simps) (simp add: finish_last fin [unfolded True])
  next
    case False
    then have more: "tl (rq_todo ?y) \<noteq> []" by simp
    note e = end_not_last [OF spec y wf more, of 0]
    have "\<exists>t. blk_segments B (blk_copy_out B r) r ?u = Some (Inr t) \<and>
        simp_blkdev_data t = simp_blkdev_data ?u \<and>
        view (layer t) = (view (layer ?u))\<lparr>started := (started (view (layer ?u)))(r := None),
          completed := completed (view (layer ?u)) @ [finish_rq (end_segment 0 ?y)
            (split_like segs (load (simp_blkdev_data ?u) (rq_start (end_segment 0 ?y))
              (rq_size (end_segment 0 ?y))))]\<rparr>"
      by (rule Cons.IH)
        (use e more end_segment_wf [OF wf more, of 0] rq_on_disk_end [OF wf od, of 0] in simp_all)
    moreover have "rq_size (end_segment 0 ?y) = length (concat segs)" by (simp add: rq_size_def)
    moreover have "rq_start (end_segment 0 ?y) = rq_start x + length seg"
      using rq_start_end [OF wf od, of 0] st by simp
    ultimately show ?thesis
      using copy e q Cons.prems first
      by (subst blk_segments.simps) (simp add: finish_end [OF wf] fin)
  qed
qed


lemma blk_serve_refines:
  assumes spec: "block_layer_spec B view" and x: "started (view (layer s)) r = Some x"
    and wf: "rq_wf x" and nw: "rq_no_wrap x"
  shows "\<exists>t. blk_serve B r s = Some (Inr t) \<and>
    simp_blkdev_data t = fst (disk_serve (simp_blkdev_data s) x) \<and>
    view (layer t) = after_end r (snd (disk_serve (simp_blkdev_data s) x)) (view (layer s))"
proof (cases "rq_on_disk x")
  case False
  then show ?thesis
    using bad_request_exact [OF assms] layer_rq(8) [OF spec x wf, of 0]
    by (simp add: blk_serve_def disk_serve_def)
next
  case True
  note good = bad_request_exact [OF assms]
  show ?thesis
  proof (cases "rq_write x")
    case w: True
    then show ?thesis
      using blk_segments_write [OF spec x wf True refl] good layer_rq(4) [OF spec x wf] True
      by (auto simp: blk_serve_def disk_serve_def after_end_def finish_rq_def)
  next
    case r: False
    then show ?thesis
      using blk_segments_read [OF spec x wf True refl] good layer_rq(4) [OF spec x wf] True
      by (auto simp: blk_serve_def disk_serve_def after_end_def finish_rq_def)
  qed
qed

section \<open>Serving the queue\<close>

lemma do_request_empty:
  assumes "block_layer_spec B view" and "waiting (view (layer s)) = []"
  shows "\<exists>t. simp_blkdev_do_request B s = Some (Inr t) \<and>
    simp_blkdev_data t = simp_blkdev_data s \<and> view (layer t) = view (layer s)"
  using layer_fetch_None [OF assms] by (subst simp_blkdev_do_request.simps) simp

lemma do_request_refines:
  assumes spec: "block_layer_spec B view"
  shows "waiting (view (layer s)) = ws \<Longrightarrow> \<forall>x \<in> set ws. rq_wf x \<and> rq_no_wrap x \<Longrightarrow>
    \<exists>t. simp_blkdev_do_request B s = Some (Inr t) \<and>
      simp_blkdev_data t = fst (disk_run (simp_blkdev_data s) ws) \<and>
      waiting (view (layer t)) = [] \<and>
      completed (view (layer t)) = completed (view (layer s)) @
        filter (\<lambda>y. rq_todo y = []) (snd (disk_run (simp_blkdev_data s) ws)) \<and>
      ran (started (view (layer t))) = ran (started (view (layer s))) \<union>
        {y \<in> set (snd (disk_run (simp_blkdev_data s) ws)). rq_todo y \<noteq> []}"
proof (induction ws arbitrary: s)
  case Nil
  then show ?case using do_request_empty [OF spec Nil.prems(1)] by auto
next
  case (Cons x xs)
  from layer_fetch_Some [OF spec Cons.prems(1)] obtain r q where
    f: "blk_fetch_request B (layer s) = (Some r, q)" and n: "started (view (layer s)) r = None"
    and q: "view q = (view (layer s))\<lparr>waiting := xs, started := (started (view (layer s)))(r \<mapsto> x)\<rparr>" .
  let ?s = "s\<lparr>layer := q\<rparr>"
  let ?y = "snd (disk_serve (simp_blkdev_data s) x)"
  have "started (view (layer ?s)) r = Some x" using q by simp
  with blk_serve_refines [OF spec, of ?s r x] Cons.prems(2) obtain t where
    t: "blk_serve B r ?s = Some (Inr t)"
    "simp_blkdev_data t = fst (disk_serve (simp_blkdev_data s) x)"
    "view (layer t) = after_end r ?y (view q)" by auto
  have w: "waiting (view (layer t)) = xs" using t(3) q by (simp add: after_end_def)
  have c: "completed (view (layer t)) = completed (view (layer s)) @ (if rq_todo ?y = [] then [?y] else [])"
    using t(3) q by (simp add: after_end_def)
  have st: "ran (started (view (layer t))) =
      ran (started (view (layer s))) \<union> (if rq_todo ?y = [] then {} else {?y})"
    using t(3) q n by (auto simp: after_end_def fun_upd_idem ran_map_upd)
  have step: "simp_blkdev_do_request B s = simp_blkdev_do_request B t"
    using f t(1) by (subst simp_blkdev_do_request.simps) simp
  from Cons.IH [OF w] Cons.prems(2) obtain u where
    "simp_blkdev_do_request B t = Some (Inr u)"
    "simp_blkdev_data u = fst (disk_run (simp_blkdev_data t) xs)"
    "waiting (view (layer u)) = []"
    "completed (view (layer u)) = completed (view (layer t)) @
        filter (\<lambda>y. rq_todo y = []) (snd (disk_run (simp_blkdev_data t) xs))"
    "ran (started (view (layer u))) = ran (started (view (layer t))) \<union>
        {y \<in> set (snd (disk_run (simp_blkdev_data t) xs)). rq_todo y \<noteq> []}" by auto
  then show ?case
    unfolding step c st t(2)
    by (intro exI [of _ u]) (auto simp: Let_def case_prod_beta)
qed

text \<open>Whatever the requests, each copy leaves the queue alone and each segment is ended.\<close>

definition copy_keeps :: "('q \<Rightarrow> 'r blk_view) \<Rightarrow> 'r \<Rightarrow> ('q blk_sys \<Rightarrow> fault + 'q blk_sys) \<Rightarrow> bool" where
  "copy_keeps view r copy \<longleftrightarrow>
    (\<forall>s x t. started (view (layer s)) r = Some x \<and> rq_wf x \<and> copy s = Inr t \<longrightarrow>
      (\<exists>y. started (view (layer t)) r = Some y \<and> rq_wf y \<and>
        length (rq_todo y) = length (rq_todo x)) \<and>
      waiting (view (layer t)) = waiting (view (layer s)))"

lemma copies_keep:
  assumes spec: "block_layer_spec B view"
  shows "copy_keeps view r (blk_copy_in B r)" and "copy_keeps view r (blk_copy_out B r)"
proof -
  show "copy_keeps view r (blk_copy_in B r)"
    by (auto simp: copy_keeps_def blk_copy_in_def Let_def split: if_splits)
  show "copy_keeps view r (blk_copy_out B r)"
    unfolding copy_keeps_def
  proof (intro allI impI, elim conjE)
    fix s x t
    assume x: "started (view (layer s)) r = Some x" "rq_wf x" and t: "blk_copy_out B r s = Inr t"
    define bs where "bs = load (simp_blkdev_data s) (unat (rq_offset B (layer s) r)) (length (hd (rq_todo x)))"
    have bs: "length bs = length (hd (rq_todo x))" by (simp add: bs_def)
    have l: "layer t = bio_data_put B (layer s) r bs"
      using t layer_rq(3) [OF spec x] unat_cur_bytes [OF x(2)]
      by (auto simp: blk_copy_out_def Let_def bs_def split: if_splits)
    let ?y = "x\<lparr>rq_todo := bs # tl (rq_todo x)\<rparr>"
    have "rq_wf ?y" "length (rq_todo ?y) = length (rq_todo x)"
      using x(2) bs by (cases "rq_todo x"; auto simp: rq_wf_def rq_size_def)+
    then show "(\<exists>y. started (view (layer t)) r = Some y \<and> rq_wf y \<and>
        length (rq_todo y) = length (rq_todo x)) \<and>
      waiting (view (layer t)) = waiting (view (layer s))"
      using layer_rq(6) [OF spec x bs] l by simp
  qed
qed

lemma blk_segments_returns:
  assumes spec: "block_layer_spec B view" and copy: "copy_keeps view r copy"
  shows "started (view (layer s)) r = Some x \<Longrightarrow> rq_wf x \<Longrightarrow>
    \<exists>res. blk_segments B copy r s = Some res \<and>
      (\<forall>t. res = Inr t \<longrightarrow> waiting (view (layer t)) = waiting (view (layer s)))"
proof (induction "length (rq_todo x)" arbitrary: s x rule: less_induct)
  case less
  show ?case
  proof (cases "copy s")
    case (Inl e)
    then show ?thesis by (subst blk_segments.simps) simp
  next
    case (Inr t)
    with copy less.prems obtain y where y: "started (view (layer t)) r = Some y" "rq_wf y"
      and len: "length (rq_todo y) = length (rq_todo x)"
      and w: "waiting (view (layer t)) = waiting (view (layer s))"
      unfolding copy_keeps_def by blast
    let ?u = "t\<lparr>layer := snd (blk_end_request_cur B (layer t) r 0)\<rparr>"
    show ?thesis
    proof (cases "tl (rq_todo y) = []")
      case True
      with Inr w end_last [OF spec y True, of 0] show ?thesis
        by (subst blk_segments.simps) simp
    next
      case False
      note e = end_not_last [OF spec y False, of 0]
      have "length (rq_todo (end_segment 0 y)) < length (rq_todo x)"
        using len less.prems(2) by (cases "rq_todo x") (auto simp: rq_wf_def)
      moreover have "started (view (layer ?u)) r = Some (end_segment 0 y)" using e by simp
      moreover have "rq_wf (end_segment 0 y)" using end_segment_wf [OF y(2) False] .
      ultimately obtain res where "blk_segments B copy r ?u = Some res"
        "\<forall>t. res = Inr t \<longrightarrow> waiting (view (layer t)) = waiting (view (layer ?u))"
        using less.hyps by blast
      then show ?thesis
        using Inr e w by (subst blk_segments.simps) simp
    qed
  qed
qed

lemma blk_serve_returns:
  assumes spec: "block_layer_spec B view" and x: "started (view (layer s)) r = Some x" "rq_wf x"
  shows "\<exists>res. blk_serve B r s = Some res \<and>
    (\<forall>t. res = Inr t \<longrightarrow> waiting (view (layer t)) = waiting (view (layer s)))"
proof -
  have "waiting (view (snd (blk_end_request_cur B (layer s) r 0))) = waiting (view (layer s))"
    using layer_rq(8) [OF spec x, of 0] by (simp add: after_end_def)
  then show ?thesis
    using blk_segments_returns [OF spec copies_keep(1) [OF spec] x]
      blk_segments_returns [OF spec copies_keep(2) [OF spec] x] layer_rq(4) [OF spec x]
    by (auto simp: blk_serve_def)
qed

lemma do_request_returns:
  assumes spec: "block_layer_spec B view"
  shows "waiting (view (layer s)) = ws \<Longrightarrow> \<forall>x \<in> set ws. rq_wf x \<Longrightarrow>
    \<exists>res. simp_blkdev_do_request B s = Some res \<and>
      (\<forall>t. res = Inr t \<longrightarrow> waiting (view (layer t)) = [])"
proof (induction ws arbitrary: s)
  case Nil
  then show ?case using do_request_empty [OF spec Nil.prems(1)] by auto
next
  case (Cons x xs)
  from layer_fetch_Some [OF spec Cons.prems(1)] obtain r q where
    f: "blk_fetch_request B (layer s) = (Some r, q)"
    and q: "view q = (view (layer s))\<lparr>waiting := xs, started := (started (view (layer s)))(r \<mapsto> x)\<rparr>" .
  have "started (view (layer (s\<lparr>layer := q\<rparr>))) r = Some x" using q by simp
  with blk_serve_returns [OF spec this] Cons.prems(2) obtain res where
    res: "blk_serve B r (s\<lparr>layer := q\<rparr>) = Some res"
      "\<forall>t. res = Inr t \<longrightarrow> waiting (view (layer t)) = xs" using q by auto
  have step: "simp_blkdev_do_request B s =
      (case res of Inl e \<Rightarrow> Some (Inl e) | Inr t \<Rightarrow> simp_blkdev_do_request B t)"
    using f res(1) by (subst simp_blkdev_do_request.simps) simp
  show ?case
    using Cons.IH Cons.prems(2) res(2) by (cases res) (simp_all add: step)
qed


section \<open>A block layer that meets its contract\<close>

text \<open>
  Requests in lists, handles counted upwards. It shows that the contract can be met, and the
  driver runs on it in the examples.
\<close>

record list_queue =
  lq_waiting :: "blk_rq list"
  lq_started :: "blk_rq option list"
  lq_completed :: "blk_rq list"

definition lq_view :: "list_queue \<Rightarrow> nat blk_view" where
  "lq_view q = \<lparr>waiting = lq_waiting q,
     started = (\<lambda>r. if r < length (lq_started q) then lq_started q ! r else None),
     completed = lq_completed q\<rparr>"

definition lq_rq :: "list_queue \<Rightarrow> nat \<Rightarrow> blk_rq" where
  "lq_rq q r = the (lq_started q ! r)"

definition lq_fetch :: "list_queue \<Rightarrow> nat option \<times> list_queue" where
  "lq_fetch q = (case lq_waiting q of
     [] \<Rightarrow> (None, q)
   | x # xs \<Rightarrow> (Some (length (lq_started q)),
       q\<lparr>lq_waiting := xs, lq_started := lq_started q @ [Some x]\<rparr>))"

definition lq_end :: "list_queue \<Rightarrow> nat \<Rightarrow> int \<Rightarrow> bool \<times> list_queue" where
  "lq_end q r status =
    (let x = end_segment status (lq_rq q r) in
     if rq_todo x = []
     then (False, q\<lparr>lq_started := (lq_started q)[r := None], lq_completed := lq_completed q @ [x]\<rparr>)
     else (True, q\<lparr>lq_started := (lq_started q)[r := Some x]\<rparr>))"

definition list_layer :: "(list_queue, nat) block_layer" where
  "list_layer =
    \<lparr>blk_fetch_request = lq_fetch,
     blk_rq_pos = (\<lambda>q r. rq_pos (lq_rq q r)),
     blk_rq_bytes = (\<lambda>q r. of_nat (rq_size (lq_rq q r))),
     blk_rq_cur_bytes = (\<lambda>q r. of_nat (length (hd (rq_todo (lq_rq q r))))),
     rq_data_dir = (\<lambda>q r. if rq_write (lq_rq q r) then 1 else 0),
     bio_data_get = (\<lambda>q r n. take n (hd (rq_todo (lq_rq q r)))),
     bio_data_put = (\<lambda>q r bs. q\<lparr>lq_started := (lq_started q)
        [r := Some ((lq_rq q r)\<lparr>rq_todo := bs # tl (rq_todo (lq_rq q r))\<rparr>)]\<rparr>),
     blk_end_request_cur = lq_end\<rparr>"

lemma list_layer_spec: "block_layer_spec list_layer lq_view"
  by (auto simp: block_layer_spec_def list_layer_def lq_view_def lq_fetch_def lq_rq_def lq_end_def
      after_end_def Let_def nth_append nth_list_update fun_eq_iff split: if_splits)

definition lq_sys :: "kmem \<Rightarrow> blk_rq list \<Rightarrow> list_queue blk_sys" where
  "lq_sys m xs = \<lparr>simp_blkdev_data = m,
     layer = \<lparr>lq_waiting = xs, lq_started = [], lq_completed = []\<rparr>\<rparr>"

lemma lq_sys_view [simp]:
  "simp_blkdev_data (lq_sys m xs) = m" "waiting (lq_view (layer (lq_sys m xs))) = xs"
  "completed (lq_view (layer (lq_sys m xs))) = []"
  "started (lq_view (layer (lq_sys m xs))) = (\<lambda>_. None)"
  by (auto simp: lq_sys_def lq_view_def)

definition sector_rq :: "bool \<Rightarrow> 64 word \<Rightarrow> nat \<Rightarrow> byte \<Rightarrow> blk_rq" where
  "sector_rq w pos n b = \<lparr>rq_pos = pos, rq_write = w, rq_todo = replicate n (replicate 512 b), rq_ended = []\<rparr>"

lemma sector_rq_simps [simp]:
  "rq_pos (sector_rq w pos n b) = pos" "rq_write (sector_rq w pos n b) = w"
  "rq_todo (sector_rq w pos n b) = replicate n (replicate 512 b)"
  "rq_ended (sector_rq w pos n b) = []" "rq_size (sector_rq w pos n b) = 512 * n"
  by (simp_all add: sector_rq_def rq_size_def length_concat sum_list_replicate)

lemma sector_rq_wf: "0 < n \<Longrightarrow> n \<le> 8388607 \<Longrightarrow> rq_wf (sector_rq w pos n b)"
  by (auto simp: rq_wf_def)


text \<open>
  \<open>set_capacity(simp_blkdev_disk, SIMP_BLKDEV_BYTES>>9)\<close>: a request that ends within the capacity
  the driver announces, in sectors, is one it accepts.
\<close>

definition simp_blkdev_capacity :: "64 word" where
  "simp_blkdev_capacity = drop_bit 9 SIMP_BLKDEV_BYTES"

lemma within_capacity_on_disk:
  assumes "rq_wf x" and "unat (rq_pos x) + rq_size x div 512 \<le> unat simp_blkdev_capacity"
  shows "rq_on_disk x \<and> rq_no_wrap x"
proof -
  have "unat simp_blkdev_capacity = 32768"
    by (simp add: simp_blkdev_capacity_def SIMP_BLKDEV_BYTES_def)
  moreover have "rq_size x = 512 * (rq_size x div 512)" using rq_wf_size [OF assms(1)] by simp
  ultimately have "rq_on_disk x"
    using assms(2) by (simp add: rq_on_disk_def rq_start_def)
  then show ?thesis using rq_on_disk_no_wrap by simp
qed

section \<open>The disk as a byte store\<close>

interpretation disk: byte_store load store 16777216
  by unfold_locales (simp_all add: load_append load_store_same load_store_disjoint)

definition rq_writes :: "blk_rq list \<Rightarrow> (nat \<times> byte list) list" where
  "rq_writes xs = map (\<lambda>x. (rq_start x, concat (rq_todo x))) (filter rq_write xs)"

lemma disk_run_writes:
  "\<forall>x \<in> set xs. rq_on_disk x \<Longrightarrow> fst (disk_run m xs) = disk.wr_all m (rq_writes xs)"
proof (induction xs arbitrary: m)
  case Nil
  then show ?case by (simp add: rq_writes_def)
next
  case (Cons x xs)
  then show ?case by (simp add: rq_writes_def disk_serve_def Let_def case_prod_beta)
qed

lemma disk_run_append:
  "snd (disk_run m (xs @ ys)) = snd (disk_run m xs) @ snd (disk_run (fst (disk_run m xs)) ys)"
  by (induction xs arbitrary: m) (simp_all add: Let_def case_prod_beta)

lemma concat_finish_rq:
  "rq_ended x = [] \<Longrightarrow> concat (map fst (rq_ended (finish_rq x segs))) = concat segs"
  by (simp add: finish_rq_def comp_def)

section \<open>Properties\<close>

text \<open>
  C2. The request function refines the disk: for every queue of requests whose byte positions
  do not wrap, it returns without touching memory outside the array, the array holds what
  serving the requests one by one as whole ranges gives, every request inside the disk is
  completed in order with its data, and the requests beyond the disk that have more than one
  segment stay started with the rest of their segments.
\<close>

theorem blk_requests_refine_disk:
  assumes "block_layer_spec B view" and "waiting (view (layer s)) = ws"
    and "\<forall>x \<in> set ws. rq_wf x \<and> rq_no_wrap x"
  shows "\<exists>t. simp_blkdev_do_request B s = Some (Inr t) \<and>
    simp_blkdev_data t = fst (disk_run (simp_blkdev_data s) ws) \<and>
    waiting (view (layer t)) = [] \<and>
    completed (view (layer t)) = completed (view (layer s)) @
      filter (\<lambda>y. rq_todo y = []) (snd (disk_run (simp_blkdev_data s) ws)) \<and>
    ran (started (view (layer t))) = ran (started (view (layer s))) \<union>
      {y \<in> set (snd (disk_run (simp_blkdev_data s) ws)). rq_todo y \<noteq> []}"
  using do_request_refines [OF assms] .

theorem blk_requests_refine_disk_witness:
  "\<exists>t. simp_blkdev_do_request list_layer
      (lq_sys (\<lambda>_. 0) [sector_rq True 1 2 7, sector_rq False 2 1 0, sector_rq True 32767 2 9]) =
      Some (Inr t) \<and>
    length (completed (lq_view (layer t))) = 2 \<and> started (lq_view (layer t)) \<noteq> Map.empty"
proof -
  let ?ws = "[sector_rq True 1 2 7, sector_rq False 2 1 0, sector_rq True 32767 2 9]"
  have "\<forall>x \<in> set ?ws. rq_wf x \<and> rq_no_wrap x"
    by (auto simp: sector_rq_wf rq_no_wrap_def rq_start_def)
  from blk_requests_refine_disk [OF list_layer_spec lq_sys_view(2) this, of "\<lambda>_. 0"]
  obtain t where t: "simp_blkdev_do_request list_layer (lq_sys (\<lambda>_. 0) ?ws) = Some (Inr t)"
    "completed (lq_view (layer t)) = filter (\<lambda>y. rq_todo y = []) (snd (disk_run (\<lambda>_. 0) ?ws))"
    "ran (started (lq_view (layer t))) = ran (\<lambda>_ :: nat. None :: blk_rq option) \<union>
      {y \<in> set (snd (disk_run (\<lambda>_. 0) ?ws)). rq_todo y \<noteq> []}" by auto
  have "snd (disk_run (\<lambda>_. 0) ?ws) =
      [finish_rq (hd ?ws) (rq_todo (hd ?ws)), snd (disk_serve (fst (disk_serve (\<lambda>_. 0) (hd ?ws))) (?ws ! 1)),
       end_segment 0 (sector_rq True 32767 2 9)]"
    and "rq_todo (snd (disk_serve (fst (disk_serve (\<lambda>_. 0) (hd ?ws))) (?ws ! 1))) = []"
    by (simp_all add: Let_def case_prod_beta disk_serve_def rq_on_disk_def rq_start_def finish_rq_def)
  then have "length (completed (lq_view (layer t))) = 2"
    and "end_segment 0 (sector_rq True 32767 2 9) \<in> ran (started (lq_view (layer t)))"
    unfolding t(2,3) by (simp_all add: finish_rq_def numeral_2_eq_2)
  with t(1) show ?thesis by (intro exI [of _ t]) (auto simp: ran_def)
qed

text \<open>
  C17. The request function returns for every queue of well-formed requests, wrapped positions
  included: either with an empty queue or with a fault.
\<close>

theorem blk_requests_return:
  assumes "block_layer_spec B view" and "waiting (view (layer s)) = ws" and "\<forall>x \<in> set ws. rq_wf x"
  shows "\<exists>res. simp_blkdev_do_request B s = Some res \<and>
    (\<forall>t. res = Inr t \<longrightarrow> waiting (view (layer t)) = [])"
  using do_request_returns [OF assms] .

theorem blk_requests_return_witness:
  "\<exists>res. simp_blkdev_do_request list_layer
    (lq_sys (\<lambda>_. 0) [sector_rq True 36028797018963967 2 7, sector_rq False 2 1 0]) = Some res"
  using blk_requests_return [OF list_layer_spec lq_sys_view(2),
      of "[sector_rq True 36028797018963967 2 7, sector_rq False 2 1 0]" "\<lambda>_. 0"]
  by (auto simp: sector_rq_wf)

text \<open>
  C18. What is written is read back: a read request delivers exactly the bytes of the last
  write request to its range, whatever other requests on other sectors are served between.
\<close>

theorem blk_read_back:
  assumes spec: "block_layer_spec B view"
    and ws: "waiting (view (layer s)) = w # ys @ [rd]"
    and wf: "\<forall>x \<in> set (w # ys @ [rd]). rq_wf x \<and> rq_on_disk x"
    and w: "rq_write w" and rd: "\<not> rq_write rd" "rq_ended rd = []"
    and range: "rq_pos rd = rq_pos w" "rq_size rd = rq_size w"
    and other: "\<forall>y \<in> set ys. rq_write y \<longrightarrow>
      rq_start y + rq_size y \<le> rq_start w \<or> rq_start w + rq_size w \<le> rq_start y"
  shows "\<exists>t. simp_blkdev_do_request B s = Some (Inr t) \<and> completed (view (layer t)) \<noteq> [] \<and>
    concat (map fst (rq_ended (last (completed (view (layer t)))))) = concat (rq_todo w)"
proof -
  let ?m = "simp_blkdev_data s"
  let ?run = "fst (disk_run ?m (w # ys))"
  have "\<forall>x \<in> set (w # ys @ [rd]). rq_wf x \<and> rq_no_wrap x"
    using wf by (auto intro: rq_on_disk_no_wrap)
  from do_request_refines [OF spec ws this] obtain t where
    t: "simp_blkdev_do_request B s = Some (Inr t)"
    and c: "completed (view (layer t)) = completed (view (layer s)) @
        filter (\<lambda>y. rq_todo y = []) (snd (disk_run ?m ((w # ys) @ [rd])))" by auto
  have st: "rq_start rd = rq_start w" using range by (simp add: rq_start_def)
  have "rq_on_disk rd" and od: "rq_start w + length (concat (rq_todo w)) \<le> 16777216"
    using wf by (auto simp: rq_on_disk_def rq_size_def)
  then have r: "snd (disk_run ?run [rd]) =
      [finish_rq rd (split_like (rq_todo rd) (load ?run (rq_start w) (rq_size w)))]"
    using rd st range by (simp add: disk_serve_def Let_def)
  have "load ?run (rq_start w) (rq_size w) =
      load (store ?m (rq_start w) (concat (rq_todo w))) (rq_start w) (rq_size w)"
  proof -
    have "?run = disk.wr_all (store ?m (rq_start w) (concat (rq_todo w))) (rq_writes ys)"
      using disk_run_writes [of "w # ys" ?m] wf w by (simp add: rq_writes_def)
    moreover have "\<forall>(a, bs) \<in> set (rq_writes ys). a + length bs \<le> 16777216 \<and>
        (rq_start w + rq_size w \<le> a \<or> a + length bs \<le> rq_start w)"
      using wf other by (auto simp: rq_writes_def rq_on_disk_def rq_size_def)
    ultimately show ?thesis using disk.rd_wr_all_other od by (simp add: rq_size_def)
  qed
  also have "\<dots> = concat (rq_todo w)"
    using disk.rd_wr_same [OF od] by (simp add: rq_size_def)
  finally have "concat (map fst (rq_ended (finish_rq rd
      (split_like (rq_todo rd) (load ?run (rq_start w) (rq_size w)))))) = concat (rq_todo w)"
    using range by (simp add: concat_finish_rq rd(2) split_like_lengths rq_size_def)
  with t c r show ?thesis
    unfolding disk_run_append by (intro exI [of _ t]) (simp add: finish_rq_def)
qed

theorem blk_read_back_witness:
  "\<exists>t. simp_blkdev_do_request list_layer
      (lq_sys (\<lambda>_. 0) [sector_rq True 3 2 7, sector_rq True 5 1 9, sector_rq False 3 2 0]) =
      Some (Inr t) \<and>
    concat (map fst (rq_ended (last (completed (lq_view (layer t)))))) = replicate 1024 7"
proof -
  have "concat (replicate 2 (replicate 512 7)) = replicate 1024 (7 :: byte)"
    by (simp add: numeral_2_eq_2 flip: replicate_add)
  then show ?thesis
    using blk_read_back [OF list_layer_spec, of "lq_sys (\<lambda>_. 0)
        [sector_rq True 3 2 7, sector_rq True 5 1 9, sector_rq False 3 2 0]"
        "sector_rq True 3 2 7" "[sector_rq True 5 1 9]" "sector_rq False 3 2 0"]
    by (auto simp: sector_rq_wf rq_on_disk_def rq_start_def)
qed

text \<open>
  A request beyond the end of the disk is not refused: its first segment is ended with
  status 0, success, with its buffer untouched; nothing is copied; and if it has more segments
  it stays started and nobody ends them.
\<close>

lemma blk_bad_request_looks_successful:
  assumes "block_layer_spec B view" and "started (view (layer s)) r = Some x" and "rq_wf x"
    and "rq_no_wrap x" and "\<not> rq_on_disk x"
  shows "\<exists>t. blk_serve B r s = Some (Inr t) \<and> simp_blkdev_data t = simp_blkdev_data s \<and>
    (if tl (rq_todo x) = []
     then rq_ended (last (completed (view (layer t)))) = rq_ended x @ [(hd (rq_todo x), 0)]
     else started (view (layer t)) r = Some (end_segment 0 x))"
  using blk_serve_refines [OF assms(1-4)] assms(5)
  by (auto simp: disk_serve_def after_end_def end_segment_def)

text \<open>
  C40. The range check wraps: a request that starts at the last sector a 64-bit byte offset can
  name and is at least two sectors long passes it, and the copy starts outside the array.
\<close>

theorem blk_range_check_wraps:
  assumes "block_layer_spec B view" and "started (view (layer s)) r = Some x" and "rq_wf x"
    and "rq_pos x = 36028797018963967" and "512 < rq_size x" and "rq_size x \<le> 16777216"
  shows "\<not> bad_request B (layer s) r \<and>
    blk_serve B r s = Some (Inl (if rq_write x then Oob_write else Oob_read))"
proof -
  have off: "uint (push_bit 9 (36028797018963967 :: 64 word)) = 18446744073709551104"
    by (simp add: uint_offset)
  have u: "uint (ucast (of_nat (rq_size x) :: 32 word) :: 64 word) = int (rq_size x)"
    using assms(6) by (simp add: unsigned_ucast_eq unsigned_of_nat take_bit_nat_eq_self take_bit_int_eq_self)
  have "(18446744073709551104 + int (rq_size x)) mod 18446744073709551616 = int (rq_size x) - 512"
    using assms(5,6) by (intro int_mod_pos_eq [where q = 1]) auto
  then have ok: "\<not> bad_request B (layer s) r"
    using layer_rq(1,2) [OF assms(1-3)] assms(4,6) off u
    by (simp add: bad_request_def rq_offset_def SECTOR_SIZE_SHIFT_def SIMP_BLKDEV_BYTES_def
        word_less_def uint_word_ariths)
  have "0 < length (hd (rq_todo x))" using assms(3) by (elim rq_wf_cases) simp
  then have "\<not> in_array 16777216 18446744073709551104 (int (length (hd (rq_todo x))))"
    by (simp add: in_array_def)
  then have "blk_copy_in B r s = Inl Oob_write" "blk_copy_out B r s = Inl Oob_read"
    using layer_rq(1,3) [OF assms(1-3)] assms(4) off unat_cur_bytes [OF assms(3)]
    by (simp_all add: blk_copy_in_def blk_copy_out_def rq_offset_def SECTOR_SIZE_SHIFT_def
        SIMP_BLKDEV_BYTES_def Let_def)
  with ok show ?thesis
    using layer_rq(4) [OF assms(1-3)] by (simp add: blk_serve_def blk_segments.simps)
qed

theorem blk_range_check_wraps_witness:
  "blk_serve list_layer 0
    \<lparr>simp_blkdev_data = \<lambda>_. 0, layer = \<lparr>lq_waiting = [],
      lq_started = [Some (sector_rq True 36028797018963967 2 5)], lq_completed = []\<rparr>\<rparr> =
    Some (Inl Oob_write)"
  using blk_range_check_wraps [OF list_layer_spec, of
      "\<lparr>simp_blkdev_data = \<lambda>_. 0, layer = \<lparr>lq_waiting = [],
        lq_started = [Some (sector_rq True 36028797018963967 2 5)], lq_completed = []\<rparr>\<rparr>" 0
      "sector_rq True 36028797018963967 2 5"]
  by (auto simp: sector_rq_wf lq_view_def)

end
