(* ===== verification/Semaphore_Dev.thy ===== *)
theory Semaphore_Dev
  imports Scheduler
begin

text \<open>
  The semaphore driver \<open>03-fileOperate/semaphore/semaphore_drv.c\<close>: a read of the device is
  \<open>down(&sem)\<close>, a write is \<open>up(&sem)\<close>, the semaphore starts at 1, and each call prints
  \<open>sem.count\<close> in a step of its own, since another caller can run in between.

  The kernel's semaphore is a parameter, the record \<open>sem_ops\<close>. \<open>down\<close> either takes the
  semaphore or puts the caller at the end of the wait list; \<open>up\<close> hands the semaphore to
  the first waiter, or counts up when nobody waits. \<open>sem_spec\<close> states this.
\<close>

section \<open>The kernel's semaphore as a parameter\<close>

record 's sem_ops =
  sema_init :: "int \<Rightarrow> 's"
  down :: "nat \<Rightarrow> 's \<Rightarrow> bool \<times> 's"
  up :: "'s \<Rightarrow> nat option \<times> 's"
  sem_count :: "'s \<Rightarrow> int"

definition sem_spec :: "'s sem_ops \<Rightarrow> ('s \<Rightarrow> nat list) \<Rightarrow> bool" where
  "sem_spec S waiters \<longleftrightarrow>
    (\<forall>n \<ge> 0. sem_count S (sema_init S n) = n \<and> waiters (sema_init S n) = []) \<and>
    (\<forall>i s. 0 < sem_count S s \<longrightarrow> (\<exists>s'. down S i s = (True, s') \<and>
      sem_count S s' = sem_count S s - 1 \<and> waiters s' = waiters s)) \<and>
    (\<forall>i s. sem_count S s = 0 \<longrightarrow> (\<exists>s'. down S i s = (False, s') \<and>
      sem_count S s' = 0 \<and> waiters s' = waiters s @ [i])) \<and>
    (\<forall>s. waiters s = [] \<longrightarrow> (\<exists>s'. up S s = (None, s') \<and>
      sem_count S s' = sem_count S s + 1 \<and> waiters s' = [])) \<and>
    (\<forall>s w ws. waiters s = w # ws \<longrightarrow> (\<exists>s'. up S s = (Some w, s') \<and>
      sem_count S s' = sem_count S s \<and> waiters s' = ws))"

lemma sem_down_passes:
  assumes "sem_spec S waiters" and "0 < sem_count S v"
  obtains v' where "down S i v = (True, v')" and "sem_count S v' = sem_count S v - 1"
    and "waiters v' = waiters v"
  using assms unfolding sem_spec_def by blast

lemma sem_down_waits:
  assumes "sem_spec S waiters" and "sem_count S v = 0"
  obtains v' where "down S i v = (False, v')" and "sem_count S v' = 0" and "waiters v' = waiters v @ [i]"
  using assms unfolding sem_spec_def by blast

lemma sem_up_counts:
  assumes "sem_spec S waiters" and "waiters v = []"
  obtains v' where "up S v = (None, v')" and "sem_count S v' = sem_count S v + 1" and "waiters v' = []"
  using assms unfolding sem_spec_def by blast

lemma sem_up_wakes:
  assumes "sem_spec S waiters" and "waiters v = w # ws"
  obtains v' where "up S v = (Some w, v')" and "sem_count S v' = sem_count S v" and "waiters v' = ws"
  using assms unfolding sem_spec_def by blast

section \<open>The driver\<close>

datatype sem_call = Sem_read | Sem_write int

datatype sem_pc = S_idle | S_start | S_asleep | S_log | S_done int

record 's sem_sys =
  sem :: 's
  spcs :: "nat \<Rightarrow> sem_pc"
  slog :: "int list"

text \<open>The value a call returns: \<open>_read\<close> returns 0, \<open>_write\<close> the count it was given.\<close>

fun sem_ret :: "sem_call \<Rightarrow> int" where
  "sem_ret Sem_read = 0"
| "sem_ret (Sem_write cnt) = cnt"

definition sem_open :: "'s sem_sys \<Rightarrow> 's sem_sys \<times> int" where
  "sem_open s = (s, 0)"

definition sem_release :: "'s sem_sys \<Rightarrow> 's sem_sys \<times> int" where
  "sem_release s = (s, 0)"

definition sem_read_down :: "'s sem_ops \<Rightarrow> nat \<Rightarrow> 's sem_sys \<Rightarrow> 's sem_sys" where
  "sem_read_down S i s =
    (let (ok, v) = down S i (sem s) in
     s\<lparr>sem := v, spcs := (spcs s)(i := if ok then S_log else S_asleep)\<rparr>)"

definition sem_write_up :: "'s sem_ops \<Rightarrow> nat \<Rightarrow> 's sem_sys \<Rightarrow> 's sem_sys" where
  "sem_write_up S i s =
    (let (woken, v) = up S (sem s);
         p = (case woken of None \<Rightarrow> spcs s | Some w \<Rightarrow> (spcs s)(w := S_log))
     in s\<lparr>sem := v, spcs := p(i := S_log)\<rparr>)"

definition sem_tstep :: "'s sem_ops \<Rightarrow> (nat \<Rightarrow> sem_call) \<Rightarrow> nat \<Rightarrow> 's sem_sys \<Rightarrow> 's sem_sys option" where
  "sem_tstep S call i s =
    (case spcs s i of
       S_start \<Rightarrow> Some (case call i of Sem_read \<Rightarrow> sem_read_down S i s | Sem_write _ \<Rightarrow> sem_write_up S i s)
     | S_log \<Rightarrow> Some (s\<lparr>spcs := (spcs s)(i := S_done (sem_ret (call i))),
         slog := slog s @ [sem_count S (sem s)]\<rparr>)
     | _ \<Rightarrow> None)"

definition mod_init_sem :: "'s sem_ops \<Rightarrow> nat \<Rightarrow> 's sem_sys" where
  "mod_init_sem S n = \<lparr>sem = sema_init S 1, spcs = (\<lambda>i. if i < n then S_start else S_idle),
     slog = [sem_count S (sema_init S 1)]\<rparr>"

section \<open>The invariant\<close>

text \<open>What a call has taken from the count by the time it is at a given point.\<close>

fun passed :: "sem_pc \<Rightarrow> bool" where
  "passed S_log = True"
| "passed (S_done r) = True"
| "passed _ = False"

definition taken :: "sem_call \<Rightarrow> sem_pc \<Rightarrow> int" where
  "taken c p = (if passed p then (if c = Sem_read then 1 else - 1) else 0)"

definition sem_balance :: "(nat \<Rightarrow> sem_call) \<Rightarrow> nat \<Rightarrow> (nat \<Rightarrow> sem_pc) \<Rightarrow> int" where
  "sem_balance call N p = (\<Sum>i < N. taken (call i) (p i))"

definition sem_inv :: "'s sem_ops \<Rightarrow> ('s \<Rightarrow> nat list) \<Rightarrow> (nat \<Rightarrow> sem_call) \<Rightarrow> nat \<Rightarrow> 's sem_sys \<Rightarrow> bool" where
  "sem_inv S waiters call N s \<longleftrightarrow>
    sem_spec S waiters \<and> 0 \<le> sem_count S (sem s) \<and>
    sem_count S (sem s) = 1 - sem_balance call N (spcs s) \<and>
    (waiters (sem s) \<noteq> [] \<longrightarrow> sem_count S (sem s) = 0) \<and>
    distinct (waiters (sem s)) \<and>
    (\<forall>i. i \<in> set (waiters (sem s)) \<longleftrightarrow> spcs s i = S_asleep) \<and>
    (\<forall>i. spcs s i = S_asleep \<longrightarrow> call i = Sem_read) \<and>
    (\<forall>i. N \<le> i \<longrightarrow> spcs s i = S_idle) \<and> (\<forall>i < N. spcs s i \<noteq> S_idle)"

definition sem_start :: "'s sem_ops \<Rightarrow> ('s \<Rightarrow> nat list) \<Rightarrow> nat \<Rightarrow> 's sem_sys \<Rightarrow> bool" where
  "sem_start S waiters N s \<longleftrightarrow> sem_spec S waiters \<and> s = mod_init_sem S N"

lemma sem_balance_upd:
  assumes "i < N"
  shows "sem_balance call N (p(i := q)) =
    sem_balance call N p - taken (call i) (p i) + taken (call i) q"
proof -
  have "(\<Sum>j \<in> {..<N} - {i}. taken (call j) ((p(i := q)) j)) =
      (\<Sum>j \<in> {..<N} - {i}. taken (call j) (p j))"
    by (rule sum.cong) auto
  then show ?thesis
    using assms sum.remove [of "{..<N}" i "\<lambda>j. taken (call j) (p j)"]
      sum.remove [of "{..<N}" i "\<lambda>j. taken (call j) ((p(i := q)) j)"]
    by (simp add: sem_balance_def)
qed

lemma taken_simps [simp]:
  "taken c S_idle = 0" "taken c S_start = 0" "taken c S_asleep = 0"
  "taken c (S_done r) = taken c S_log"
  "taken Sem_read S_log = 1" "taken (Sem_write n) S_log = - 1"
  by (simp_all add: taken_def)

lemma sem_start_inv: "sem_start S waiters N s \<Longrightarrow> sem_inv S waiters call N s"
  by (auto simp: sem_start_def sem_inv_def mod_init_sem_def sem_balance_def sem_spec_def
      intro!: sum.neutral)

lemma sem_read_inv:
  assumes inv: "sem_inv S waiters call N s" and st: "spcs s i = S_start" and c: "call i = Sem_read"
  shows "sem_inv S waiters call N (sem_read_down S i s)"
proof -
  have spec: "sem_spec S waiters" and pos: "0 \<le> sem_count S (sem s)"
    and i: "i < N" "i \<notin> set (waiters (sem s))"
    using inv st by (auto simp: sem_inv_def not_le [symmetric])
  show ?thesis
  proof (cases "sem_count S (sem s) = 0")
    case True
    obtain v where "down S i (sem s) = (False, v)" "sem_count S v = 0"
      "waiters v = waiters (sem s) @ [i]" by (rule sem_down_waits [OF spec True])
    with inv st c i True show ?thesis
      by (auto simp: sem_inv_def sem_read_down_def sem_balance_upd)
  next
    case False
    with pos have "0 < sem_count S (sem s)" by simp
    then obtain v where "down S i (sem s) = (True, v)"
      "sem_count S v = sem_count S (sem s) - 1" "waiters v = waiters (sem s)"
      by (rule sem_down_passes [OF spec])
    with inv st c i False show ?thesis
      by (auto simp: sem_inv_def sem_read_down_def sem_balance_upd split: if_splits)
  qed
qed

lemma sem_write_inv:
  assumes inv: "sem_inv S waiters call N s" and st: "spcs s i = S_start" and c: "call i = Sem_write n"
  shows "sem_inv S waiters call N (sem_write_up S i s)"
proof -
  have spec: "sem_spec S waiters" and i: "i < N" "i \<notin> set (waiters (sem s))"
    using inv st by (auto simp: sem_inv_def not_le [symmetric])
  show ?thesis
  proof (cases "waiters (sem s)")
    case Nil
    obtain v where "up S (sem s) = (None, v)"
      "sem_count S v = sem_count S (sem s) + 1" "waiters v = []"
      by (rule sem_up_counts [OF spec Nil])
    with inv st c i Nil show ?thesis
      by (auto simp: sem_inv_def sem_write_up_def sem_balance_upd split: if_splits)
  next
    case (Cons w ws)
    obtain v where v: "up S (sem s) = (Some w, v)"
      "sem_count S v = sem_count S (sem s)" "waiters v = ws"
      by (rule sem_up_wakes [OF spec Cons])
    have sw: "spcs s w = S_asleep"
      using inv Cons unfolding sem_inv_def by (metis list.set_intros(1))
    have w: "call w = Sem_read" "w \<noteq> i" "w < N"
      using inv sw st by (auto simp: sem_inv_def not_le [symmetric])
    note w = sw w
    with inv st c i Cons v show ?thesis
      by (auto simp: sem_inv_def sem_write_up_def sem_balance_upd split: if_splits)
  qed
qed

lemma sem_step_inv:
  assumes "sem_inv S waiters call N s" and "sem_tstep S call i s = Some t"
  shows "sem_inv S waiters call N t"
proof (cases "spcs s i")
  case S_start
  with assms show ?thesis
    by (auto simp: sem_tstep_def sem_read_inv sem_write_inv split: sem_call.splits)
next
  case S_log
  then have "i < N" using assms(1) by (auto simp: sem_inv_def not_le [symmetric])
  with assms S_log show ?thesis
    by (auto simp: sem_tstep_def sem_inv_def sem_balance_upd split: if_splits)
qed (use assms in \<open>auto simp: sem_tstep_def\<close>)

interpretation smp: threaded_system "sem_tstep S call" "sem_start S waiters N"
  "sem_inv S waiters call N" for S waiters call N
  by unfold_locales (auto intro: sem_start_inv sem_step_inv)

fun sem_pc_work :: "sem_pc \<Rightarrow> nat" where
  "sem_pc_work S_start = 3"
| "sem_pc_work S_asleep = 2"
| "sem_pc_work S_log = 1"
| "sem_pc_work _ = 0"

definition sem_work :: "nat \<Rightarrow> 's sem_sys \<Rightarrow> nat" where
  "sem_work N s = (\<Sum>i < N. sem_pc_work (spcs s i))"

text \<open>Nothing is left to do but to wait: every call has returned or sleeps in \<open>down\<close>.\<close>

definition sem_quiet :: "nat \<Rightarrow> 's sem_sys \<Rightarrow> bool" where
  "sem_quiet N s \<longleftrightarrow> (\<forall>i < N. spcs s i = S_asleep \<or> (\<exists>r. spcs s i = S_done r))"

lemma sem_step_work:
  assumes "sem_inv S waiters call N s" and "sem_tstep S call i s = Some t"
  shows "sem_work N t < sem_work N s"
proof -
  have spec: "sem_spec S waiters" using assms(1) by (simp add: sem_inv_def)
  have "i < N" using assms by (auto simp: sem_inv_def sem_tstep_def not_le [symmetric])
  moreover have "sem_pc_work (spcs t j) \<le> sem_pc_work (spcs s j)" for j
  proof (cases "spcs s i")
    case S_start
    then show ?thesis
    proof (cases "waiters (sem s)")
      case Nil
      then obtain v where "up S (sem s) = (None, v)" by (rule sem_up_counts [OF spec])
      with S_start assms(2) show ?thesis
        by (auto simp: sem_tstep_def sem_read_down_def sem_write_up_def split: sem_call.splits prod.splits)
    next
      case (Cons w ws)
      then obtain v where "up S (sem s) = (Some w, v)" by (rule sem_up_wakes [OF spec])
      moreover have "spcs s w = S_asleep"
        using assms(1) Cons unfolding sem_inv_def by (metis list.set_intros(1))
      ultimately show ?thesis
        using S_start assms(2)
        by (auto simp: sem_tstep_def sem_read_down_def sem_write_up_def split: sem_call.splits prod.splits)
    qed
  qed (use assms(2) in \<open>auto simp: sem_tstep_def\<close>)
  moreover have "sem_pc_work (spcs t i) < sem_pc_work (spcs s i)"
    using assms(2) by (auto simp: sem_tstep_def sem_read_down_def sem_write_up_def Let_def
        split: sem_pc.splits sem_call.splits prod.splits)
  ultimately show ?thesis unfolding sem_work_def by (intro sum_strict_mono_ex1) auto
qed

lemma sem_progress: "sem_inv S waiters call N s \<Longrightarrow> \<not> sem_quiet N s \<Longrightarrow> \<exists>i t. sem_tstep S call i s = Some t"
proof -
  assume inv: "sem_inv S waiters call N s" and "\<not> sem_quiet N s"
  then obtain i where "i < N" "spcs s i \<noteq> S_asleep" "\<forall>r. spcs s i \<noteq> S_done r"
    by (auto simp: sem_quiet_def)
  then show ?thesis
    using inv by (cases "spcs s i") (auto simp: sem_inv_def sem_tstep_def intro!: exI [of _ i])
qed

interpretation semt: terminating_system "sem_tstep S call" "sem_start S waiters N"
  "sem_inv S waiters call N" "sem_work N" "sem_quiet N" for S waiters call N
  by unfold_locales (auto intro: sem_step_work sem_progress)

lemma sem_balance_card:
  "sem_balance call N p =
    int (card {i. i < N \<and> call i = Sem_read \<and> passed (p i)}) -
    int (card {i. i < N \<and> call i \<noteq> Sem_read \<and> passed (p i)})"
proof -
  have "sem_balance call N p = (\<Sum>i < N. of_bool (call i = Sem_read \<and> passed (p i))) -
      (\<Sum>i < N. of_bool (call i \<noteq> Sem_read \<and> passed (p i)))"
    unfolding sem_balance_def sum_subtractf [symmetric] by (rule sum.cong) (auto simp: taken_def)
  moreover have "{..<N} \<inter> {i. P i} = {i. i < N \<and> P i}" for P by auto
  ultimately show ?thesis by (simp add: sum_of_bool_eq)
qed

section \<open>A semaphore that meets its contract\<close>

definition list_sem :: "(int \<times> nat list) sem_ops" where
  "list_sem =
    \<lparr>sema_init = (\<lambda>n. (n, [])),
     down = (\<lambda>i (c, ws). if 0 < c then (True, (c - 1, ws)) else (False, (c, ws @ [i]))),
     up = (\<lambda>(c, ws). case ws of [] \<Rightarrow> (None, (c + 1, [])) | w # r \<Rightarrow> (Some w, (c, r))),
     sem_count = fst\<rparr>"

lemma list_sem_spec: "sem_spec list_sem snd"
  by (auto simp: sem_spec_def list_sem_def)

text \<open>The calls of the log in \<open>readme\<close>: a read is \<open>cat\<close>, a write is \<open>echo 123\<close>.\<close>

definition readme_calls :: "nat \<Rightarrow> sem_call" where
  "readme_calls i = (if i = 2 \<or> i = 3 then Sem_read else Sem_write 4)"

section \<open>Properties\<close>

text \<open>
  C11. Conservation: in every reachable state of any number of concurrent calls the count is
  1 plus the writes that have been up less the reads that have been down, it is never
  negative, and a reader sleeps only while it is 0.
\<close>

theorem sem_conservation:
  assumes "sem_start S waiters N s" and "reaches (sem_tstep S call) s t"
  shows "sem_count S (sem t) = 1 + int (card {i. i < N \<and> call i \<noteq> Sem_read \<and> passed (spcs t i)}) -
      int (card {i. i < N \<and> call i = Sem_read \<and> passed (spcs t i)}) \<and>
    0 \<le> sem_count S (sem t) \<and> (\<forall>i. spcs t i = S_asleep \<longrightarrow> sem_count S (sem t) = 0)"
proof -
  have inv: "sem_inv S waiters call N t" using assms by (rule smp.reachable_inv)
  then have "spcs t i = S_asleep \<Longrightarrow> sem_count S (sem t) = 0" for i
    unfolding sem_inv_def by (metis empty_iff empty_set)
  with inv show ?thesis by (simp add: sem_inv_def sem_balance_card)
qed

theorem sem_conservation_witness:
  "\<exists>t. reaches (sem_tstep list_sem (\<lambda>_. Sem_read)) (mod_init_sem list_sem 2) t \<and>
    spcs t 1 = S_asleep \<and> sem_count list_sem (sem t) = 0"
proof -
  have "sem_start list_sem snd 2 (mod_init_sem list_sem 2)"
    using list_sem_spec by (simp add: sem_start_def)
  moreover obtain t where "run_schedule (sem_tstep list_sem (\<lambda>_. Sem_read)) [0, 1] (mod_init_sem list_sem 2) = Some t"
    and a: "spcs t 1 = S_asleep"
    by (auto simp: sem_tstep_def mod_init_sem_def sem_read_down_def list_sem_def)
  moreover note run_schedule_reaches [OF this(1)]
  ultimately show ?thesis
    using sem_conservation [of list_sem snd 2 _ "\<lambda>_. Sem_read" t] by blast
qed

text \<open>
  What the counters say when nothing can move.
\<close>

lemma sem_quiet_count:
  assumes "sem_inv S waiters call N t" and "\<forall>i. sem_tstep S call i t = None"
  shows "card {i. i < N \<and> call i = Sem_read \<and> passed (spcs t i)} =
    min (card {i. i < N \<and> call i = Sem_read}) (1 + card {i. i < N \<and> call i \<noteq> Sem_read})"
proof -
  note inv = assms(1)
  have quiet: "spcs t i = S_asleep \<or> passed (spcs t i)" if "i < N" for i
    using semt.stuck_finished [OF inv] assms(2) that by (force simp: sem_quiet_def)
  have wr: "{i. i < N \<and> call i \<noteq> Sem_read \<and> passed (spcs t i)} = {i. i < N \<and> call i \<noteq> Sem_read}"
    using quiet inv by (auto simp: sem_inv_def)
  have count: "sem_count S (sem t) = 1 + int (card {i. i < N \<and> call i \<noteq> Sem_read}) -
      int (card {i. i < N \<and> call i = Sem_read \<and> passed (spcs t i)})" "0 \<le> sem_count S (sem t)"
    using inv wr by (simp_all add: sem_inv_def sem_balance_card)
  have le: "card {i. i < N \<and> call i = Sem_read \<and> passed (spcs t i)} \<le> card {i. i < N \<and> call i = Sem_read}"
    by (rule card_mono) auto
  show ?thesis
  proof (cases "\<exists>i. spcs t i = S_asleep")
    case True
    then have "sem_count S (sem t) = 0"
      using inv unfolding sem_inv_def by (metis empty_iff empty_set)
    with count le show ?thesis by simp
  next
    case False
    then have "{i. i < N \<and> call i = Sem_read \<and> passed (spcs t i)} = {i. i < N \<and> call i = Sem_read}"
      using quiet by auto
    with count show ?thesis by simp
  qed
qed

text \<open>
  C14. No reader is forgotten: every schedule, whether or not anything can still move at its end, has at
  most three steps per call; and when no call can move, the reads that have passed \<open>down\<close> are all reads,
  or one more than the writes, whichever is less.
\<close>

theorem sem_readers_served:
  assumes "sem_start S waiters N s" and "run_schedule (sem_tstep S call) is s = Some t"
  shows "length is \<le> 3 * N \<and>
    ((\<forall>i. sem_tstep S call i t = None) \<longrightarrow>
      card {i. i < N \<and> call i = Sem_read \<and> passed (spcs t i)} =
        min (card {i. i < N \<and> call i = Sem_read}) (1 + card {i. i < N \<and> call i \<noteq> Sem_read}))"
proof -
  have inv0: "sem_inv S waiters call N s" using assms(1) by (rule sem_start_inv)
  have inv: "sem_inv S waiters call N t"
    using smp.reaches_inv [OF run_schedule_reaches [OF assms(2)] inv0] .
  have "sem_work N s \<le> 3 * N"
    using assms(1) by (simp add: sem_start_def mod_init_sem_def sem_work_def)
  then have "length is \<le> 3 * N"
    using semt.schedule_length [OF inv0 assms(2)] by simp
  with sem_quiet_count [OF inv] show ?thesis by blast
qed

theorem sem_readers_served_witness:
  "\<exists>t. run_schedule (sem_tstep list_sem (\<lambda>i. if i = 2 then Sem_write 4 else Sem_read))
      [0, 1, 0, 2, 2, 1] (mod_init_sem list_sem 3) = Some t \<and>
    card {i. i < 3 \<and> (if i = 2 then Sem_write 4 else Sem_read) = Sem_read \<and> passed (spcs t i)} = 2"
proof -
  let ?call = "\<lambda>i :: nat. if i = 2 then Sem_write 4 else Sem_read"
  have st: "sem_start list_sem snd 3 (mod_init_sem list_sem 3)"
    using list_sem_spec by (simp add: sem_start_def)
  obtain t where t: "run_schedule (sem_tstep list_sem ?call) [0, 1, 0, 2, 2, 1] (mod_init_sem list_sem 3) = Some t"
    and d: "spcs t = (\<lambda>i. if i < 3 then S_done (sem_ret (?call i)) else S_idle)"
    by (auto simp: sem_tstep_def mod_init_sem_def sem_read_down_def sem_write_up_def list_sem_def fun_eq_iff)
  have stuck: "\<forall>i. sem_tstep list_sem ?call i t = None" by (simp add: sem_tstep_def d)
  have "{i. i < 3 \<and> ?call i = Sem_read} = {0, 1}" "{i. i < 3 \<and> ?call i \<noteq> Sem_read} = {2}" by auto
  then show ?thesis using sem_readers_served [OF st t] stuck t by auto
qed

text \<open>
  The session of the readme: two writes, two reads and three writes, one after the other,
  print the counts 2, 3, 2, 1, 2, 3, 4 after the 1 of the module's start; every
  read returns 0, so \<open>cat\<close> shows nothing, and every write returns its whole count.
\<close>

lemma sem_readme_log:
  "case run_schedule (sem_tstep list_sem readme_calls) [0, 0, 1, 1, 2, 2, 3, 3, 4, 4, 5, 5, 6, 6]
      (mod_init_sem list_sem 7) of
     None \<Rightarrow> False
   | Some t \<Rightarrow> slog t = [1, 2, 3, 2, 1, 2, 3, 4] \<and>
       map (spcs t) [0..<7] = [S_done 4, S_done 4, S_done 0, S_done 0, S_done 4, S_done 4, S_done 4]"
  by code_simp

end
