(* ===== verification/Lifecycle.thy ===== *)
theory Lifecycle
  imports Kernel_Prelude "HOL-Library.Multiset"
begin

text \<open>
  Loading and unloading the modules. The init function of a module is the sequence of kernel
  calls it makes, given what each call returns, together with its return value; the exit
  function is a sequence of calls. What the kernel returns is the parameter \<open>K\<close>, since the
  called functions are the kernel's.

  A ledger checks such sequences against the contract of the calls: what a call needs, what
  it releases, and what it acquires when it succeeds. A sequence that uses or releases what is
  not held has no ledger, and what remains at the end has leaked.
\<close>

section \<open>Kernel calls and their contracts\<close>

datatype kcall =
  Register_chrdev | Unregister_chrdev | Misc_register | Misc_deregister | Init_waitqueue_head
| Alloc_chrdev_region | Unregister_chrdev_region | Cdev_alloc | Cdev_init | Cdev_add | Cdev_del
| Class_create | Class_destroy | Device_create | Device_destroy | Kzalloc | Kfree_null
| Mutex_init | Sema_init
| Blk_init_queue | Blk_cleanup_queue | Alloc_disk | Put_disk | Add_disk | Del_gendisk
| Bus_register | Bus_unregister | Bus_create_file | Device_register | Device_unregister
| Platform_device_alloc | Platform_device_add | Platform_device_put | Platform_device_unregister
| Platform_driver_register | Platform_driver_unregister
| Debugfs_create_file | Debugfs_remove
| Device_create_file | Driver_register | Driver_create_file | Driver_unregister
| Kobject_init_and_add | Kobject_del | Kset_register nat | Kset_unregister nat
| Raw_notifier_chain_register nat | Raw_notifier_chain_unregister nat | Add_timer | Del_timer
| Kmalloc | Kfree | SetPageReserved | ClearPageReserved

datatype resource =
  R_chrdev | R_misc | R_region | R_cdev | R_cdev_live | R_class | R_node | R_memory
| R_queue | R_disk | R_disk_live | R_bus | R_bus_file | R_device
| R_pdev | R_pdev_live | R_pdriver | R_debugfs | R_dev_file | R_driver | R_drv_file
| R_kobj | R_kobj_live | R_kset nat | R_notifier nat | R_timer | R_reserved

type_synonym kernel = "kcall \<Rightarrow> int"

text \<open>
  Calls that return a pointer give a positive number for a valid one and zero or an error
  pointer otherwise; the others give 0 or a negative error number.
\<close>

definition pointer_call :: "kcall \<Rightarrow> bool" where
  "pointer_call c \<longleftrightarrow> c \<in> {Cdev_alloc, Class_create, Device_create, Kzalloc, Blk_init_queue,
     Alloc_disk, Platform_device_alloc, Debugfs_create_file, Kmalloc}"

definition succeeds :: "kernel \<Rightarrow> kcall \<Rightarrow> bool" where
  "succeeds K c \<longleftrightarrow> (if pointer_call c then 0 < K c else K c = 0)"

text \<open>
  Documented: a status is never positive, an allocation gives a null pointer and not an
  error pointer, the void functions do not fail, and \<open>platform_device_add\<close> refuses the null pointer.
\<close>

definition kernel_ok :: "kernel \<Rightarrow> bool" where
  "kernel_ok K \<longleftrightarrow> (\<forall>c. \<not> pointer_call c \<longrightarrow> K c \<le> 0) \<and>
    (\<forall>c \<in> {Cdev_alloc, Kzalloc, Blk_init_queue, Alloc_disk, Platform_device_alloc, Kmalloc}. 0 \<le> K c) \<and>
    K Add_disk = 0 \<and> K Add_timer = 0 \<and> K SetPageReserved = 0 \<and> (K Platform_device_alloc = 0 \<longrightarrow> K Platform_device_add \<noteq> 0)"

fun needs :: "kcall \<Rightarrow> resource multiset" where
  "needs Unregister_chrdev = {#R_chrdev#}"
| "needs Misc_deregister = {#R_misc#}"
| "needs Unregister_chrdev_region = {#R_region#}"
| "needs Cdev_init = {#R_cdev#}"
| "needs Cdev_add = {#R_cdev#}"
| "needs Cdev_del = {#R_cdev#}"
| "needs Class_destroy = {#R_class#}"
| "needs Device_create = {#R_class#}"
| "needs Device_destroy = {#R_class#}"
| "needs Blk_cleanup_queue = {#R_queue#}"
| "needs Put_disk = {#R_disk#}"
| "needs Add_disk = {#R_disk, R_queue#}"
| "needs Del_gendisk = {#R_disk_live#}"
| "needs Bus_unregister = {#R_bus#}"
| "needs Bus_create_file = {#R_bus#}"
| "needs Device_unregister = {#R_device#}"
| "needs Platform_device_unregister = {#R_pdev, R_pdev_live#}"
| "needs Platform_driver_unregister = {#R_pdriver#}"
| "needs Device_create_file = {#R_device#}"
| "needs Driver_create_file = {#R_driver#}"
| "needs Driver_unregister = {#R_driver#}"
| "needs Kobject_del = {#R_kobj_live#}"
| "needs (Kset_unregister k) = {#R_kset k#}"
| "needs (Raw_notifier_chain_unregister k) = {#R_notifier k#}"
| "needs Kfree = {#R_memory#}"
| "needs SetPageReserved = {#R_memory#}"
| "needs ClearPageReserved = {#R_memory, R_reserved#}"
| "needs _ = {#}"

text \<open>
  What a call releases. \<open>cdev_alloc\<close> allocates a structure which its own release function frees with the
  last reference. Every module here then calls \<open>cdev_init\<close> on it, which is for a structure of the caller's:
  it initialises the structure anew and with a release function that does not free. So \<open>cdev_del\<close>
  takes the device down and leaves the allocation, which no call of these modules frees. \<open>del_timer\<close>
  is entered here as it is when no callback is running, so that it leaves nothing pending;
  Notifier_Timer has what happens when one is.
\<close>

fun takes :: "kcall \<Rightarrow> resource multiset" where
  "takes Unregister_chrdev = {#R_chrdev#}"
| "takes Misc_deregister = {#R_misc#}"
| "takes Unregister_chrdev_region = {#R_region#}"
| "takes Cdev_del = {#R_cdev_live#}"
| "takes Class_destroy = {#R_class#}"
| "takes Device_destroy = {#R_node#}"
| "takes Blk_cleanup_queue = {#R_queue#}"
| "takes Put_disk = {#R_disk#}"
| "takes Del_gendisk = {#R_disk_live#}"
| "takes Bus_unregister = {#R_bus, R_bus_file#}"
| "takes Device_unregister = {#R_device, R_dev_file#}"
| "takes Platform_device_put = {#R_pdev#}"
| "takes Platform_device_unregister = {#R_pdev, R_pdev_live#}"
| "takes Platform_driver_unregister = {#R_pdriver#}"
| "takes Debugfs_remove = {#R_debugfs#}"
| "takes Driver_unregister = {#R_driver, R_drv_file#}"
| "takes Kobject_del = {#R_kobj_live#}"
| "takes (Kset_unregister k) = {#R_kset k#}"
| "takes (Raw_notifier_chain_unregister k) = {#R_notifier k#}"
| "takes Del_timer = {#R_timer#}"
| "takes Kfree = {#R_memory#}"
| "takes ClearPageReserved = {#R_reserved#}"
| "takes _ = {#}"

fun gives :: "kcall \<Rightarrow> resource multiset" where
  "gives Register_chrdev = {#R_chrdev#}"
| "gives Misc_register = {#R_misc#}"
| "gives Alloc_chrdev_region = {#R_region#}"
| "gives Cdev_alloc = {#R_cdev#}"
| "gives Cdev_add = {#R_cdev_live#}"
| "gives Class_create = {#R_class#}"
| "gives Device_create = {#R_node#}"
| "gives Kzalloc = {#R_memory#}"
| "gives Blk_init_queue = {#R_queue#}"
| "gives Alloc_disk = {#R_disk#}"
| "gives Add_disk = {#R_disk_live#}"
| "gives Bus_register = {#R_bus#}"
| "gives Bus_create_file = {#R_bus_file#}"
| "gives Device_register = {#R_device#}"
| "gives Platform_device_alloc = {#R_pdev#}"
| "gives Platform_device_add = {#R_pdev_live#}"
| "gives Platform_driver_register = {#R_pdriver#}"
| "gives Debugfs_create_file = {#R_debugfs#}"
| "gives Device_create_file = {#R_dev_file#}"
| "gives Driver_register = {#R_driver#}"
| "gives Driver_create_file = {#R_drv_file#}"
| "gives Kobject_init_and_add = {#R_kobj, R_kobj_live#}"
| "gives (Kset_register k) = {#R_kset k#}"
| "gives (Raw_notifier_chain_register k) = {#R_notifier k#}"
| "gives Add_timer = {#R_timer#}"
| "gives Kmalloc = {#R_memory#}"
| "gives SetPageReserved = {#R_reserved#}"
| "gives _ = {#}"

fun ledger :: "kernel \<Rightarrow> kcall list \<Rightarrow> resource multiset \<Rightarrow> resource multiset option" where
  "ledger K [] h = Some h"
| "ledger K (c # cs) h =
    (if needs c \<subseteq># h
     then ledger K cs (h - takes c + (if succeeds K c then gives c else {#}))
     else None)"

section \<open>The modules\<close>

type_synonym module_init = "kernel \<Rightarrow> int \<times> kcall list"

definition rw_module_init :: module_init where
  "rw_module_init K =
    (let result = K Register_chrdev in
     if result < 0 then (result, [Register_chrdev]) else (0, [Register_chrdev]))"

definition rw_module_exit :: "kcall list" where
  "rw_module_exit = [Unregister_chrdev]"

definition qw_module_init :: module_init where
  "qw_module_init K =
    (let result = K Misc_register in
     if result < 0 then (result, [Misc_register]) else (0, [Misc_register, Init_waitqueue_head]))"

definition qw_module_exit :: "kcall list" where
  "qw_module_exit = [Misc_deregister]"

definition misc_module_init :: module_init where
  "misc_module_init K = (let ret = K Misc_register in (ret, [Misc_register]))"

definition misc_module_exit :: "kcall list" where
  "misc_module_exit = [Misc_deregister]"

definition blk_module_init :: module_init where
  "blk_module_init K =
    (if K Blk_init_queue = 0 then (- ENOMEM, [Blk_init_queue])
     else if K Alloc_disk = 0 then (- ENOMEM, [Blk_init_queue, Alloc_disk, Blk_cleanup_queue])
     else (0, [Blk_init_queue, Alloc_disk, Add_disk]))"

definition blk_module_exit :: "kcall list" where
  "blk_module_exit = [Del_gendisk, Put_disk, Blk_cleanup_queue]"

definition pdev_module_init :: module_init where
  "pdev_module_init K =
    (let ret = K Platform_device_add in
     if ret \<noteq> 0 then (ret, [Platform_device_alloc, Platform_device_add, Platform_device_put])
     else (ret, [Platform_device_alloc, Platform_device_add]))"

definition pdev_module_exit :: "kcall list" where
  "pdev_module_exit = [Platform_device_unregister]"

definition pdrv_module_init :: module_init where
  "pdrv_module_init K = (K Platform_driver_register, [Platform_driver_register])"

definition pdrv_module_exit :: "kcall list" where
  "pdrv_module_exit = [Platform_driver_unregister]"

definition ksig_module_init :: module_init where
  "ksig_module_init K = (0, [Debugfs_create_file])"

definition ksig_module_exit :: "kcall list" where
  "ksig_module_exit = [Debugfs_remove]"

definition bus_module_init :: module_init where
  "bus_module_init K =
    (let ret = K Bus_register in
     if ret \<noteq> 0 then (ret, [Bus_register])
     else (K Device_register, [Bus_register, Bus_create_file, Device_register]))"

definition bus_module_exit :: "kcall list" where
  "bus_module_exit = [Device_unregister, Bus_unregister]"

definition char_module_init :: module_init where
  "char_module_init K =
    (0, [Alloc_chrdev_region, Cdev_alloc, Cdev_init, Cdev_add, Class_create, Device_create])"

definition char_module_exit :: "kcall list" where
  "char_module_exit = [Cdev_del, Unregister_chrdev_region, Device_destroy, Class_destroy]"

definition sem_module_init :: module_init where
  "sem_module_init K =
    (0, [Alloc_chrdev_region, Cdev_alloc, Cdev_init, Cdev_add, Class_create, Device_create, Sema_init])"

definition sem_module_exit :: "kcall list" where
  "sem_module_exit = [Cdev_del, Unregister_chrdev_region, Device_destroy, Class_destroy]"

definition mutex_module_init :: module_init where
  "mutex_module_init K =
    (let calls = [Alloc_chrdev_region, Cdev_alloc, Cdev_init, Cdev_add, Class_create, Device_create,
       Kzalloc] in
     if K Kzalloc = 0 then (- ENOBUFS, calls @ [Kfree_null]) else (0, calls @ [Mutex_init]))"

definition mutex_module_exit :: "kcall list" where
  "mutex_module_exit = [Cdev_del, Unregister_chrdev_region, Device_destroy, Class_destroy]"

text \<open>The modules of \<open>unuseMutex/mutex_drv.c\<close> and of \<open>nonblock_ asynchronous/kernalSignal_drv.c\<close>.\<close>

definition unuse_module_init :: module_init where
  "unuse_module_init K =
    (if K Kzalloc = 0
     then (- ENOBUFS, [Alloc_chrdev_region, Cdev_alloc, Cdev_init, Cdev_add, Class_create, Device_create,
       Kzalloc, Kfree_null])
     else (0, [Alloc_chrdev_region, Cdev_alloc, Cdev_init, Cdev_add, Class_create, Device_create,
       Kzalloc, Mutex_init]))"

definition unuse_module_exit :: "kcall list" where
  "unuse_module_exit = [Cdev_del, Unregister_chrdev_region, Device_destroy, Class_destroy]"

definition drv_ksig_init :: module_init where
  "drv_ksig_init K = (0, [Debugfs_create_file])"

definition drv_ksig_exit :: "kcall list" where
  "drv_ksig_exit = [Debugfs_remove]"

definition bdev_module_init :: module_init where
  "bdev_module_init K = (let ret = 0 in (ret, [Device_register, Device_create_file]))"

definition bdev_module_exit :: "kcall list" where
  "bdev_module_exit = [Device_unregister]"

definition bdrv_module_init :: module_init where
  "bdrv_module_init K = (let ret = 0 in (ret, [Driver_register, Driver_create_file]))"

definition bdrv_module_exit :: "kcall list" where
  "bdrv_module_exit = [Driver_unregister]"

definition kobj_module_init :: module_init where
  "kobj_module_init K = (0, [Kobject_init_and_add])"

definition kobj_module_exit :: "kcall list" where
  "kobj_module_exit = [Kobject_del]"

text \<open>The parent \<open>kset_p\<close> is number 0, the child \<open>kset_c\<close> number 1.\<close>

definition kset_module_init :: module_init where
  "kset_module_init K = (0, [Kset_register 0, Kset_register 1])"

definition kset_module_exit :: "kcall list" where
  "kset_module_exit = [Kset_unregister 0, Kset_unregister 1]"

definition notifier_module_init :: module_init where
  "notifier_module_init K =
    (0, [Raw_notifier_chain_register 1, Raw_notifier_chain_register 2, Raw_notifier_chain_register 3,
       Add_timer])"

definition notifier_module_exit :: "kcall list" where
  "notifier_module_exit =
    [Del_timer, Raw_notifier_chain_unregister 1, Raw_notifier_chain_unregister 2,
     Raw_notifier_chain_unregister 3]"

text \<open>The result of \<open>misc_register\<close> is returned at the end, whatever was done after it.\<close>

definition mmap_module_init :: module_init where
  "mmap_module_init K = (let ret = K Misc_register in (ret, [Misc_register, Kmalloc, SetPageReserved]))"

definition mmap_module_exit :: "kcall list" where
  "mmap_module_exit = [Misc_deregister, ClearPageReserved, Kfree]"

section \<open>Load and unload\<close>

text \<open>One \<open>insmod\<close>, and the \<open>rmmod\<close> when it succeeded; then a history of them.\<close>

definition load_unload :: "module_init \<Rightarrow> kcall list \<Rightarrow> kernel \<Rightarrow> resource multiset \<Rightarrow>
    resource multiset option" where
  "load_unload init exit K h =
    (case ledger K (snd (init K)) h of
       None \<Rightarrow> None
     | Some g \<Rightarrow> if fst (init K) = 0 then ledger K exit g else Some g)"

fun load_history :: "module_init \<Rightarrow> kcall list \<Rightarrow> kernel list \<Rightarrow> resource multiset \<Rightarrow>
    resource multiset option" where
  "load_history init exit [] h = Some h"
| "load_history init exit (K # Ks) h =
    (case load_unload init exit K h of
       None \<Rightarrow> None | Some g \<Rightarrow> load_history init exit Ks g)"

definition all_succeed :: "kernel \<Rightarrow> bool" where
  "all_succeed K \<longleftrightarrow> (\<forall>c. succeeds K c)"

text \<open>
  A module that leaves \<open>leak\<close> behind each time it is loaded and unloaded although no kernel
  call fails; one that leaves nothing; and one that leaves nothing whatever fails.
\<close>

locale leaking_module =
  fixes init :: module_init and exit :: "kcall list" and leak :: "resource multiset"
  assumes loads: "kernel_ok K \<Longrightarrow> all_succeed K \<Longrightarrow> fst (init K) = 0"
    and unload_leak: "kernel_ok K \<Longrightarrow> all_succeed K \<Longrightarrow>
    load_unload init exit K (repeat_mset n leak) = Some (repeat_mset (Suc n) leak)"
begin

lemma history_leaks:
  assumes "\<forall>K \<in> set Ks. kernel_ok K \<and> all_succeed K"
  shows "load_history init exit Ks {#} = Some (repeat_mset (length Ks) leak)"
proof -
  have "load_history init exit Ks (repeat_mset n leak) = Some (repeat_mset (n + length Ks) leak)" for n
    using assms
  proof (induction Ks arbitrary: n)
    case Nil
    then show ?case by simp
  next
    case (Cons K Ks)
    then show ?case using Cons.IH [of "Suc n"] unload_leak [of K n] by simp
  qed
  from this [of 0] show ?thesis by simp
qed

end

locale clean_module =
  fixes init :: module_init and exit :: "kcall list"
  assumes loads_clean: "kernel_ok K \<Longrightarrow> all_succeed K \<Longrightarrow> fst (init K) = 0"
    and unload_clean: "kernel_ok K \<Longrightarrow> all_succeed K \<Longrightarrow> load_unload init exit K {#} = Some {#}"

sublocale clean_module \<subseteq> leaking_module init exit "{#}"
  by unfold_locales (simp_all add: loads_clean unload_clean)

locale careful_module = clean_module +
  assumes always_clean: "kernel_ok K \<Longrightarrow> load_unload init exit K {#} = Some {#}"
begin

lemma history_always_clean:
  "\<forall>K \<in> set Ks. kernel_ok K \<Longrightarrow> load_history init exit Ks {#} = Some {#}"
  by (induction Ks) (simp_all add: always_clean)

end

named_theorems module_simps "the calls of each module"

lemmas module_defs [module_simps] =
  rw_module_init_def rw_module_exit_def qw_module_init_def qw_module_exit_def
  misc_module_init_def misc_module_exit_def blk_module_init_def blk_module_exit_def
  pdev_module_init_def pdev_module_exit_def pdrv_module_init_def pdrv_module_exit_def
  ksig_module_init_def ksig_module_exit_def bus_module_init_def bus_module_exit_def
  char_module_init_def char_module_exit_def sem_module_init_def sem_module_exit_def
  mutex_module_init_def mutex_module_exit_def unuse_module_init_def unuse_module_exit_def
  drv_ksig_init_def drv_ksig_exit_def
  bdev_module_init_def bdev_module_exit_def bdrv_module_init_def bdrv_module_exit_def
  kobj_module_init_def kobj_module_exit_def kset_module_init_def kset_module_exit_def
  notifier_module_init_def notifier_module_exit_def mmap_module_init_def mmap_module_exit_def

lemma succeeds_simps [module_simps]:
  "pointer_call c \<Longrightarrow> succeeds K c \<longleftrightarrow> 0 < K c"
  "\<not> pointer_call c \<Longrightarrow> succeeds K c \<longleftrightarrow> K c = 0"
  by (simp_all add: succeeds_def)

lemma kernel_status: "kernel_ok K \<Longrightarrow> \<not> pointer_call c \<Longrightarrow> K c < 0 \<or> K c = 0"
  by (auto simp: kernel_ok_def)

lemma all_succeedD [module_simps]:
  "all_succeed K \<Longrightarrow> pointer_call c \<Longrightarrow> 0 < K c"
  "all_succeed K \<Longrightarrow> pointer_call c \<Longrightarrow> K c \<noteq> 0"
  "all_succeed K \<Longrightarrow> \<not> pointer_call c \<Longrightarrow> K c = 0"
  "all_succeed K \<Longrightarrow> succeeds K c"
  unfolding all_succeed_def succeeds_def by (metis less_irrefl)+

lemma pointer_calls [simp]:
  "pointer_call Cdev_alloc" "pointer_call Class_create" "pointer_call Device_create"
  "pointer_call Kzalloc" "pointer_call Blk_init_queue" "pointer_call Alloc_disk"
  "pointer_call Platform_device_alloc" "pointer_call Debugfs_create_file" "pointer_call Kmalloc"
  "\<not> pointer_call Register_chrdev" "\<not> pointer_call Misc_register" 
  "\<not> pointer_call Alloc_chrdev_region" "\<not> pointer_call Cdev_add" "\<not> pointer_call Add_disk"
  "\<not> pointer_call Bus_register" "\<not> pointer_call Bus_create_file" "\<not> pointer_call Device_register"
  "\<not> pointer_call Platform_device_add" "\<not> pointer_call Platform_driver_register"
  "\<not> pointer_call Device_create_file" "\<not> pointer_call Driver_register" "\<not> pointer_call Driver_create_file"
  "\<not> pointer_call Kobject_init_and_add" "\<not> pointer_call (Kset_register k)"
  "\<not> pointer_call (Raw_notifier_chain_register k)" "\<not> pointer_call Add_timer" "\<not> pointer_call SetPageReserved"
  by (simp_all add: pointer_call_def)

lemma kernel_okD:
  "kernel_ok K \<Longrightarrow> \<not> pointer_call c \<Longrightarrow> K c \<le> 0"
  "kernel_ok K \<Longrightarrow> c \<in> {Cdev_alloc, Kzalloc, Blk_init_queue, Alloc_disk, Platform_device_alloc, Kmalloc} \<Longrightarrow> 0 \<le> K c"
  "kernel_ok K \<Longrightarrow> K Add_disk = 0"
  "kernel_ok K \<Longrightarrow> K Platform_device_alloc = 0 \<Longrightarrow> K Platform_device_add \<noteq> 0"
  "kernel_ok K \<Longrightarrow> K Add_timer = 0" "kernel_ok K \<Longrightarrow> K SetPageReserved = 0"
  unfolding kernel_ok_def by blast+

interpretation rw: careful_module rw_module_init rw_module_exit
  using kernel_okD(1) [of _ Register_chrdev]
  by unfold_locales (auto simp: load_unload_def module_simps Let_def not_less dest: antisym)

interpretation qw: careful_module qw_module_init qw_module_exit
  using kernel_okD(1) [of _ Misc_register]
  by unfold_locales (auto simp: load_unload_def module_simps Let_def not_less dest: antisym)

interpretation misc: careful_module misc_module_init misc_module_exit
  by unfold_locales (auto simp: load_unload_def module_simps Let_def)

interpretation blk: careful_module blk_module_init blk_module_exit
  using kernel_okD(2) [of _ Blk_init_queue] kernel_okD(2) [of _ Alloc_disk]
  by unfold_locales (auto simp: load_unload_def module_simps kernel_okD(3) order_less_le)

interpretation pdev: careful_module pdev_module_init pdev_module_exit
  using kernel_okD(2) [of _ Platform_device_alloc]
  by unfold_locales (auto simp: load_unload_def module_simps Let_def order_less_le dest: kernel_okD(4))

interpretation pdrv: careful_module pdrv_module_init pdrv_module_exit
  by unfold_locales (auto simp: load_unload_def module_simps)

interpretation ksig: careful_module ksig_module_init ksig_module_exit
  by unfold_locales (auto simp: load_unload_def module_simps)

interpretation drvksig: careful_module drv_ksig_init drv_ksig_exit
  by unfold_locales (auto simp: load_unload_def module_simps)

interpretation bus: clean_module bus_module_init bus_module_exit
  by unfold_locales (auto simp: load_unload_def module_simps Let_def)

interpretation chr: leaking_module char_module_init char_module_exit "{#R_cdev#}"
  by unfold_locales (simp_all add: load_unload_def module_simps)

interpretation mutex: leaking_module mutex_module_init mutex_module_exit "{#R_cdev, R_memory#}"
  by unfold_locales (simp_all add: load_unload_def module_simps Let_def)

interpretation unuse: leaking_module unuse_module_init unuse_module_exit "{#R_cdev, R_memory#}"
  by unfold_locales (simp_all add: load_unload_def module_simps)

interpretation kobj: leaking_module kobj_module_init kobj_module_exit "{#R_kobj#}"
  by unfold_locales (simp_all add: load_unload_def module_simps)

interpretation sema: leaking_module sem_module_init sem_module_exit "{#R_cdev#}"
  by unfold_locales (simp_all add: load_unload_def module_simps)

interpretation bdev: clean_module bdev_module_init bdev_module_exit
  by unfold_locales (auto simp: load_unload_def module_simps Let_def)

interpretation bdrv: clean_module bdrv_module_init bdrv_module_exit
  by unfold_locales (auto simp: load_unload_def module_simps Let_def)

interpretation kset: clean_module kset_module_init kset_module_exit
  by unfold_locales (auto simp: load_unload_def module_simps)

interpretation notifier: clean_module notifier_module_init notifier_module_exit
  by unfold_locales (auto simp: load_unload_def module_simps)

interpretation mmap: clean_module mmap_module_init mmap_module_exit
  by unfold_locales (auto simp: load_unload_def module_simps Let_def)


section \<open>Properties\<close>

text \<open>
  Every call succeeds, or every call but one does: the kernels of the examples.
\<close>

definition good_kernel :: kernel where
  "good_kernel c = (if pointer_call c then 1 else 0)"

lemma good_kernel_ok [simp]: "kernel_ok good_kernel" "all_succeed good_kernel"
  by (auto simp: kernel_ok_def all_succeed_def succeeds_def good_kernel_def pointer_call_def)

lemma failing_alloc_ok:
  "c \<in> {Kzalloc, Blk_init_queue, Alloc_disk} \<Longrightarrow> kernel_ok (good_kernel(c := 0))"
  by (auto simp: kernel_ok_def good_kernel_def)

text \<open>
  C23. Eight modules (RWTest, queue_wait, misc_dev, the block device, the platform device and driver, both
  signal modules) load and unload cleanly for every
  history of attempts, whatever the kernel calls return: nothing is used or released that is
  not held, and nothing stays held. Six of them check what their registrations return and undo what went
  before; the signal modules do not look at it, but \<open>debugfs_remove\<close> ignores a file that is not there.
\<close>

theorem lifecycle_careful_modules:
  assumes "\<forall>K \<in> set Ks. kernel_ok K"
    and "(init, exit) \<in> {(rw_module_init, rw_module_exit), (qw_module_init, qw_module_exit),
      (misc_module_init, misc_module_exit), (blk_module_init, blk_module_exit),
      (pdev_module_init, pdev_module_exit), (pdrv_module_init, pdrv_module_exit),
      (ksig_module_init, ksig_module_exit), (drv_ksig_init, drv_ksig_exit)}"
  shows "load_history init exit Ks {#} = Some {#}"
  using assms(2) rw.history_always_clean [OF assms(1)] qw.history_always_clean [OF assms(1)]
    misc.history_always_clean [OF assms(1)] blk.history_always_clean [OF assms(1)]
    pdev.history_always_clean [OF assms(1)] pdrv.history_always_clean [OF assms(1)]
    ksig.history_always_clean [OF assms(1)] drvksig.history_always_clean [OF assms(1)]
  by blast

theorem lifecycle_careful_modules_witness:
  "load_history blk_module_init blk_module_exit [good_kernel, good_kernel(Alloc_disk := 0)] {#} = Some {#}"
  by (rule lifecycle_careful_modules) (auto intro: failing_alloc_ok)

text \<open>
  C24. What each of the nineteen modules leaves behind when nothing fails: they all load, and after
  any number of rounds of loading and unloading nothing is held, except, for each round, one device
  structure by each of the four modules that pass the result of \<open>cdev_alloc\<close> to \<open>cdev_init\<close> (char,
  semaphore and both mutex modules), the share memory by both mutex modules, which never free it, and
  one reference by the kobject module, which deletes its kobject without putting it. No call of
  any of them uses or releases what is not held. (The timer of the notifier module is stopped as by a
  \<open>del_timer\<close> that meets no running callback.)
\<close>

theorem lifecycle_leak_per_round:
  assumes "\<forall>K \<in> set Ks. kernel_ok K \<and> all_succeed K"
    and "(init, exit, leak) \<in> {(rw_module_init, rw_module_exit, {#}), (qw_module_init, qw_module_exit, {#}),
      (misc_module_init, misc_module_exit, {#}), (blk_module_init, blk_module_exit, {#}),
      (pdev_module_init, pdev_module_exit, {#}), (pdrv_module_init, pdrv_module_exit, {#}),
      (ksig_module_init, ksig_module_exit, {#}), (drv_ksig_init, drv_ksig_exit, {#}), (bus_module_init, bus_module_exit, {#}),
      (char_module_init, char_module_exit, {#R_cdev#}), (sem_module_init, sem_module_exit, {#R_cdev#}),
      (bdev_module_init, bdev_module_exit, {#}), (bdrv_module_init, bdrv_module_exit, {#}),
      (kset_module_init, kset_module_exit, {#}), (notifier_module_init, notifier_module_exit, {#}),
      (mmap_module_init, mmap_module_exit, {#}),
      (mutex_module_init, mutex_module_exit, {#R_cdev, R_memory#}),
      (unuse_module_init, unuse_module_exit, {#R_cdev, R_memory#}), (kobj_module_init, kobj_module_exit, {#R_kobj#})}"
  shows "load_history init exit Ks {#} = Some (repeat_mset (length Ks) leak) \<and>
    (\<forall>K \<in> set Ks. fst (init K) = 0)"
proof -
  have "leaking_module init exit leak"
    using assms(2) rw.leaking_module_axioms qw.leaking_module_axioms misc.leaking_module_axioms
      blk.leaking_module_axioms pdev.leaking_module_axioms pdrv.leaking_module_axioms
      ksig.leaking_module_axioms bus.leaking_module_axioms chr.leaking_module_axioms
      sema.leaking_module_axioms bdev.leaking_module_axioms bdrv.leaking_module_axioms
      kset.leaking_module_axioms notifier.leaking_module_axioms mmap.leaking_module_axioms
      mutex.leaking_module_axioms kobj.leaking_module_axioms unuse.leaking_module_axioms
      drvksig.leaking_module_axioms
    by blast
  then show ?thesis
    using leaking_module.history_leaks leaking_module.loads assms(1) by blast
qed

theorem lifecycle_leak_per_round_witness:
  "load_history mutex_module_init mutex_module_exit [good_kernel, good_kernel] {#} =
    Some {#R_cdev, R_memory, R_cdev, R_memory#}"
  using lifecycle_leak_per_round [of "[good_kernel, good_kernel]" mutex_module_init mutex_module_exit "{#R_cdev, R_memory#}"]
  by (simp add: numeral_2_eq_2 add_mset_commute)

text \<open>
  C39. A failed load leaves the failed module registered: the mutex module when its memory cannot
  be allocated keeps number, device, class and node, and the bus module when its device cannot
  be registered keeps the bus; the mmap module when its device cannot be registered keeps the page
  it allocated and reserved. All report an error, so their exit functions never run.
\<close>

theorem lifecycle_failed_load_stays_registered:
  assumes "\<forall>c. c \<noteq> bad \<longrightarrow> succeeds K c" and "\<not> succeeds K bad" and "kernel_ok K"
  shows "(bad = Kzalloc \<longrightarrow> fst (mutex_module_init K) = - ENOBUFS \<and>
      load_unload mutex_module_init mutex_module_exit K {#} =
        Some {#R_region, R_cdev, R_cdev_live, R_class, R_node#}) \<and>
    (bad = Device_register \<longrightarrow> fst (bus_module_init K) < 0 \<and>
      load_unload bus_module_init bus_module_exit K {#} = Some {#R_bus, R_bus_file#}) \<and>
    (bad = Misc_register \<longrightarrow> fst (mmap_module_init K) < 0 \<and>
      load_unload mmap_module_init mmap_module_exit K {#} = Some {#R_memory, R_reserved#})"
proof (intro conjI impI)
  assume b: "bad = Kzalloc"
  have "K Kzalloc = 0"
    using assms(2) kernel_okD(2) [OF assms(3), of Kzalloc] by (simp add: b succeeds_def)
  with assms b show "fst (mutex_module_init K) = - ENOBUFS"
    and "load_unload mutex_module_init mutex_module_exit K {#} =
        Some {#R_region, R_cdev, R_cdev_live, R_class, R_node#}"
    by (simp_all add: load_unload_def module_defs Let_def)
next
  assume b: "bad = Device_register"
  have "K Device_register < 0" "K Bus_register = 0"
    using assms(1,2) kernel_okD(1) [OF assms(3), of Device_register] by (force simp: b succeeds_def)+
  with assms b show "fst (bus_module_init K) < 0"
    and "load_unload bus_module_init bus_module_exit K {#} = Some {#R_bus, R_bus_file#}"
    by (simp_all add: load_unload_def module_defs Let_def)
next
  assume b: "bad = Misc_register"
  have "K Misc_register < 0"
    using assms(2) kernel_okD(1) [OF assms(3), of Misc_register] by (simp add: b succeeds_def)
  with assms b show "fst (mmap_module_init K) < 0"
    and "load_unload mmap_module_init mmap_module_exit K {#} = Some {#R_memory, R_reserved#}"
    by (simp_all add: load_unload_def module_defs Let_def)
qed

theorem lifecycle_failed_load_stays_registered_witness:
  "load_unload mutex_module_init mutex_module_exit (good_kernel(Kzalloc := 0)) {#} =
    Some {#R_region, R_cdev, R_cdev_live, R_class, R_node#}"
  using lifecycle_failed_load_stays_registered [of Kzalloc "good_kernel(Kzalloc := 0)"]
    failing_alloc_ok [of Kzalloc]
  by (simp add: succeeds_def good_kernel_def)

end
