(* ===== verification/Module_Exposure.thy ===== *)
theory Module_Exposure
  imports Lifecycle
begin

text \<open>
  When a module's callbacks can be entered, and whether what they rely on is there by then. A device
  can be opened as soon as the call that makes it live has returned, while the init function is still
  running, and until the exit function takes it down again. (The timer of the notifier module is another
  matter, because a running callback can set it again behind \<open>del_timer\<close>: see Notifier_Timer.)
  \<open>early\<close> lists the points of a load and unload at which callbacks can run without what they rely on.
\<close>

section \<open>Points of a load and unload\<close>

text \<open>What makes a module's callbacks reachable: a live device, file or disk.\<close>

definition exposed :: "resource multiset \<Rightarrow> bool" where
  "exposed h \<longleftrightarrow> R_chrdev \<in># h \<or> R_misc \<in># h \<or> R_cdev_live \<in># h \<or> R_disk_live \<in># h \<or>
    R_debugfs \<in># h"

definition whole_run :: "module_init \<Rightarrow> kcall list \<Rightarrow> kernel \<Rightarrow> kcall list" where
  "whole_run init exit K = snd (init K) @ (if fst (init K) = 0 then exit else [])"

text \<open>
  What the callbacks rely on: resources that must be held, and calls that must have been made because
  they set up an object of the module itself, a wait queue head, a semaphore or a mutex.
\<close>

record reliance =
  held :: "resource multiset"
  set_up :: "kcall list"

definition ready_at :: "reliance \<Rightarrow> kcall list \<Rightarrow> resource multiset \<Rightarrow> bool" where
  "ready_at R calls h \<longleftrightarrow> held R \<subseteq># h \<and> set (set_up R) \<subseteq> set calls"

definition early :: "module_init \<Rightarrow> kcall list \<Rightarrow> reliance \<Rightarrow> kernel \<Rightarrow> nat list" where
  "early init exit R K =
    [n \<leftarrow> [0..<Suc (length (whole_run init exit K))].
      case ledger K (take n (whole_run init exit K)) {#} of
        None \<Rightarrow> False | Some h \<Rightarrow> exposed h \<and> \<not> ready_at R (take n (whole_run init exit K)) h]"

section \<open>What the callbacks of each module rely on\<close>

text \<open>
  \<open>simp_blkdev_do_request\<close> works on the queue and the disk; \<open>example_read\<close> and \<open>example_write\<close> of queue_wait use the wait queue; \<open>_read\<close> and \<open>_write\<close>
  of the semaphore driver the semaphore, those of the mutex driver the share memory and the mutex, those
  without the mutex only the memory; \<open>my_map\<close> maps the page.
\<close>

definition blk_relies :: reliance where
  "blk_relies = \<lparr>held = {#R_queue, R_disk#}, set_up = []\<rparr>"

definition qw_relies :: reliance where
  "qw_relies = \<lparr>held = {#}, set_up = [Init_waitqueue_head]\<rparr>"

definition sem_relies :: reliance where
  "sem_relies = \<lparr>held = {#}, set_up = [Sema_init]\<rparr>"

definition mutex_relies :: reliance where
  "mutex_relies = \<lparr>held = {#R_memory#}, set_up = [Mutex_init]\<rparr>"

definition unuse_relies :: reliance where
  "unuse_relies = \<lparr>held = {#R_memory#}, set_up = []\<rparr>"

definition mmap_relies :: reliance where
  "mmap_relies = \<lparr>held = {#R_memory, R_reserved#}, set_up = []\<rparr>"

lemmas relies_defs = blk_relies_def qw_relies_def sem_relies_def mutex_relies_def
  unuse_relies_def mmap_relies_def

lemmas early_simps = early_def whole_run_def exposed_def ready_at_def relies_defs module_defs Let_def

section \<open>The modules that are ready\<close>

lemma upt_numeral_step: "i < j \<Longrightarrow> [i..<j] = i # [Suc i..<j]"
  by (rule upt_conv_Cons)

lemma blk_never_early: "kernel_ok K \<Longrightarrow> early blk_module_init blk_module_exit blk_relies K = []"
  using kernel_okD(2) [of K Blk_init_queue] kernel_okD(2) [of K Alloc_disk] kernel_okD(3) [of K]
  by (auto simp: early_simps succeeds_def upt_numeral_step order_less_le)

lemma qw_early: "all_succeed K \<Longrightarrow> early qw_module_init qw_module_exit qw_relies K = [1]"
  by (simp add: early_simps upt_numeral_step all_succeedD)

lemma sem_early: "all_succeed K \<Longrightarrow> early sem_module_init sem_module_exit sem_relies K = [4, 5, 6]"
  by (simp add: early_simps upt_numeral_step all_succeedD)

lemma mutex_early: "all_succeed K \<Longrightarrow> early mutex_module_init mutex_module_exit mutex_relies K = [4, 5, 6, 7]"
  by (simp add: early_simps upt_numeral_step all_succeedD)

lemma unuse_early: "all_succeed K \<Longrightarrow> early unuse_module_init unuse_module_exit unuse_relies K = [4, 5, 6]"
  by (simp add: early_simps upt_numeral_step all_succeedD)

lemma mmap_early: "all_succeed K \<Longrightarrow> early mmap_module_init mmap_module_exit mmap_relies K = [1, 2]"
  by (simp add: early_simps upt_numeral_step all_succeedD)

text \<open>Without its memory the module is refused but its device stays, so this state is final.\<close>

lemma mutex_early_without_memory:
  assumes "kernel_ok K" and "\<forall>c. c \<noteq> Kzalloc \<longrightarrow> succeeds K c" and "\<not> succeeds K Kzalloc"
  shows "early mutex_module_init mutex_module_exit mutex_relies K = [4, 5, 6, 7, 8] \<and>
    length (whole_run mutex_module_init mutex_module_exit K) = 8"
proof -
  have "K Kzalloc = 0" using assms(1,3) kernel_okD(2) [of K Kzalloc] by (simp add: succeeds_def)
  with assms(2) show ?thesis by (simp add: early_simps upt_numeral_step succeeds_def)
qed

section \<open>Properties\<close>

text \<open>
  C25. Whether the callbacks of six device drivers can run before what they rely on is there. The block
  device never exposes its
  request function early, whatever fails, and takes it down before anything it uses. Five drivers
  make their device live too soon: queue_wait before the wait queue head is initialised, the semaphore
  driver before the semaphore, both mutex drivers before the memory (and the one with the mutex before the
  mutex), mmap before its page is allocated and reserved; at the listed points of the load, and at no
  point of the unload. And when
  the memory of the mutex driver cannot be allocated, its device stays in that state for good.
\<close>

theorem lifecycle_callbacks_ready:
  assumes "kernel_ok K"
  shows "early blk_module_init blk_module_exit blk_relies K = [] \<and>
    (all_succeed K \<longrightarrow>
      early qw_module_init qw_module_exit qw_relies K = [1] \<and>
      early sem_module_init sem_module_exit sem_relies K = [4, 5, 6] \<and>
      early mutex_module_init mutex_module_exit mutex_relies K = [4, 5, 6, 7] \<and>
      early unuse_module_init unuse_module_exit unuse_relies K = [4, 5, 6] \<and>
      early mmap_module_init mmap_module_exit mmap_relies K = [1, 2]) \<and>
    ((\<forall>c. c \<noteq> Kzalloc \<longrightarrow> succeeds K c) \<and> \<not> succeeds K Kzalloc \<longrightarrow>
      length (whole_run mutex_module_init mutex_module_exit K) \<in>
        set (early mutex_module_init mutex_module_exit mutex_relies K))"
proof (intro conjI impI)
  assume f: "(\<forall>c. c \<noteq> Kzalloc \<longrightarrow> succeeds K c) \<and> \<not> succeeds K Kzalloc"
  show "length (whole_run mutex_module_init mutex_module_exit K) \<in>
      set (early mutex_module_init mutex_module_exit mutex_relies K)"
    using mutex_early_without_memory [OF assms] f by simp
qed (use assms in \<open>simp_all add: blk_never_early qw_early sem_early mutex_early
  unuse_early mmap_early\<close>)

theorem lifecycle_callbacks_ready_witness:
  "early blk_module_init blk_module_exit blk_relies (good_kernel(Alloc_disk := 0)) = [] \<and>
    early qw_module_init qw_module_exit qw_relies good_kernel = [1]"
  using lifecycle_callbacks_ready [OF failing_alloc_ok, of Alloc_disk]
    lifecycle_callbacks_ready [OF good_kernel_ok(1)] good_kernel_ok(2)
  by simp

end
