(* ===== verification/Module_Pinning.thy ===== *)
theory Module_Pinning
  imports Scheduler
begin

text \<open>
  What keeps a module in memory while its device is in use: the field \<open>owner\<close> of the tables of file
  operations (\<open>my_fops\<close> of \<open>char_drv.c\<close>, \<open>misc_fops\<close>, \<open>fourth_drv_fops\<close>, \<open>myfops\<close>, \<open>dev_fops\<close>, \<open>simp_blkdev_fops\<close> and the two
  \<open>example_fops\<close>). Any number of processes open the device, are inside its handlers, map it and close
  it, and \<open>rmmod\<close> tries to unload the module at any time. The module loader and its reference count are
  the kernel's, the record \<open>module_kops\<close>; \<open>module_kspec\<close> is what is documented of them.
\<close>

section \<open>The tables\<close>

datatype fop = Fop_open | Fop_release | Fop_read | Fop_write | Fop_llseek | Fop_unlocked_ioctl | Fop_mmap

text \<open>\<open>owned\<close> says that \<open>owner\<close> is \<open>THIS_MODULE\<close>; without an initialiser it is the null pointer.\<close>

record fops =
  owned :: bool
  handlers :: "fop \<Rightarrow> string option"

definition rw_fops :: fops where
  "rw_fops = \<lparr>owned = False, handlers =
    [Fop_open \<mapsto> ''example_open'', Fop_release \<mapsto> ''example_close'', Fop_read \<mapsto> ''example_read'',
     Fop_write \<mapsto> ''example_write'']\<rparr>"

definition qw_fops :: fops where
  "qw_fops = \<lparr>owned = False, handlers =
    [Fop_open \<mapsto> ''example_open'', Fop_release \<mapsto> ''example_close'', Fop_read \<mapsto> ''example_read'',
     Fop_write \<mapsto> ''example_write'']\<rparr>"

definition char_fops :: fops where
  "char_fops = \<lparr>owned = True, handlers =
    [Fop_open \<mapsto> ''_open'', Fop_release \<mapsto> ''_release'', Fop_read \<mapsto> ''_read'', Fop_write \<mapsto> ''_write'',
     Fop_unlocked_ioctl \<mapsto> ''_ioctl'']\<rparr>"

definition misc_fops :: fops where
  "misc_fops = \<lparr>owned = True, handlers =
    [Fop_read \<mapsto> ''misc_read'', Fop_open \<mapsto> ''misc_open'', Fop_write \<mapsto> ''misc_write'',
     Fop_release \<mapsto> ''misc_release'', Fop_unlocked_ioctl \<mapsto> ''misc_ioctl'']\<rparr>"

definition bus_misc_fops :: fops where
  "bus_misc_fops = \<lparr>owned = True, handlers =
    [Fop_open \<mapsto> ''misc_open'', Fop_release \<mapsto> ''misc_release'', Fop_read \<mapsto> ''misc_read'',
     Fop_write \<mapsto> ''misc_write'']\<rparr>"

definition fourth_drv_fops :: fops where
  "fourth_drv_fops = \<lparr>owned = True, handlers =
    [Fop_open \<mapsto> ''_open'', Fop_release \<mapsto> ''_release'', Fop_read \<mapsto> ''_read'', Fop_write \<mapsto> ''_write'']\<rparr>"

definition mutex_fops :: fops where
  "mutex_fops = \<lparr>owned = True, handlers =
    [Fop_open \<mapsto> ''_open'', Fop_llseek \<mapsto> ''_llseek'', Fop_release \<mapsto> ''_release'', Fop_read \<mapsto> ''_read'',
     Fop_write \<mapsto> ''_write'']\<rparr>"

definition unuse_fops :: fops where
  "unuse_fops = \<lparr>owned = True, handlers =
    [Fop_open \<mapsto> ''_open'', Fop_llseek \<mapsto> ''_llseek'', Fop_release \<mapsto> ''_release'', Fop_read \<mapsto> ''_read'',
     Fop_write \<mapsto> ''_write'']\<rparr>"

definition mmap_dev_fops :: fops where
  "mmap_dev_fops = \<lparr>owned = True, handlers = [Fop_open \<mapsto> ''my_open'', Fop_mmap \<mapsto> ''my_map'']\<rparr>"

text \<open>The block device's own operations are the block layer's; its table only names the owner.\<close>

definition simp_blkdev_fops :: fops where
  "simp_blkdev_fops = \<lparr>owned = True, handlers = (\<lambda>_. None)\<rparr>"

definition driver_fops :: "fops list" where
  "driver_fops = [rw_fops, qw_fops, char_fops, misc_fops, bus_misc_fops, fourth_drv_fops, mutex_fops,
    unuse_fops, mmap_dev_fops, simp_blkdev_fops]"

text \<open>
  Two more tables are not of devices but of a file of debugfs, \<open>my_fops\<close> of \<open>kernalSignal.c\<close> and of its copy
  \<open>kernalSignal_drv.c\<close>. They name no owner either, but are not among the tables above: debugfs opens its
  files with operations of its own and makes the removal of a file wait for the calls on it.
\<close>

definition ksig_fops :: fops where
  "ksig_fops = \<lparr>owned = False, handlers = [Fop_write \<mapsto> ''write_pid'']\<rparr>"

definition drv_ksig_fops :: fops where
  "drv_ksig_fops = \<lparr>owned = False, handlers = [Fop_write \<mapsto> ''write_pid'']\<rparr>"

definition debugfs_fops :: "fops list" where
  "debugfs_fops = [ksig_fops, drv_ksig_fops]"

lemmas table_defs = rw_fops_def qw_fops_def char_fops_def misc_fops_def bus_misc_fops_def
  fourth_drv_fops_def mutex_fops_def unuse_fops_def mmap_dev_fops_def simp_blkdev_fops_def
  ksig_fops_def drv_ksig_fops_def

text \<open>All tables without an owner.\<close>

lemma tables_without_owner:
  assumes "T \<in> set (driver_fops @ debugfs_fops)"
  shows "\<not> owned T \<longleftrightarrow> T \<in> {rw_fops, qw_fops, ksig_fops, drv_ksig_fops}"
  using assms by (auto simp: driver_fops_def debugfs_fops_def table_defs)

section \<open>The module loader as a parameter\<close>

record 'k module_kops =
  kopen :: "bool \<Rightarrow> 'k \<Rightarrow> 'k option"
  kput :: "bool \<Rightarrow> 'k \<Rightarrow> 'k"
  kunload :: "'k \<Rightarrow> 'k option"
  kloaded :: "'k \<Rightarrow> bool"

record module_view =
  live :: bool
  refs :: nat

text \<open>
  An open finds the device while the module is loaded and counts it as a reference if the table has an
  owner; the last close gives the reference back; the module is unloaded, and what it holds freed, only
  when nothing is counted.
\<close>

definition module_kspec :: "'k module_kops \<Rightarrow> ('k \<Rightarrow> module_view) \<Rightarrow> bool" where
  "module_kspec K view \<longleftrightarrow>
    (\<forall>b k. \<not> live (view k) \<longrightarrow> kopen K b k = None) \<and>
    (\<forall>b k. live (view k) \<longrightarrow>
      (\<exists>k'. kopen K b k = Some k' \<and> view k' = (view k)\<lparr>refs := refs (view k) + of_bool b\<rparr>)) \<and>
    (\<forall>b k. view (kput K b k) = (view k)\<lparr>refs := refs (view k) - of_bool b\<rparr>) \<and>
    (\<forall>k. live (view k) \<and> refs (view k) = 0 \<longrightarrow>
      (\<exists>k'. kunload K k = Some k' \<and> view k' = (view k)\<lparr>live := False\<rparr>)) \<and>
    (\<forall>k. \<not> live (view k) \<or> refs (view k) \<noteq> 0 \<longrightarrow> kunload K k = None) \<and>
    (\<forall>k. kloaded K k \<longleftrightarrow> live (view k))"

section \<open>The processes\<close>

text \<open>
  What a process has of the device: the descriptor, a mapping, and the handler it is inside of, asleep
  or not. Each process opens the device once at a time; two descriptors are two processes here.
\<close>

record proc =
  opened :: bool
  mapped :: bool
  inside :: "fop option"

definition holds :: "proc \<Rightarrow> bool" where
  "holds p \<longleftrightarrow> opened p \<or> mapped p \<or> inside p \<noteq> None"

text \<open>\<open>gone_used\<close>: code, tables or memory of the module were used after it had been unloaded.\<close>

record 'k pin_sys =
  kern :: 'k
  procs :: "nat \<Rightarrow> proc"
  gone_used :: bool

datatype pin_act =
    P_open nat
  | P_call nat fop
  | P_return nat bool
  | P_close nat
  | P_munmap nat
  | P_access nat
  | P_unload

definition pin_use :: "'k module_kops \<Rightarrow> 'k pin_sys \<Rightarrow> 'k pin_sys" where
  "pin_use K s = s\<lparr>gone_used := gone_used s \<or> \<not> kloaded K (kern s)\<rparr>"

definition set_proc :: "nat \<Rightarrow> proc \<Rightarrow> 'k pin_sys \<Rightarrow> 'k pin_sys" where
  "set_proc i p s = s\<lparr>procs := (procs s)(i := p)\<rparr>"

definition put_file :: "'k module_kops \<Rightarrow> fops \<Rightarrow> nat \<Rightarrow> 'k pin_sys \<Rightarrow> 'k pin_sys" where
  "put_file K T i s =
    set_proc i \<lparr>opened = False, mapped = False, inside = None\<rparr> (s\<lparr>kern := kput K (owned T) (kern s)\<rparr>)"

text \<open>A process has given up its descriptor or its mapping; with the last of them the file is released.\<close>

definition drop_file :: "'k module_kops \<Rightarrow> fops \<Rightarrow> nat \<Rightarrow> proc \<Rightarrow> 'k pin_sys \<Rightarrow> 'k pin_sys" where
  "drop_file K T i p s =
    (if opened p \<or> mapped p then set_proc i p s
     else if handlers T Fop_release = None then put_file K T i (pin_use K s)
     else set_proc i (p\<lparr>inside := Some Fop_release\<rparr>) (pin_use K s))"

text \<open>
  \<open>P_return i ok\<close>: the handler returns, \<open>ok\<close> saying whether an open or a mapping succeeded; a failed
  open releases nothing but the reference. \<open>P_access\<close> is a load or store through the mapping.
\<close>

fun pin_step :: "'k module_kops \<Rightarrow> fops \<Rightarrow> pin_act \<Rightarrow> 'k pin_sys \<Rightarrow> 'k pin_sys option" where
  "pin_step K T (P_open i) s =
    (if holds (procs s i) then None
     else case kopen K (owned T) (kern s) of
            None \<Rightarrow> None
          | Some k \<Rightarrow> Some (pin_use K (set_proc i
              (if handlers T Fop_open = None then \<lparr>opened = True, mapped = False, inside = None\<rparr>
               else \<lparr>opened = False, mapped = False, inside = Some Fop_open\<rparr>) (s\<lparr>kern := k\<rparr>))))"
| "pin_step K T (P_call i op) s =
    (let p = procs s i in
     if opened p \<and> inside p = None \<and> op \<notin> {Fop_open, Fop_release}
     then Some (pin_use K (if handlers T op = None then s else set_proc i (p\<lparr>inside := Some op\<rparr>) s))
     else None)"
| "pin_step K T (P_return i ok) s =
    (let p = procs s i; u = pin_use K s in
     case inside p of
       None \<Rightarrow> None
     | Some Fop_open \<Rightarrow>
         Some (if ok then set_proc i (p\<lparr>opened := True, inside := None\<rparr>) u else put_file K T i u)
     | Some Fop_release \<Rightarrow> Some (put_file K T i u)
     | Some Fop_mmap \<Rightarrow> Some (set_proc i (p\<lparr>mapped := mapped p \<or> ok, inside := None\<rparr>) u)
     | Some op \<Rightarrow> Some (set_proc i (p\<lparr>inside := None\<rparr>) u))"
| "pin_step K T (P_close i) s =
    (let p = procs s i in
     if opened p \<and> inside p = None then Some (drop_file K T i (p\<lparr>opened := False\<rparr>) (pin_use K s)) else None)"
| "pin_step K T (P_munmap i) s =
    (let p = procs s i in
     if mapped p \<and> inside p = None then Some (drop_file K T i (p\<lparr>mapped := False\<rparr>) s) else None)"
| "pin_step K T (P_access i) s = (if mapped (procs s i) then Some (pin_use K s) else None)"
| "pin_step K T P_unload s =
    (case kunload K (kern s) of None \<Rightarrow> None | Some k \<Rightarrow> Some (s\<lparr>kern := k\<rparr>))"

definition pin_start :: "'k module_kops \<Rightarrow> ('k \<Rightarrow> module_view) \<Rightarrow> 'k pin_sys \<Rightarrow> bool" where
  "pin_start K view s \<longleftrightarrow> module_kspec K view \<and> view (kern s) = \<lparr>live = True, refs = 0\<rparr> \<and>
    (\<forall>i. \<not> holds (procs s i)) \<and> \<not> gone_used s"

section \<open>The invariant\<close>

text \<open>
  With an owner the kernel counts exactly the processes that hold the device; a process inside a call
  other than the open and the release keeps its descriptor.
\<close>

definition proc_ok :: "proc \<Rightarrow> bool" where
  "proc_ok p \<longleftrightarrow> opened p \<or> inside p \<in> {None, Some Fop_open, Some Fop_release}"

definition holders :: "'k pin_sys \<Rightarrow> nat set" where
  "holders s = {i. holds (procs s i)}"

definition pin_inv :: "'k module_kops \<Rightarrow> ('k \<Rightarrow> module_view) \<Rightarrow> fops \<Rightarrow> 'k pin_sys \<Rightarrow> bool" where
  "pin_inv K view T s \<longleftrightarrow> module_kspec K view \<and> (\<forall>i. proc_ok (procs s i)) \<and>
    (owned T \<longrightarrow> finite (holders s) \<and> refs (view (kern s)) = card (holders s) \<and>
      (holders s \<noteq> {} \<longrightarrow> live (view (kern s))) \<and> \<not> gone_used s)"

lemma mspec_open:
  assumes "module_kspec K view" and "kopen K b k = Some k'"
  shows "live (view k) \<and> view k' = (view k)\<lparr>refs := refs (view k) + of_bool b\<rparr>"
proof -
  have "live (view k)" using assms unfolding module_kspec_def by force
  moreover from this obtain q where "kopen K b k = Some q" "view q = (view k)\<lparr>refs := refs (view k) + of_bool b\<rparr>"
    using assms(1) unfolding module_kspec_def by blast
  ultimately show ?thesis using assms(2) by simp
qed

lemma mspec_unload:
  assumes "module_kspec K view" and "kunload K k = Some k'"
  shows "live (view k) \<and> refs (view k) = 0 \<and> view k' = (view k)\<lparr>live := False\<rparr>"
proof -
  have "live (view k)" "refs (view k) = 0" using assms unfolding module_kspec_def by force+
  moreover from this obtain q where "kunload K k = Some q" "view q = (view k)\<lparr>live := False\<rparr>"
    using assms(1) unfolding module_kspec_def by blast
  ultimately show ?thesis using assms(2) by simp
qed

lemma mspec_can_open:
  assumes "module_kspec K view" and "live (view k)"
  obtains k' where "kopen K b k = Some k'" and "view k' = (view k)\<lparr>refs := refs (view k) + of_bool b\<rparr>"
  using assms unfolding module_kspec_def by blast

lemma mspec_can_unload:
  assumes "module_kspec K view" and "live (view k)" and "refs (view k) = 0"
  obtains k' where "kunload K k = Some k'" and "view k' = (view k)\<lparr>live := False\<rparr>"
  using assms unfolding module_kspec_def by blast

lemma mspec_simps:
  assumes "module_kspec K view"
  shows "view (kput K b k) = (view k)\<lparr>refs := refs (view k) - of_bool b\<rparr>" "kloaded K k = live (view k)"
  using assms unfolding module_kspec_def by blast+

lemma holders_iff: "i \<in> holders s \<longleftrightarrow> holds (procs s i)"
  by (simp add: holders_def)

lemma pin_use_simps [simp]:
  "kern (pin_use K s) = kern s" "procs (pin_use K s) = procs s" "holders (pin_use K s) = holders s"
  "gone_used (pin_use K s) = (gone_used s \<or> \<not> kloaded K (kern s))"
  by (simp_all add: pin_use_def holders_def)

lemma set_proc_simps [simp]:
  "kern (set_proc i p s) = kern s" "gone_used (set_proc i p s) = gone_used s"
  "procs (set_proc i p s) = (procs s)(i := p)"
  "holders (set_proc i p s) = (if holds p then insert i (holders s) else holders s - {i})"
  by (auto simp: set_proc_def holders_def)

lemma holders_kern [simp]: "holders (s\<lparr>kern := k\<rparr>) = holders s"
  by (simp add: holders_def)

text \<open>What the steps are made of keeps the invariant.\<close>

lemma pin_use_inv:
  assumes "pin_inv K view T s" and "i \<in> holders s"
  shows "pin_inv K view T (pin_use K s)"
  using assms mspec_simps(2) [of K view "kern s"] by (auto simp: pin_inv_def)

lemma set_proc_inv:
  assumes "pin_inv K view T s" and "i \<in> holders s" and "holds p" and "proc_ok p"
  shows "pin_inv K view T (set_proc i p s)"
  using assms by (simp add: pin_inv_def insert_absorb)

lemma put_file_inv:
  assumes "pin_inv K view T s" and "i \<in> holders s"
  shows "pin_inv K view T (put_file K T i s)"
  using assms mspec_simps(1) [of K view "owned T" "kern s"]
  by (auto simp: pin_inv_def put_file_def holds_def proc_ok_def)

lemma drop_file_inv:
  assumes "pin_inv K view T s" and "i \<in> holders s" and "inside p = None"
  shows "pin_inv K view T (drop_file K T i p s)"
proof -
  note u = pin_use_inv [OF assms(1,2)]
  show ?thesis
    using set_proc_inv [OF assms(1,2), of p] put_file_inv [OF u, of i]
      set_proc_inv [OF u, of i "p\<lparr>inside := Some Fop_release\<rparr>"] assms(2,3)
    by (simp add: drop_file_def holds_def proc_ok_def)
qed

lemma pin_open_inv:
  assumes inv: "pin_inv K view T s" and "i \<notin> holders s" and k: "kopen K (owned T) (kern s) = Some k" and "holds p" and "proc_ok p"
  shows "pin_inv K view T (pin_use K (set_proc i p (s\<lparr>kern := k\<rparr>)))"
proof -
  have spec: "module_kspec K view" using inv by (simp add: pin_inv_def)
  show ?thesis using assms mspec_open [OF spec k] mspec_simps(2) [OF spec]
    by (auto simp: pin_inv_def)
qed

lemma pin_start_inv: "pin_start K view s \<Longrightarrow> pin_inv K view T s"
  by (auto simp: pin_start_def pin_inv_def holders_def holds_def proc_ok_def)

lemma pin_step_inv:
  assumes inv: "pin_inv K view T s" and step: "pin_step K T a s = Some t"
  shows "pin_inv K view T t"
proof (cases a)
  case (P_open i)
  show ?thesis using step P_open pin_open_inv [OF inv, of i]
    by (auto simp: holders_iff holds_def proc_ok_def split: if_splits option.splits)
next
  case (P_call i op)
  let ?p = "(procs s i)\<lparr>inside := Some op\<rparr>"
  have i: "i \<in> holders s" "opened (procs s i)"
    using step P_call by (auto simp: holders_iff holds_def Let_def split: if_splits)
  have "pin_inv K view T (pin_use K (set_proc i ?p s))"
    by (rule pin_use_inv [where i = i, OF set_proc_inv [OF inv i(1)]]) (use i in \<open>simp_all add: holds_def proc_ok_def\<close>)
  with pin_use_inv [OF inv i(1)] show ?thesis using step P_call by (auto simp: Let_def split: if_splits)
next
  case (P_return i ok)
  then obtain op where op: "inside (procs s i) = Some op"
    using step by (auto simp: Let_def split: option.splits)
  then have i: "i \<in> holders s" by (simp add: holders_iff holds_def)
  have "proc_ok (procs s i)" using inv by (simp add: pin_inv_def)
  then have "opened (procs s i) \<or> op \<in> {Fop_open, Fop_release}" using op by (simp add: proc_ok_def)
  note u = pin_use_inv [OF inv i]
  have "pin_inv K view T (put_file K T i (pin_use K s))" using put_file_inv [OF u] i by simp
  moreover have "pin_inv K view T (set_proc i p (pin_use K s))" if "opened p" for p
    by (rule set_proc_inv [OF u]) (use i that in \<open>simp_all add: holds_def proc_ok_def\<close>)
  ultimately show ?thesis using step P_return op \<open>opened _ \<or> _\<close>
    by (cases op) (auto simp: Let_def split: if_splits)
next
  case (P_close i)
  then have i: "i \<in> holders s" and t: "t = drop_file K T i ((procs s i)\<lparr>opened := False\<rparr>) (pin_use K s)"
      "inside (procs s i) = None"
    using step by (auto simp: holders_iff holds_def Let_def split: if_splits)
  show ?thesis unfolding t(1) by (rule drop_file_inv [OF pin_use_inv [OF inv i]]) (use i t(2) in simp_all)
next
  case (P_munmap i)
  then have i: "i \<in> holders s" and t: "t = drop_file K T i ((procs s i)\<lparr>mapped := False\<rparr>) s"
      "inside (procs s i) = None"
    using step by (auto simp: holders_iff holds_def Let_def split: if_splits)
  show ?thesis unfolding t(1) by (rule drop_file_inv [OF inv i]) (use t(2) in simp)
next
  case (P_access i)
  then have "i \<in> holders s" "t = pin_use K s" using step by (auto simp: holders_iff holds_def split: if_splits)
  then show ?thesis using pin_use_inv [OF inv] by simp
next
  case P_unload
  then obtain k where k: "kunload K (kern s) = Some k" "t = s\<lparr>kern := k\<rparr>"
    using step by (auto split: option.splits)
  have spec: "module_kspec K view" using inv by (simp add: pin_inv_def)
  show ?thesis using inv mspec_unload [OF spec k(1)] unfolding k(2) by (auto simp: pin_inv_def)
qed

interpretation pin: threaded_system "pin_step K T" "pin_start K view" "pin_inv K view T" for K T view
  by unfold_locales (auto intro: pin_start_inv pin_step_inv)

lemma pin_unload_iff:
  assumes "pin_inv K view T s" and "owned T"
  shows "(\<exists>t. pin_step K T P_unload s = Some t) \<longleftrightarrow> live (view (kern s)) \<and> (\<forall>i. \<not> holds (procs s i))"
proof -
  have spec: "module_kspec K view" using assms(1) by (simp add: pin_inv_def)
  have "holders s = {} \<longleftrightarrow> refs (view (kern s)) = 0" using assms by (auto simp: pin_inv_def)
  then show ?thesis
    using mspec_unload [OF spec] mspec_can_unload [OF spec, of "kern s"]
    by (auto simp: holders_iff [symmetric] split: option.splits) fastforce+
qed

section \<open>Without an owner\<close>

text \<open>A process reads, and the module goes while it is inside.\<close>

definition unload_under_reader :: "pin_act list" where
  "unload_under_reader = [P_open 0, P_return 0 True, P_call 0 Fop_read, P_unload]"

lemma unowned_unload:
  assumes "pin_start K view s" and "\<not> owned T" and "handlers T Fop_open = Some f" and "handlers T Fop_read = Some g"
  obtains t u where "run_schedule (pin_step K T) unload_under_reader s = Some t"
    and "inside (procs t 0) = Some Fop_read" and "\<not> live (view (kern t))"
    and "pin_step K T (P_return 0 True) t = Some u" and "gone_used u"
proof -
  have spec: "module_kspec K view" and s: "view (kern s) = \<lparr>live = True, refs = 0\<rparr>" "\<not> holds (procs s 0)"
    using assms(1) by (auto simp: pin_start_def)
  obtain k where k: "kopen K False (kern s) = Some k" "view k = \<lparr>live = True, refs = 0\<rparr>"
    by (rule mspec_can_open [OF spec, of "kern s" False]) (use s(1) in simp_all)
  obtain k' where k': "kunload K k = Some k'" "view k' = \<lparr>live = False, refs = 0\<rparr>"
    by (rule mspec_can_unload [OF spec, of k]) (use k(2) in simp_all)
  let ?t = "s\<lparr>procs := (procs s)(0 := \<lparr>opened = True, mapped = False, inside = Some Fop_read\<rparr>), kern := k'\<rparr>"
  have "run_schedule (pin_step K T) unload_under_reader s = Some ?t"
    using assms(2-4) s(2) k k' mspec_simps(2) [OF spec]
    by (simp add: unload_under_reader_def Let_def pin_use_def set_proc_def)
  moreover obtain u where "pin_step K T (P_return 0 True) ?t = Some u" "gone_used u"
    using k'(2) mspec_simps(2) [OF spec] by (simp add: Let_def)
  ultimately show ?thesis using k'(2) by (intro that [of ?t u]) simp_all
qed

section \<open>A module loader that meets its contract\<close>

definition count_kops :: "module_view module_kops" where
  "count_kops = \<lparr>
    kopen = (\<lambda>b k. if live k then Some (k\<lparr>refs := refs k + of_bool b\<rparr>) else None),
    kput = (\<lambda>b k. k\<lparr>refs := refs k - of_bool b\<rparr>),
    kunload = (\<lambda>k. if live k \<and> refs k = 0 then Some (k\<lparr>live := False\<rparr>) else None),
    kloaded = live\<rparr>"

definition pin_fresh :: "module_view pin_sys" where
  "pin_fresh = \<lparr>kern = \<lparr>live = True, refs = 0\<rparr>,
    procs = (\<lambda>_. \<lparr>opened = False, mapped = False, inside = None\<rparr>), gone_used = False\<rparr>"

lemma count_kops_spec: "module_kspec count_kops (\<lambda>k. k)"
  by (auto simp: module_kspec_def count_kops_def)

lemma pin_fresh_start: "pin_start count_kops (\<lambda>k. k) pin_fresh"
  by (simp add: pin_start_def count_kops_spec pin_fresh_def holds_def)

section \<open>Properties\<close>

text \<open>
  C26. Which drivers can be unloaded under their users. A driver whose table names its owner stays in
  memory in every interleaving as long as a process has the device open, is inside a handler or maps it:
  nothing of the module is used after it has gone, and \<open>rmmod\<close> succeeds exactly when nobody holds the
  device. Of the tables of devices those of queue_wait and of the RWTest device name no owner: a process inside
  \<open>example_read\<close>, for queue_wait one that sleeps there, does not keep the module, and returns into code that
  is gone.
\<close>

theorem modules_pinned_by_owner:
  assumes "pin_start K view s" and "T \<in> set driver_fops"
  shows "if T = rw_fops \<or> T = qw_fops
    then \<exists>t u. reaches (pin_step K T) s t \<and> inside (procs t 0) = Some Fop_read \<and> \<not> live (view (kern t)) \<and>
      pin_step K T (P_return 0 True) t = Some u \<and> gone_used u
    else \<forall>t. reaches (pin_step K T) s t \<longrightarrow> \<not> gone_used t \<and>
      (\<forall>i. holds (procs t i) \<longrightarrow> live (view (kern t))) \<and>
      ((\<exists>u. pin_step K T P_unload t = Some u) \<longleftrightarrow> live (view (kern t)) \<and> (\<forall>i. \<not> holds (procs t i)))"
proof (cases "T = rw_fops \<or> T = qw_fops")
  case True
  then have "\<not> owned T" "handlers T Fop_open = Some ''example_open''" "handlers T Fop_read = Some ''example_read''"
    by (auto simp: table_defs)
  then obtain t u where t: "run_schedule (pin_step K T) unload_under_reader s = Some t"
    "inside (procs t 0) = Some Fop_read" "\<not> live (view (kern t))"
    "pin_step K T (P_return 0 True) t = Some u" "gone_used u"
    by (rule unowned_unload [OF assms(1)])
  with run_schedule_reaches [OF t(1)] True show ?thesis by (simp del: pin_step.simps) blast
next
  case False
  then have "owned T" using assms(2) by (auto simp: driver_fops_def table_defs)
  moreover from this have "\<not> gone_used t \<and> (\<forall>i. holds (procs t i) \<longrightarrow> live (view (kern t)))"
    if "pin_inv K view T t" for t
    using that by (auto simp: pin_inv_def holders_def)
  ultimately show ?thesis
    using False pin.reachable_inv [OF assms(1)] pin_unload_iff [of K view T] by (simp del: pin_step.simps)
qed

theorem modules_pinned_by_owner_witness:
  "(\<exists>t. reaches (pin_step count_kops qw_fops) pin_fresh t \<and> inside (procs t 0) = Some Fop_read \<and> \<not> live (kern t)) \<and>
    (\<exists>t. reaches (pin_step count_kops mmap_dev_fops) pin_fresh t \<and> mapped (procs t 1) \<and> \<not> opened (procs t 1) \<and>
      pin_step count_kops mmap_dev_fops P_unload t = None)"
proof -
  let ?run = "[P_open 1, P_return 1 True, P_call 1 Fop_mmap, P_return 1 True, P_close 1]"
  obtain t where t: "run_schedule (pin_step count_kops mmap_dev_fops) ?run pin_fresh = Some t"
    "mapped (procs t 1)" "\<not> opened (procs t 1)"
    by (simp add: Let_def count_kops_def pin_fresh_def mmap_dev_fops_def holds_def pin_use_def set_proc_def drop_file_def)
  note r = run_schedule_reaches [OF t(1)]
  have "mmap_dev_fops \<noteq> rw_fops" "mmap_dev_fops \<noteq> qw_fops" "mmap_dev_fops \<in> set driver_fops" "qw_fops \<in> set driver_fops"
    by (simp_all add: table_defs driver_fops_def)
  then have "\<not> (\<exists>u. pin_step count_kops mmap_dev_fops P_unload t = Some u)"
    "\<exists>t. reaches (pin_step count_kops qw_fops) pin_fresh t \<and> inside (procs t 0) = Some Fop_read \<and> \<not> live (kern t)"
    using modules_pinned_by_owner [OF pin_fresh_start, of mmap_dev_fops] r t(2)
      modules_pinned_by_owner [OF pin_fresh_start, of qw_fops]
    by (auto simp: holds_def simp del: pin_step.simps)
  with r t(2,3) show ?thesis by (auto simp del: pin_step.simps)
qed

end
