(* ===== verification/Device_Model.thy ===== *)
theory Device_Model
  imports Lifecycle "HOL-Library.Sublist"
begin

text \<open>
  The device-model examples: the bus of \<open>06-bus\<close> with its match function, attributes and the
  probe and remove of its driver, the kobject attribute and the kset event of \<open>07-kobject\<close>, and
  the notifier chain of \<open>05-Notifier\<close>. Names and attribute texts are C strings, lists of
  bytes without a zero.
\<close>

section \<open>The bus\<close>

text \<open>\<open>strncmp(s, t, n)\<close>, with 0 for the end of a string.\<close>

fun char_at :: "byte list \<Rightarrow> byte" where
  "char_at [] = 0"
| "char_at (b # bs) = b"

fun strncmp :: "byte list \<Rightarrow> byte list \<Rightarrow> nat \<Rightarrow> int" where
  "strncmp s t 0 = 0"
| "strncmp s t (Suc n) =
    (if char_at s \<noteq> char_at t then int (unat (char_at s)) - int (unat (char_at t))
     else if char_at s = 0 then 0
     else strncmp (tl s) (tl t) n)"

definition my_match :: "byte list \<Rightarrow> byte list \<Rightarrow> int" where
  "my_match dev_name driver_name =
    (if strncmp dev_name driver_name (length driver_name) = 0 then 1 else 0)"

text \<open>\<open>"my_dev"\<close>, the name of the device and of the driver.\<close>

definition my_dev_name :: "byte list" where
  "my_dev_name = [109, 121, 95, 100, 101, 118]"

text \<open>\<open>my_probe\<close> and \<open>my_remove\<close>: the result and the kernel calls made.\<close>

definition my_probe :: "kernel \<Rightarrow> int \<times> kcall list" where
  "my_probe K = (0, [Misc_register])"

definition my_remove :: "int \<times> kcall list" where
  "my_remove = (0, [Misc_deregister])"

text \<open>
  The attributes print a text and a newline into the page of the reader and return what
  \<open>sprintf\<close> or \<open>snprintf\<close> returns, the number of characters.
\<close>

definition ascii :: "string \<Rightarrow> byte list" where
  "ascii s = map of_char s"

definition mydev_show :: "byte list \<times> int" where
  "mydev_show = (let s = ascii ''This is my device!'' @ [10] in (s, int (length s)))"

definition mydriver_show :: "byte list \<times> int" where
  "mydriver_show = (let s = ascii ''This is my driver!'' @ [10] in (s, int (length s)))"

definition show_bus_version :: "byte list \<times> int" where
  "show_bus_version =
    (let s = ascii ''$Revision: 1.9 $'' @ [10] in (take 4095 s, int (length s)))"

text \<open>What each attribute returns is the number of characters it printed.\<close>

lemma show_lengths:
  "snd mydev_show = int (length (fst mydev_show))" "snd mydriver_show = int (length (fst mydriver_show))"
  "snd show_bus_version = int (length (fst show_bus_version))"
  by (simp_all add: mydev_show_def mydriver_show_def show_bus_version_def ascii_def)

lemma byte_uint_eq: "uint a = uint b \<longleftrightarrow> a = (b :: byte)"
  by (metis word_of_int_uint)

lemma byte_uint_0: "uint b = 0 \<longleftrightarrow> b = (0 :: byte)"
  using byte_uint_eq [of b 0] by simp

lemma strncmp_prefix:
  assumes "0 \<notin> set t"
  shows "strncmp s t (length t) = 0 \<longleftrightarrow> prefix t s"
  using assms
proof (induction t arbitrary: s)
  case Nil
  then show ?case by simp
next
  case (Cons b t)
  then show ?case by (cases s) (auto simp: byte_uint_eq byte_uint_0)
qed

text \<open>A probe whose \<open>misc_register\<close> fails still binds, and its remove releases what was never held.\<close>

lemma my_probe_hides_failure:
  assumes "K Misc_register < 0"
  shows "fst (my_probe K) = 0 \<and> ledger K (snd (my_probe K) @ snd my_remove) {#} = None"
  using assms by (simp add: my_probe_def my_remove_def module_simps)

lemma my_probe_remove_clean:
  assumes "K Misc_register = 0"
  shows "ledger K (snd (my_probe K) @ snd my_remove) {#} = Some {#}"
  using assms by (simp add: my_probe_def my_remove_def module_simps)

text \<open>
  The file operations of the device \<open>misc_321\<close> that the probe registers: what each prints, and its
  result. A read is always the end of file, a write takes everything.
\<close>

datatype misc_line = Misc_open_line | Misc_release_line | Read_line | Write_line

definition bus_misc_open :: "misc_line \<times> int" where "bus_misc_open = (Misc_open_line, 0)"
definition bus_misc_release :: "misc_line \<times> int" where "bus_misc_release = (Misc_release_line, 0)"
definition bus_misc_read :: "int \<Rightarrow> misc_line \<times> int" where "bus_misc_read sz = (Read_line, 0)"
definition bus_misc_write :: "int \<Rightarrow> misc_line \<times> int" where "bus_misc_write sz = (Write_line, s64 sz)"

text \<open>
  The three modules of the bus loaded together: bus, device, driver. Registering the driver makes
  the bus offer it the device, so when the names match, the probe runs inside the driver's load and
  the remove inside its unload, before the driver is gone.
\<close>

definition bus_stack_load :: "kernel \<Rightarrow> kcall list" where
  "bus_stack_load K = snd (bus_module_init K) @ snd (bdev_module_init K) @ snd (bdrv_module_init K) @
    (if my_match my_dev_name my_dev_name \<noteq> 0 then snd (my_probe K) else [])"

definition bus_stack_unload :: "kcall list" where
  "bus_stack_unload =
    (if my_match my_dev_name my_dev_name \<noteq> 0 then snd my_remove else []) @
    bdrv_module_exit @ bdev_module_exit @ bus_module_exit"

lemma my_dev_matches: "my_match my_dev_name my_dev_name = 1"
  using strncmp_prefix [of my_dev_name my_dev_name] by (simp add: my_match_def my_dev_name_def)

section \<open>The platform driver\<close>

definition platform_my_probe :: "int \<times> kcall list" where "platform_my_probe = (0, [])"
definition platform_my_remove :: "int \<times> kcall list" where "platform_my_remove = (0, [])"

section \<open>The kobject and the kset\<close>

text \<open>
  \<open>kobj_test_show\<close> prints the name of the attribute and a newline, and returns two more than
  the length of the name; the reader gets that many bytes of the page, \<open>sprintf\<close> having put its
  terminator behind the newline. \<open>kobj_test_store\<close> returns the whole count.
\<close>

definition kobj_test_show :: "byte list \<Rightarrow> kmem \<Rightarrow> kmem \<times> int" where
  "kobj_test_show attr_name buf = (store buf 0 (attr_name @ [10, 0]), int (length attr_name) + 2)"

definition kobj_test_store :: "int \<Rightarrow> int" where
  "kobj_test_store cnt = cnt"

text \<open>The loop of \<open>kset_uevent\<close> over the environment: what it prints, and its result.\<close>

fun kset_uevent_loop :: "nat \<Rightarrow> nat \<Rightarrow> byte list list \<Rightarrow> fault + byte list list" where
  "kset_uevent_loop 0 i envp = Inr []"
| "kset_uevent_loop (Suc n) i envp =
    (if length envp \<le> i then Inl Oob_read
     else case kset_uevent_loop n (Suc i) envp of Inl e \<Rightarrow> Inl e | Inr ls \<Rightarrow> Inr (envp ! i # ls))"

definition kset_uevent :: "nat \<Rightarrow> byte list list \<Rightarrow> fault + byte list list \<times> int" where
  "kset_uevent envp_idx envp =
    (case kset_uevent_loop envp_idx 0 envp of Inl e \<Rightarrow> Inl e | Inr ls \<Rightarrow> Inr (ls, 0))"

definition kset_filter :: int where "kset_filter = 1"

definition kset_name :: "byte list" where
  "kset_name = [107, 115, 101, 116, 95, 110, 97, 109, 101]"

lemma kobj_show_sends_terminator:
  "load (fst (kobj_test_show name buf)) 0 (nat (snd (kobj_test_show name buf))) = name @ [10, 0]"
  using load_store_same [of buf 0 "name @ [10, 0]"] by (simp add: kobj_test_show_def nat_add_distrib)

lemma kset_uevent_loop_prints:
  "i + n \<le> length envp \<Longrightarrow> kset_uevent_loop n i envp = Inr (take n (drop i envp))"
proof (induction n arbitrary: i)
  case 0
  then show ?case by simp
next
  case (Suc n)
  then show ?case by (simp add: Cons_nth_drop_Suc [symmetric])
qed

text \<open>The event prints the variables of the environment in order and lets the event pass.\<close>

lemma kset_uevent_prints:
  "envp_idx \<le> length envp \<Longrightarrow> kset_uevent envp_idx envp = Inr (take envp_idx envp, 0)"
  by (simp add: kset_uevent_def kset_uevent_loop_prints)

section \<open>The notifier chain\<close>

text \<open>
  The three callbacks print their number and the event and end without a return value, so what
  the chain sees as their results is arbitrary: \<open>garbage\<close> gives it per callback and event. The
  call of the chain is the kernel's and is a parameter, given the callbacks as a function from
  their number to the result and the line printed.
\<close>

type_synonym notifier_line = "nat \<times> int"

definition notifier_event :: "(nat \<Rightarrow> int \<Rightarrow> int) \<Rightarrow> nat \<Rightarrow> int \<Rightarrow> int \<times> notifier_line" where
  "notifier_event garbage k event = (garbage k event, (k, event))"

type_synonym chain_call = "(nat \<Rightarrow> int \<Rightarrow> int \<times> notifier_line) \<Rightarrow> nat list \<Rightarrow> int \<Rightarrow> notifier_line list"

record notifier_state =
  ncount :: int
  registered :: "nat list"

text \<open>One expiry of the timer: the chain is called with the count, which then goes up by one.\<close>

definition notifier_function :: "chain_call \<Rightarrow> (nat \<Rightarrow> int \<Rightarrow> int) \<Rightarrow> notifier_state \<Rightarrow>
    notifier_state \<times> notifier_line list" where
  "notifier_function call garbage s =
    (s\<lparr>ncount := u64 (ncount s + 1)\<rparr>, call (notifier_event garbage) (registered s) (ncount s))"

fun notifier_ticks :: "chain_call \<Rightarrow> (nat \<Rightarrow> int \<Rightarrow> int) \<Rightarrow> nat \<Rightarrow> notifier_state \<Rightarrow>
    notifier_state \<times> notifier_line list" where
  "notifier_ticks call garbage 0 s = (s, [])"
| "notifier_ticks call garbage (Suc n) s =
    (let (t, ls) = notifier_function call garbage s; (u, ls') = notifier_ticks call garbage n t
     in (u, ls @ ls'))"

definition myNotifier_init :: "notifier_state" where
  "myNotifier_init = \<lparr>ncount = 0, registered = [1, 2, 3]\<rparr>"

text \<open>
  Documented: the chain calls its blocks in order until one returns a result with the stop bit.
\<close>

fun chain_spec_lines :: "(nat \<Rightarrow> int \<Rightarrow> int \<times> notifier_line) \<Rightarrow> (int \<Rightarrow> bool) \<Rightarrow> nat list \<Rightarrow> int \<Rightarrow>
    notifier_line list" where
  "chain_spec_lines cb stop [] event = []"
| "chain_spec_lines cb stop (k # ks) event =
    snd (cb k event) # (if stop (fst (cb k event)) then [] else chain_spec_lines cb stop ks event)"

definition chain_spec :: "chain_call \<Rightarrow> (int \<Rightarrow> bool) \<Rightarrow> bool" where
  "chain_spec call stop \<longleftrightarrow> (\<forall>cb ks event. call cb ks event = chain_spec_lines cb stop ks event)"

lemma chain_all:
  "\<forall>k \<in> set ks. \<not> stop (garbage k event) \<Longrightarrow>
    chain_spec_lines (notifier_event garbage) stop ks event = map (\<lambda>k. (k, event)) ks"
  by (induction ks) (simp_all add: notifier_event_def)

text \<open>
  As long as no garbage has the stop bit, each tick prints its number by all three callbacks in
  the order of registration; with the bit in the first callback's, the others are skipped.
\<close>

lemma notifier_ticks_print:
  assumes "chain_spec call stop" and "\<forall>k event. \<not> stop (garbage k event)"
    and "registered s = [1, 2, 3]" and "0 \<le> ncount s"
    and "ncount s + int n < 18446744073709551616"
  shows "snd (notifier_ticks call garbage n s) =
    concat (map (\<lambda>j. [(1, ncount s + int j), (2, ncount s + int j), (3, ncount s + int j)]) [0..<n])"
  using assms(3-5)
proof (induction n arbitrary: s)
  case 0
  then show ?case by simp
next
  case (Suc n)
  let ?t = "s\<lparr>ncount := ncount s + 1\<rparr>"
  have tick: "notifier_function call garbage s = (?t, map (\<lambda>k. (k, ncount s)) [1, 2, 3])"
    using assms(1,2) Suc.prems chain_all [of "registered s" stop garbage "ncount s"]
    by (simp add: notifier_function_def chain_spec_def wrap_simps)
  have IH: "snd (notifier_ticks call garbage n ?t) =
      concat (map (\<lambda>j. [(1, ncount ?t + int j), (2, ncount ?t + int j), (3, ncount ?t + int j)]) [0..<n])"
    by (rule Suc.IH) (use Suc.prems in auto)
  have "[0..<Suc n] = 0 # map Suc [0..<n]" by (metis map_Suc_upt upt_conv_Cons zero_less_Suc)
  then show ?case
    using tick IH by (simp add: Let_def case_prod_beta comp_def add.assoc del: upt_Suc)
qed

lemma notifier_garbage_skips:
  assumes "chain_spec call stop" and "stop (garbage 1 0)"
  shows "snd (notifier_function call garbage myNotifier_init) = [(1, 0)]"
  using assms by (simp add: notifier_function_def chain_spec_def myNotifier_init_def notifier_event_def)

section \<open>Properties\<close>

text \<open>
  The bus matches by prefix: a device is offered to a driver exactly when the driver's name is
  a prefix of the device's name. The repository's device and driver match, but so does every
  device whose name only begins like the driver's, and a driver without a name takes them all.
\<close>

lemma bus_match_is_prefix:
  assumes "0 \<notin> set driver_name"
  shows "(my_match dev_name driver_name \<noteq> 0 \<longleftrightarrow> (\<exists>rest. dev_name = driver_name @ rest)) \<and>
    my_match my_dev_name my_dev_name = 1 \<and> my_match (my_dev_name @ rest) my_dev_name = 1 \<and>
    my_match dev_name [] = 1"
proof -
  have "0 \<notin> set my_dev_name" by (simp add: my_dev_name_def)
  then show ?thesis
    using strncmp_prefix [OF assms, of dev_name] strncmp_prefix [of my_dev_name]
    by (auto simp: my_match_def prefix_def)
qed

text \<open>
  The timer drives the whole chain: when none of the values the callbacks leave behind has the
  stop bit, the first \<open>n\<close> ticks after loading print the events 0 to \<open>n - 1\<close> in order, each by the
  callbacks 1, 2, 3; when the first callback's value has it, callbacks 2 and 3 are not called.
\<close>

lemma notifier_prints_events:
  assumes "chain_spec call stop" and "int n < 18446744073709551616"
  shows "((\<forall>k event. \<not> stop (garbage k event)) \<longrightarrow>
      snd (notifier_ticks call garbage n myNotifier_init) =
        concat (map (\<lambda>j. [(1, int j), (2, int j), (3, int j)]) [0..<n])) \<and>
    (stop (garbage 1 0) \<longrightarrow> snd (notifier_function call garbage myNotifier_init) = [(1, 0)])"
  using notifier_ticks_print [OF assms(1), of garbage myNotifier_init n] assms(2)
    notifier_garbage_skips [OF assms(1), of garbage]
  by (auto simp: myNotifier_init_def)

text \<open>
  The bus, its device and its driver fit together: when every kernel call succeeds, loading the
  three modules in this order registers the bus, two devices, the driver, the misc device of the
  probe and their attribute files, with nothing used before it is there, and unloading in the
  reverse order releases all of it. When only the probe's \<open>misc_register\<close> fails, the three loads
  still report success, but the unload then releases what was never registered.
\<close>

lemma bus_stack_balanced:
  assumes "\<forall>c. c \<noteq> Misc_register \<longrightarrow> succeeds K c"
  shows "map fst [bus_module_init K, bdev_module_init K, bdrv_module_init K, my_probe K] = [0, 0, 0, 0] \<and>
    (if succeeds K Misc_register
     then ledger K (bus_stack_load K) {#} =
        Some {#R_bus, R_bus_file, R_device, R_device, R_dev_file, R_driver, R_drv_file, R_misc#} \<and>
      ledger K (bus_stack_load K @ bus_stack_unload) {#} = Some {#}
     else ledger K (bus_stack_load K @ bus_stack_unload) {#} = None)"
proof -
  have s: "K Bus_register = 0" "K Bus_create_file = 0" "K Device_register = 0" "K Device_create_file = 0"
    "K Driver_register = 0" "K Driver_create_file = 0"
    using assms by (auto simp: succeeds_def)
  then show ?thesis
    by (simp add: bus_stack_load_def bus_stack_unload_def my_dev_matches my_probe_def my_remove_def
      module_defs succeeds_def)
qed

end
