(* ===== verification/Module_System.thy ===== *)
theory Module_System
  imports Device_Model Module_Pinning
begin

text \<open>
  All modules of the repository on one machine: any sequence of \<open>insmod\<close> and \<open>rmmod\<close>. Lifecycle looks at
  each module alone; here they share the kernel's names (major numbers, devices, classes, files of debugfs
  and sysfs), the names of the modules, the symbols the bus exports to its device and driver, and the match
  of that device with that driver.

  The loader refuses a module whose name is taken, one that imports a symbol no loaded module exports, and
  the unloading of a module whose symbols are in use. kbuild names a module after its source file, so the two
  \<open>mutex_drv.c\<close>, and \<open>device.c\<close> and \<open>driver.c\<close> of \<open>06-bus\<close> and \<open>08-platform\<close>, give modules of one name.
\<close>

section \<open>What the modules register\<close>

datatype modul =
  M_rw | M_qw | M_misc | M_blk | M_pdev | M_pdrv | M_ksig | M_drv_ksig | M_bus | M_bdev | M_bdrv
| M_char | M_sem | M_mutex | M_unuse | M_kobj | M_kset | M_notifier | M_mmap

record miscdevice =
  misc_minor :: int
  misc_name :: string
  misc_ops :: fops

definition MISC_DYNAMIC_MINOR :: int where "MISC_DYNAMIC_MINOR = 255"

definition misc_test :: miscdevice where
  "misc_test = \<lparr>misc_minor = MISC_DYNAMIC_MINOR, misc_name = ''misc_test'', misc_ops = misc_fops\<rparr>"

definition qw_misc_test :: miscdevice where
  "qw_misc_test = \<lparr>misc_minor = MISC_DYNAMIC_MINOR, misc_name = ''IOTest'', misc_ops = qw_fops\<rparr>"

definition misc_321 :: miscdevice where
  "misc_321 = \<lparr>misc_minor = MISC_DYNAMIC_MINOR, misc_name = ''misc_321'', misc_ops = bus_misc_fops\<rparr>"

definition mymap_misc :: miscdevice where
  "mymap_misc = \<lparr>misc_minor = MISC_DYNAMIC_MINOR, misc_name = ''mymap'', misc_ops = mmap_dev_fops\<rparr>"

record bus_type =
  bus_name :: string
  bus_match :: "byte list \<Rightarrow> byte list \<Rightarrow> int"

record device =
  dev_name :: string
  dev_bus :: "bus_type option"
  dev_parent :: "string option"
  dev_release :: "string list"

record device_driver =
  drv_name :: string
  drv_bus :: bus_type
  drv_probe :: "kernel \<Rightarrow> int \<times> kcall list"
  drv_remove :: "int \<times> kcall list"

definition my_bus_type :: bus_type where
  "my_bus_type = \<lparr>bus_name = ''my_bus'', bus_match = my_match\<rparr>"

text \<open>The release functions of the devices are what they print.\<close>

definition my_bus_release :: "string list" where "my_bus_release = [''my bus release'']"

definition my_dev_release :: "string list" where "my_dev_release = []"

definition my_bus :: device where
  "my_bus = \<lparr>dev_name = ''my_bus0'', dev_bus = None, dev_parent = None, dev_release = my_bus_release\<rparr>"

text \<open>The name of \<open>my_dev\<close> is set by its init function.\<close>

definition my_dev :: device where
  "my_dev = \<lparr>dev_name = ''my_dev'', dev_bus = Some my_bus_type, dev_parent = Some (dev_name my_bus),
    dev_release = my_dev_release\<rparr>"

definition my_driver :: device_driver where
  "my_driver = \<lparr>drv_name = ''my_dev'', drv_bus = my_bus_type, drv_probe = my_probe, drv_remove = my_remove\<rparr>"

record platform_driver =
  pd_probe :: "int \<times> kcall list"
  pd_remove :: "int \<times> kcall list"
  pd_owned :: bool
  pd_name :: string

definition platform_my_driver :: platform_driver where
  "platform_my_driver =
    \<lparr>pd_probe = platform_my_probe, pd_remove = platform_my_remove, pd_owned = True, pd_name = ''my_dev''\<rparr>"

definition EXAMPLE_MAJOR :: nat where "EXAMPLE_MAJOR = 60"

datatype kname =
  Major nat | Misc_name string | Class_name string | Debugfs_name string | Sysfs_name string string
| Bus_name string | Disk_name string | Device_name string string | Driver_name string string

text \<open>
  The calls of a module that register a name, the resource that holds it and the name. Numbers of
  \<open>alloc_chrdev_region\<close> are given out by the kernel, so they do not clash.
\<close>

fun named :: "modul \<Rightarrow> (kcall \<times> resource \<times> kname) list" where
  "named M_rw = [(Register_chrdev, R_chrdev, Major EXAMPLE_MAJOR)]"
| "named M_qw = [(Misc_register, R_misc, Misc_name (misc_name qw_misc_test))]"
| "named M_misc = [(Misc_register, R_misc, Misc_name (misc_name misc_test))]"
| "named M_blk = [(Add_disk, R_disk_live, Disk_name ''simp_blkdev'')]"
| "named M_pdev = [(Platform_device_add, R_pdev_live, Device_name ''platform'' ''my_dev'')]"
| "named M_pdrv = [(Platform_driver_register, R_pdriver, Driver_name ''platform'' (pd_name platform_my_driver))]"
| "named M_ksig = [(Debugfs_create_file, R_debugfs, Debugfs_name ''signalconfpid'')]"
| "named M_drv_ksig = [(Debugfs_create_file, R_debugfs, Debugfs_name ''signalconfpid'')]"
| "named M_bus = [(Bus_register, R_bus, Bus_name (bus_name my_bus_type)),
     (Device_register, R_device, Device_name '''' (dev_name my_bus))]"
| "named M_bdev = [(Device_register, R_device, Device_name (bus_name my_bus_type) (dev_name my_dev))]"
| "named M_bdrv = [(Driver_register, R_driver, Driver_name (bus_name my_bus_type) (drv_name my_driver)),
     (Misc_register, R_misc, Misc_name (misc_name misc_321))]"
| "named M_char = [(Class_create, R_class, Class_name ''myCharDevice'')]"
| "named M_sem = [(Class_create, R_class, Class_name ''semaphoreTest_class'')]"
| "named M_mutex = [(Class_create, R_class, Class_name ''mutexTest_class'')]"
| "named M_unuse = [(Class_create, R_class, Class_name ''mutexTest_class'')]"
| "named M_kobj = [(Kobject_init_and_add, R_kobj_live, Sysfs_name '''' ''kobject_test'')]"
| "named M_kset = [(Kset_register 0, R_kset 0, Sysfs_name '''' ''kset_p''),
     (Kset_register 1, R_kset 1, Sysfs_name ''kset_p'' ''kset_c'')]"
| "named M_notifier = []"
| "named M_mmap = [(Misc_register, R_misc, Misc_name (misc_name mymap_misc))]"

text \<open>The names of the source files, without \<open>.c\<close>.\<close>

fun kmod_name :: "modul \<Rightarrow> string" where
  "kmod_name M_rw = ''fileOperate_drv''"
| "kmod_name M_qw = ''queue_wait_dev''"
| "kmod_name M_misc = ''misc_drv''"
| "kmod_name M_blk = ''block_device''"
| "kmod_name M_pdev = ''device''"
| "kmod_name M_pdrv = ''driver''"
| "kmod_name M_ksig = ''kernalSignal''"
| "kmod_name M_drv_ksig = ''kernalSignal_drv''"
| "kmod_name M_bus = ''bus''"
| "kmod_name M_bdev = ''device''"
| "kmod_name M_bdrv = ''driver''"
| "kmod_name M_char = ''char_drv''"
| "kmod_name M_sem = ''semaphore_drv''"
| "kmod_name M_mutex = ''mutex_drv''"
| "kmod_name M_unuse = ''mutex_drv''"
| "kmod_name M_kobj = ''kobject''"
| "kmod_name M_kset = ''kset''"
| "kmod_name M_notifier = ''notifier''"
| "kmod_name M_mmap = ''mmap_drv''"

definition bus_exports :: "string list" where "bus_exports = [''my_bus'', ''my_bus_type'']"
definition bdev_imports :: "string list" where "bdev_imports = [''my_bus'', ''my_bus_type'']"
definition bdrv_imports :: "string list" where "bdrv_imports = [''my_bus_type'']"

definition exports :: "modul \<Rightarrow> string list" where
  "exports m = (if m = M_bus then bus_exports else [])"

definition imports_of :: "modul \<Rightarrow> string list" where
  "imports_of m = (if m = M_bdev then bdev_imports else if m = M_bdrv then bdrv_imports else [])"

fun init_of :: "modul \<Rightarrow> module_init" where
  "init_of M_rw = rw_module_init" | "init_of M_qw = qw_module_init" | "init_of M_misc = misc_module_init"
| "init_of M_blk = blk_module_init" | "init_of M_pdev = pdev_module_init" | "init_of M_pdrv = pdrv_module_init"
| "init_of M_ksig = ksig_module_init" | "init_of M_drv_ksig = drv_ksig_init" | "init_of M_bus = bus_module_init"
| "init_of M_bdev = bdev_module_init" | "init_of M_bdrv = bdrv_module_init" | "init_of M_char = char_module_init"
| "init_of M_sem = sem_module_init" | "init_of M_mutex = mutex_module_init" | "init_of M_unuse = unuse_module_init"
| "init_of M_kobj = kobj_module_init" | "init_of M_kset = kset_module_init"
| "init_of M_notifier = notifier_module_init" | "init_of M_mmap = mmap_module_init"

fun exit_of :: "modul \<Rightarrow> kcall list" where
  "exit_of M_rw = rw_module_exit" | "exit_of M_qw = qw_module_exit" | "exit_of M_misc = misc_module_exit"
| "exit_of M_blk = blk_module_exit" | "exit_of M_pdev = pdev_module_exit" | "exit_of M_pdrv = pdrv_module_exit"
| "exit_of M_ksig = ksig_module_exit" | "exit_of M_drv_ksig = drv_ksig_exit" | "exit_of M_bus = bus_module_exit"
| "exit_of M_bdev = bdev_module_exit" | "exit_of M_bdrv = bdrv_module_exit" | "exit_of M_char = char_module_exit"
| "exit_of M_sem = sem_module_exit" | "exit_of M_mutex = mutex_module_exit" | "exit_of M_unuse = unuse_module_exit"
| "exit_of M_kobj = kobj_module_exit" | "exit_of M_kset = kset_module_exit"
| "exit_of M_notifier = notifier_module_exit" | "exit_of M_mmap = mmap_module_exit"

section \<open>The loader\<close>

datatype command = Insmod modul | Rmmod modul

text \<open>\<open>misused\<close>: some call used or released what the module did not hold.\<close>

record machine =
  loaded :: "modul list"
  holding :: "modul \<Rightarrow> resource multiset"
  misused :: bool

definition machine_start :: machine where
  "machine_start = \<lparr>loaded = [], holding = (\<lambda>_. {#}), misused = False\<rparr>"

definition all_modules :: "modul list" where
  "all_modules = [M_rw, M_qw, M_misc, M_blk, M_pdev, M_pdrv, M_ksig, M_drv_ksig, M_bus, M_bdev, M_bdrv,
    M_char, M_sem, M_mutex, M_unuse, M_kobj, M_kset, M_notifier, M_mmap]"

definition in_use :: "machine \<Rightarrow> kname \<Rightarrow> bool" where
  "in_use s n \<longleftrightarrow> list_ex (\<lambda>m. list_ex (\<lambda>(c, r, n'). n' = n \<and> r \<in># holding s m) (named m)) all_modules"

text \<open>
  The kernel a module meets: that of the outside world, \<open>K\<close>, except that a name in use is refused with
  \<open>-EEXIST\<close>, as a number or as an error pointer.
\<close>

definition refuses :: "machine \<Rightarrow> modul \<Rightarrow> kcall \<Rightarrow> bool" where
  "refuses s m c \<longleftrightarrow> list_ex (\<lambda>(c', r, n). c' = c \<and> in_use s n) (named m)"

definition kernel_for :: "kernel \<Rightarrow> machine \<Rightarrow> modul \<Rightarrow> kernel" where
  "kernel_for K s m c = (if refuses s m c then - 17 else K c)"

text \<open>A sequence of calls of a module, and the probe and remove of the bus driver when it has its device.\<close>

definition run_calls :: "kernel \<Rightarrow> modul \<Rightarrow> kcall list \<Rightarrow> machine \<Rightarrow> machine" where
  "run_calls K m cs s =
    (case ledger K cs (holding s m) of
       None \<Rightarrow> s\<lparr>misused := True\<rparr> | Some h \<Rightarrow> s\<lparr>holding := (holding s)(m := h)\<rparr>)"

definition matched :: "machine \<Rightarrow> bool" where
  "matched s \<longleftrightarrow> M_bdev \<in> set (loaded s) \<and> M_bdrv \<in> set (loaded s) \<and>
    bus_match (drv_bus my_driver) (ascii (dev_name my_dev)) (ascii (drv_name my_driver)) \<noteq> 0"

definition insmod :: "kernel \<Rightarrow> modul \<Rightarrow> machine \<Rightarrow> machine" where
  "insmod K m s =
    (if kmod_name m \<in> kmod_name ` set (loaded s) \<or> \<not> set (imports_of m) \<subseteq> (\<Union>m' \<in> set (loaded s). set (exports m'))
     then s
     else
       let (ret, calls) = init_of m (kernel_for K s m);
           t = run_calls (kernel_for K s m) m calls s
       in if ret \<noteq> 0 then t
          else
            let u = t\<lparr>loaded := m # loaded t\<rparr>; Kp = kernel_for K u M_bdrv
            in if m \<in> {M_bdev, M_bdrv} \<and> matched u then run_calls Kp M_bdrv (snd (drv_probe my_driver Kp)) u else u)"

definition rmmod :: "kernel \<Rightarrow> modul \<Rightarrow> machine \<Rightarrow> machine" where
  "rmmod K m s =
    (if m \<notin> set (loaded s) \<or> (\<exists>m' \<in> set (loaded s). set (imports_of m') \<inter> set (exports m) \<noteq> {})
     then s
     else
       let t = (if m \<in> {M_bdev, M_bdrv} \<and> matched s then run_calls K M_bdrv (snd (drv_remove my_driver)) s else s);
           u = run_calls K m (exit_of m) t
       in u\<lparr>loaded := removeAll m (loaded u)\<rparr>)"

fun execute :: "kernel \<Rightarrow> command \<Rightarrow> machine \<Rightarrow> machine" where
  "execute K (Insmod m) s = insmod K m s"
| "execute K (Rmmod m) s = rmmod K m s"

definition session :: "kernel \<Rightarrow> command list \<Rightarrow> machine" where
  "session K cmds = fold (execute K) cmds machine_start"

section \<open>What a loaded module holds\<close>







section \<open>Names\<close>



lemma all_modules: "m \<in> set all_modules"
  by (cases m) (simp_all add: all_modules_def)







section \<open>The invariant\<close>










section \<open>Loading\<close>








section \<open>Unloading\<close>





section \<open>Properties\<close>



text \<open>A signal module that is loaded second has no file, also when the first is gone.\<close>

lemma second_signal_module_is_deaf:
  "let s = session good_kernel [Insmod M_ksig, Insmod M_drv_ksig, Rmmod M_ksig] in
    loaded s = [M_drv_ksig] \<and> holding s M_ksig = {#} \<and> holding s M_drv_ksig = {#}"
  by code_simp

end
