(* ===== verification/Char_Dev.thy ===== *)
theory Char_Dev
  imports Kernel_Prelude
begin

text \<open>
  The character device \<open>02-creatDevice/char_dev/char_drv.c\<close> with its test program \<open>app.c\<close>, and
  the miscellaneous device \<open>misc_dev/misc_drv.c\<close>. An operation is what it prints and what
  it returns; \<open>_ioctl\<close> ends without a \<open>return\<close> once it has accepted a command, so its result
  is an option. The encoding of command numbers by \<open>_IO\<close>, \<open>_IOW\<close>, \<open>_IOR\<close>, \<open>_IOWR\<close> belongs to
  the kernel headers and is a parameter, the record \<open>ioc\<close>.
\<close>

unbundle bit_operations_syntax

datatype char_msg =
  File_open | File_close | Read_ok | Write_ok
| Cmd_error | Number_error | EXECUTE | WRITE | READ | RW | Default_cmd

record ioc =
  IOC_TYPE :: "32 word \<Rightarrow> 32 word"
  IOC_NR :: "32 word \<Rightarrow> 32 word"
  IO :: "32 word \<Rightarrow> 32 word \<Rightarrow> 32 word"
  IOW :: "32 word \<Rightarrow> 32 word \<Rightarrow> 32 word \<Rightarrow> 32 word"
  IOR :: "32 word \<Rightarrow> 32 word \<Rightarrow> 32 word \<Rightarrow> 32 word"
  IOWR :: "32 word \<Rightarrow> 32 word \<Rightarrow> 32 word \<Rightarrow> 32 word"

definition MAGIC_NUMBER :: "32 word" where "MAGIC_NUMBER = 67"
definition EXECUTE_cmd :: "ioc \<Rightarrow> 32 word" where "EXECUTE_cmd I = IO I MAGIC_NUMBER 1"
definition WRITE_cmd :: "ioc \<Rightarrow> 32 word" where "WRITE_cmd I = IOW I MAGIC_NUMBER 6 4"
definition READ_cmd :: "ioc \<Rightarrow> 32 word" where "READ_cmd I = IOR I MAGIC_NUMBER 2 4"
definition RW_cmd :: "ioc \<Rightarrow> 32 word" where "RW_cmd I = IOWR I MAGIC_NUMBER 7 4"
definition IOCTL_MAXNR :: "32 word" where "IOCTL_MAXNR = 8"

text \<open>Documented: type and number of an encoded command are the ones it was made from.\<close>

definition ioc_spec :: "ioc \<Rightarrow> bool" where
  "ioc_spec I \<longleftrightarrow> (\<forall>n \<le> 8. \<forall>cmd \<in> {IO I 67 n, IOW I 67 n 4, IOR I 67 n 4, IOWR I 67 n 4}.
     IOC_TYPE I cmd = 67 \<and> IOC_NR I cmd = n)"

section \<open>The operations\<close>

definition char_ioctl :: "ioc \<Rightarrow> 32 word \<Rightarrow> char_msg list \<times> int option" where
  "char_ioctl I cmd =
    (if IOC_TYPE I cmd \<noteq> MAGIC_NUMBER then ([Cmd_error], Some (- ENOTTY))
     else if IOC_NR I cmd > IOCTL_MAXNR then ([Number_error], Some (- ENOTTY))
     else if cmd = EXECUTE_cmd I then ([EXECUTE], None)
     else if cmd = WRITE_cmd I then ([WRITE], None)
     else if cmd = READ_cmd I then ([READ], None)
     else if cmd = RW_cmd I then ([RW], None)
     else ([Default_cmd], None))"

definition char_open :: "char_msg list \<times> int" where "char_open = ([File_open], 0)"
definition char_release :: "char_msg list \<times> int" where "char_release = ([File_close], 0)"
definition char_read :: "int \<Rightarrow> char_msg list \<times> int" where "char_read cnt = ([Read_ok], 0)"
definition char_write :: "int \<Rightarrow> char_msg list \<times> int" where "char_write cnt = ([Write_ok], 0)"

text \<open>The program defines the commands again.\<close>

definition app_MAGIC_NUMBER :: "32 word" where "app_MAGIC_NUMBER = 67"
definition app_EXECUTE :: "ioc \<Rightarrow> 32 word" where "app_EXECUTE I = IO I app_MAGIC_NUMBER 1"
definition app_WRITE :: "ioc \<Rightarrow> 32 word" where "app_WRITE I = IOW I app_MAGIC_NUMBER 6 4"
definition app_READ :: "ioc \<Rightarrow> 32 word" where "app_READ I = IOR I app_MAGIC_NUMBER 2 4"
definition app_RW :: "ioc \<Rightarrow> 32 word" where "app_RW I = IOWR I app_MAGIC_NUMBER 7 4"

lemma app_commands:
  "app_EXECUTE I = EXECUTE_cmd I" "app_WRITE I = WRITE_cmd I" "app_READ I = READ_cmd I" "app_RW I = RW_cmd I"
  by (simp_all add: app_EXECUTE_def app_WRITE_def app_READ_def app_RW_def app_MAGIC_NUMBER_def
    EXECUTE_cmd_def WRITE_cmd_def READ_cmd_def RW_cmd_def MAGIC_NUMBER_def)

text \<open>
  The test program, given the descriptor \<open>open\<close> returned: what the driver prints for it, and
  the exit status.
\<close>

definition char_app :: "ioc \<Rightarrow> int \<Rightarrow> char_msg list \<times> int" where
  "char_app I fd =
    (if fd < 0 then ([], - 1)
     else (fst char_open @ fst (char_write 1) @ fst (char_read 1) @
       fst (char_ioctl I (app_EXECUTE I)) @ fst (char_ioctl I (app_WRITE I)) @
       fst (char_ioctl I (app_READ I)) @ fst (char_ioctl I (app_RW I)) @ fst char_release, 0))"

text \<open>The operations of the miscellaneous device only print; a write takes everything.\<close>

definition misc_open :: int where "misc_open = 0"
definition misc_release :: int where "misc_release = 0"
definition misc_ioctl :: "32 word \<Rightarrow> int" where "misc_ioctl cmd = 0"
definition misc_read :: "int \<Rightarrow> int" where "misc_read count = 0"
definition misc_write :: "int \<Rightarrow> int" where "misc_write size' = s64 size'"

section \<open>The encoding of the generic kernel headers\<close>

definition linux_ioc_code :: "32 word \<Rightarrow> 32 word \<Rightarrow> 32 word \<Rightarrow> 32 word \<Rightarrow> 32 word" where
  "linux_ioc_code dir t n sz = push_bit 30 dir OR push_bit 8 t OR n OR push_bit 16 sz"

definition linux_ioc :: ioc where
  "linux_ioc = \<lparr>IOC_TYPE = (\<lambda>c. drop_bit 8 c AND 255), IOC_NR = (\<lambda>c. c AND 255),
     IO = (\<lambda>t n. linux_ioc_code 0 t n 0), IOW = linux_ioc_code 1, IOR = linux_ioc_code 2,
     IOWR = linux_ioc_code 3\<rparr>"

lemma word_le_8_cases:
  fixes n :: "32 word"
  assumes "n \<le> 8"
  shows "n \<in> {0, 1, 2, 3, 4, 5, 6, 7, 8}"
proof -
  have "unat n \<le> 8" using assms by (simp add: word_le_nat_alt)
  then have "unat n \<in> {0, 1, 2, 3, 4, 5, 6, 7, 8}" by auto
  then have "(word_of_nat (unat n) :: 32 word) \<in> word_of_nat ` {0, 1, 2, 3, 4, 5, 6, 7, 8}"
    by (rule imageI)
  then show ?thesis by simp
qed

lemma linux_ioc_spec: "ioc_spec linux_ioc"
  unfolding ioc_spec_def
proof (intro allI impI)
  fix n :: "32 word"
  assume "n \<le> 8"
  then have "n \<in> {0, 1, 2, 3, 4, 5, 6, 7, 8}" by (rule word_le_8_cases)
  then show "\<forall>cmd \<in> {IO linux_ioc 67 n, IOW linux_ioc 67 n 4, IOR linux_ioc 67 n 4, IOWR linux_ioc 67 n 4}.
      IOC_TYPE linux_ioc cmd = 67 \<and> IOC_NR linux_ioc cmd = n"
    by (elim insertE) (simp_all add: linux_ioc_def linux_ioc_code_def)
qed

section \<open>The commands\<close>

named_theorems ioctl_simps "commands and their decoding"

lemmas cmd_defs [ioctl_simps] = EXECUTE_cmd_def WRITE_cmd_def READ_cmd_def RW_cmd_def
  MAGIC_NUMBER_def IOCTL_MAXNR_def

lemma ioc_decode [ioctl_simps]:
  assumes "ioc_spec I" and "n \<le> 8"
  shows "IOC_TYPE I (IO I 67 n) = 67" "IOC_NR I (IO I 67 n) = n"
    and "IOC_TYPE I (IOW I 67 n 4) = 67" "IOC_NR I (IOW I 67 n 4) = n"
    and "IOC_TYPE I (IOR I 67 n 4) = 67" "IOC_NR I (IOR I 67 n 4) = n"
    and "IOC_TYPE I (IOWR I 67 n 4) = 67" "IOC_NR I (IOWR I 67 n 4) = n"
  using assms unfolding ioc_spec_def by blast+

lemma cmd_header:
  assumes "ioc_spec I"
  shows "IOC_TYPE I (EXECUTE_cmd I) = 67" "IOC_NR I (EXECUTE_cmd I) = 1"
    and "IOC_TYPE I (WRITE_cmd I) = 67" "IOC_NR I (WRITE_cmd I) = 6"
    and "IOC_TYPE I (READ_cmd I) = 67" "IOC_NR I (READ_cmd I) = 2"
    and "IOC_TYPE I (RW_cmd I) = 67" "IOC_NR I (RW_cmd I) = 7"
  using assms by (simp_all add: ioctl_simps word_le_nat_alt)

text \<open>Commands with different numbers differ, so every case of the switch is reached.\<close>

lemma cmds_differ: "IOC_NR I c \<noteq> IOC_NR I d \<Longrightarrow> c \<noteq> d"
  by blast

lemma own_commands:
  assumes "ioc_spec I"
  shows "char_ioctl I (EXECUTE_cmd I) = ([EXECUTE], None)"
    and "char_ioctl I (WRITE_cmd I) = ([WRITE], None)"
    and "char_ioctl I (READ_cmd I) = ([READ], None)"
    and "char_ioctl I (RW_cmd I) = ([RW], None)"
proof -
  note h = cmd_header [OF assms]
  have "WRITE_cmd I \<noteq> EXECUTE_cmd I \<and> READ_cmd I \<noteq> EXECUTE_cmd I \<and> READ_cmd I \<noteq> WRITE_cmd I \<and>
      RW_cmd I \<noteq> EXECUTE_cmd I \<and> RW_cmd I \<noteq> WRITE_cmd I \<and> RW_cmd I \<noteq> READ_cmd I"
    by (intro conjI; rule cmds_differ [of I]; simp add: h)
  then show "char_ioctl I (EXECUTE_cmd I) = ([EXECUTE], None)"
    and "char_ioctl I (WRITE_cmd I) = ([WRITE], None)"
    and "char_ioctl I (READ_cmd I) = ([READ], None)"
    and "char_ioctl I (RW_cmd I) = ([RW], None)"
    by (simp_all add: char_ioctl_def h MAGIC_NUMBER_def IOCTL_MAXNR_def word_less_nat_alt)
qed

lemma ioctl_rejects:
  "IOC_TYPE I cmd \<noteq> MAGIC_NUMBER \<Longrightarrow> char_ioctl I cmd = ([Cmd_error], Some (- ENOTTY))"
  "IOC_TYPE I cmd = MAGIC_NUMBER \<Longrightarrow> 8 < IOC_NR I cmd \<Longrightarrow>
    char_ioctl I cmd = ([Number_error], Some (- ENOTTY))"
  "snd (char_ioctl I cmd) = None \<longleftrightarrow> IOC_TYPE I cmd = MAGIC_NUMBER \<and> \<not> 8 < IOC_NR I cmd"
  by (simp_all add: char_ioctl_def IOCTL_MAXNR_def)

section \<open>Properties\<close>

text \<open>
  C34. The driver knows its own commands and only those: commands of another type or with a
  number above the maximum get \<open>-ENOTTY\<close>; each of its four commands is printed as itself and
  any other as the default; and whenever a command is accepted, the function ends without a value.
\<close>

theorem char_ioctl_commands:
  assumes "ioc_spec I"
  shows "(IOC_TYPE I cmd \<noteq> MAGIC_NUMBER \<longrightarrow> char_ioctl I cmd = ([Cmd_error], Some (- ENOTTY))) \<and>
    (IOC_TYPE I cmd = MAGIC_NUMBER \<and> 8 < IOC_NR I cmd \<longrightarrow>
      char_ioctl I cmd = ([Number_error], Some (- ENOTTY))) \<and>
    map (char_ioctl I) [EXECUTE_cmd I, WRITE_cmd I, READ_cmd I, RW_cmd I] =
      [([EXECUTE], None), ([WRITE], None), ([READ], None), ([RW], None)] \<and>
    (snd (char_ioctl I cmd) = None \<longleftrightarrow> IOC_TYPE I cmd = MAGIC_NUMBER \<and> IOC_NR I cmd \<le> 8)"
  using own_commands [OF assms] ioctl_rejects [of I cmd] by (simp add: not_less)

theorem char_ioctl_commands_witness:
  "snd (char_ioctl linux_ioc (WRITE_cmd linux_ioc)) = None \<and>
    char_ioctl linux_ioc 0 = ([Cmd_error], Some (- ENOTTY))"
  using char_ioctl_commands [OF linux_ioc_spec, of 0]
  by (simp add: linux_ioc_def MAGIC_NUMBER_def)

text \<open>
  The test program drives every operation once: when its open succeeds, the driver prints
  the eight messages in the order of the calls.
\<close>

lemma char_app_session:
  assumes "ioc_spec I" and "0 \<le> fd"
  shows "char_app I fd = ([File_open, Write_ok, Read_ok, EXECUTE, WRITE, READ, RW, File_close], 0)"
  using own_commands [OF assms(1)] assms(2)
  by (simp add: char_app_def app_commands char_open_def char_release_def char_read_def char_write_def)

end
