(* ===== verification/Mapped_Page.thy ===== *)
theory Mapped_Page
  imports Kernel_Prelude
begin

text \<open>
  The mapped page of \<open>11-mmap\<close>: the driver \<open>mmap_drv.c\<close> allocates a page, fills its first ten
  bytes, and maps it into every process that calls \<open>mmap\<close>; the program \<open>mmap_app.c\<close> prints the
  bytes through the mapping and overwrites them. The kernel and all processes reach the same
  physical memory under different addresses, so the model has physical memory as one byte
  array and an address space per process.

  \<open>virt_to_phys\<close>, \<open>remap_pfn_range\<close> and the translation of user addresses are the kernel's and
  the hardware's: the record \<open>vm_ops\<close>, with \<open>vm_spec\<close> for what is documented.
\<close>

section \<open>Address translation as a parameter\<close>

record 'a vm_ops =
  virt_to_phys :: "nat \<Rightarrow> nat"
  remap_pfn_range :: "nat \<Rightarrow> nat \<Rightarrow> nat \<Rightarrow> 'a \<Rightarrow> int \<times> 'a"
  translate :: "'a \<Rightarrow> nat \<Rightarrow> nat option"

definition PAGE_SIZE :: nat where
  "PAGE_SIZE = 4096"

definition PAGE_SHIFT :: nat where
  "PAGE_SHIFT = 12"

text \<open>A successful \<open>remap_pfn_range\<close> maps the range to consecutive pages from \<open>pfn\<close> on, and only it.\<close>

definition vm_spec :: "'a vm_ops \<Rightarrow> bool" where
  "vm_spec V \<longleftrightarrow> (\<forall>start pfn len A A'. remap_pfn_range V start pfn len A = (0, A') \<longrightarrow>
     (\<forall>a. translate V A' a =
       (if start \<le> a \<and> a < start + len then Some (4096 * pfn + (a - start)) else translate V A a)))"

section \<open>The driver\<close>

record mm_sys =
  buffer :: nat
  phys :: kmem

text \<open>
  \<open>dev_init\<close>, given the result of \<open>misc_register\<close> and the pointer \<open>kmalloc\<close> returned, which
  is not checked: writing through a null pointer is a fault. The loop variable is taken as
  the \<open>int\<close> it is meant to be; the source does not declare it.
\<close>

definition mmap_dev_init :: "'a vm_ops \<Rightarrow> int \<Rightarrow> nat \<Rightarrow> kmem \<Rightarrow> fault + int \<times> mm_sys" where
  "mmap_dev_init V ret ptr m =
    (if ptr = 0 then Inl Null_deref
     else Inr (ret, \<lparr>buffer = ptr, phys = store m (virt_to_phys V ptr) (map of_nat [0..<10])\<rparr>))"

definition my_open :: "mm_sys \<Rightarrow> mm_sys \<times> int" where
  "my_open s = (s, 0)"

text \<open>The mapping has the length the caller asked for.\<close>

definition my_map :: "'a vm_ops \<Rightarrow> nat \<Rightarrow> nat \<Rightarrow> mm_sys \<Rightarrow> 'a \<Rightarrow> int \<times> 'a" where
  "my_map V vm_start vm_end s A =
    (let len = vm_end - vm_start;
         page = virt_to_phys V (buffer s);
         (r, A') = remap_pfn_range V vm_start (drop_bit PAGE_SHIFT page) len A
     in if r \<noteq> 0 then (-1, A') else (0, A'))"

section \<open>A process\<close>

text \<open>An access to an address without a translation is a segmentation fault.\<close>

definition user_load :: "'a vm_ops \<Rightarrow> 'a \<Rightarrow> kmem \<Rightarrow> nat \<Rightarrow> fault + byte" where
  "user_load V A m a = (case translate V A a of None \<Rightarrow> Inl Oob_read | Some p \<Rightarrow> Inr (m p))"

definition user_store :: "'a vm_ops \<Rightarrow> 'a \<Rightarrow> kmem \<Rightarrow> nat \<Rightarrow> byte \<Rightarrow> fault + kmem" where
  "user_store V A m a b = (case translate V A a of None \<Rightarrow> Inl Oob_write | Some p \<Rightarrow> Inr (m(p := b)))"

text \<open>\<open>for (i = 0; i < n; i++) { printf(p_map[i]); p_map[i] = 66; }\<close> from \<open>p\<close> on.\<close>

fun print_and_set :: "'a vm_ops \<Rightarrow> 'a \<Rightarrow> nat \<Rightarrow> nat \<Rightarrow> kmem \<Rightarrow> fault + kmem \<times> byte list" where
  "print_and_set V A p 0 m = Inr (m, [])"
| "print_and_set V A p (Suc n) m =
    (case user_load V A m p of
       Inl e \<Rightarrow> Inl e
     | Inr b \<Rightarrow>
         (case user_store V A m p 66 of
            Inl e \<Rightarrow> Inl e
          | Inr m' \<Rightarrow>
              (case print_and_set V A (Suc p) n m' of
                 Inl e \<Rightarrow> Inl e | Inr (m'', bs) \<Rightarrow> Inr (m'', b # bs))))"

fun print_bytes :: "'a vm_ops \<Rightarrow> 'a \<Rightarrow> nat \<Rightarrow> nat \<Rightarrow> kmem \<Rightarrow> fault + byte list" where
  "print_bytes V A p 0 m = Inr []"
| "print_bytes V A p (Suc n) m =
    (case user_load V A m p of
       Inl e \<Rightarrow> Inl e
     | Inr b \<Rightarrow> (case print_bytes V A (Suc p) n m of Inl e \<Rightarrow> Inl e | Inr bs \<Rightarrow> Inr (b # bs)))"

datatype mmap_outcome = Open_fail | Mmap_fail | Printed_bytes "byte list"

text \<open>
  \<open>main\<close>, given the descriptor \<open>open\<close> returned and the address \<open>start\<close> the kernel chose for
  the mapping of one page.
\<close>

definition mmap_app_main :: "'a vm_ops \<Rightarrow> int \<Rightarrow> nat \<Rightarrow> mm_sys \<Rightarrow> 'a \<Rightarrow> fault + mm_sys \<times> mmap_outcome" where
  "mmap_app_main V fd start s A =
    (if fd < 0 then Inr (s, Open_fail)
     else
       let (r, A') = my_map V start (start + PAGE_SIZE) s A in
       if r < 0 then Inr (s, Mmap_fail)
       else case print_and_set V A' start 10 (phys s) of
              Inl e \<Rightarrow> Inl e
            | Inr (m, bs) \<Rightarrow>
                (case print_bytes V A' start 10 m of
                   Inl e \<Rightarrow> Inl e | Inr cs \<Rightarrow> Inr (s\<lparr>phys := m\<rparr>, Printed_bytes (bs @ cs))))"

section \<open>Access through the mapping\<close>

text \<open>\<open>A\<close> maps \<open>n\<close> bytes from the user address \<open>a\<close> on to the physical address \<open>p\<close>.\<close>

definition maps_range :: "'a vm_ops \<Rightarrow> 'a \<Rightarrow> nat \<Rightarrow> nat \<Rightarrow> nat \<Rightarrow> bool" where
  "maps_range V A a p n \<longleftrightarrow> (\<forall>k < n. translate V A (a + k) = Some (p + k))"

lemma maps_range_Suc:
  "maps_range V A a p (Suc n) \<longleftrightarrow> translate V A a = Some p \<and> maps_range V A (Suc a) (Suc p) n"
  by (auto simp: maps_range_def less_Suc_eq_0_disj)

lemma maps_range_mono: "maps_range V A a p n \<Longrightarrow> k \<le> n \<Longrightarrow> maps_range V A a p k"
  by (simp add: maps_range_def)

lemma load_Suc: "load m p (Suc n) = m p # load m (Suc p) n"
  by (simp add: load_def upt_conv_Cons del: upt_Suc)

lemma print_bytes_mapped: "maps_range V A a p n \<Longrightarrow> print_bytes V A a n m = Inr (load m p n)"
  by (induction n arbitrary: a p) (auto simp: maps_range_Suc user_load_def load_Suc)

lemma print_and_set_mapped:
  "maps_range V A a p n \<Longrightarrow>
    print_and_set V A a n m = Inr (store m p (replicate n 66), load m p n)"
proof (induction n arbitrary: a p m)
  case 0
  then show ?case by simp
next
  case (Suc n)
  have "load (m(p := 66)) (Suc p) n = load m (Suc p) n" by (rule load_cong) auto
  moreover have "m(p := 66) = store m p [66]" by (auto simp: store_def)
  ultimately show ?case
    using Suc store_Cons [of m p 66 "replicate n 66"]
    by (auto simp: maps_range_Suc user_load_def user_store_def load_Suc)
qed

text \<open>A successful \<open>my_map\<close> maps the whole length to physical memory from the page on.\<close>

lemma my_map_maps:
  assumes "vm_spec V" and "4096 dvd virt_to_phys V (buffer s)"
    and "my_map V start (start + len) s A = (0, A')"
  shows "maps_range V A' start (virt_to_phys V (buffer s)) len"
proof -
  have "remap_pfn_range V start (drop_bit PAGE_SHIFT (virt_to_phys V (buffer s))) len A = (0, A')"
    using assms(3) by (auto simp: my_map_def Let_def split: prod.splits if_splits)
  moreover have "4096 * drop_bit PAGE_SHIFT (virt_to_phys V (buffer s)) = virt_to_phys V (buffer s)"
    using assms(2) by (simp add: drop_bit_eq_div PAGE_SHIFT_def)
  ultimately have "translate V A' a = Some (virt_to_phys V (buffer s) + (a - start))"
    if "start \<le> a" "a < start + len" for a
    using assms(1) that unfolding vm_spec_def by metis
  then show ?thesis by (simp add: maps_range_def)
qed

lemma mmap_app_main_mapped:
  assumes "vm_spec V" and "4096 dvd virt_to_phys V (buffer s)" and "0 \<le> fd"
    and "fst (my_map V start (start + PAGE_SIZE) s A) = 0"
  defines "p \<equiv> virt_to_phys V (buffer s)"
  shows "mmap_app_main V fd start s A =
    Inr (s\<lparr>phys := store (phys s) p (replicate 10 66)\<rparr>,
      Printed_bytes (load (phys s) p 10 @ replicate 10 66))"
proof -
  obtain A' where A': "my_map V start (start + PAGE_SIZE) s A = (0, A')"
    using assms(4) by (cases "my_map V start (start + PAGE_SIZE) s A") simp
  have "maps_range V A' start p PAGE_SIZE"
    unfolding p_def by (rule my_map_maps [OF assms(1,2) A'])
  then have r: "maps_range V A' start p 10"
    by (rule maps_range_mono) (simp add: PAGE_SIZE_def)
  have "load (store (phys s) p (replicate 10 66)) p 10 = replicate 10 66"
    using load_store_same [of "phys s" p "replicate 10 66"] by simp
  then show ?thesis
    using A' assms(3) print_and_set_mapped [OF r] print_bytes_mapped [OF r]
    by (simp add: mmap_app_main_def)
qed

section \<open>A memory management that meets its contract\<close>

definition flat_vm :: "(nat \<Rightarrow> nat option) vm_ops" where
  "flat_vm =
    \<lparr>virt_to_phys = (\<lambda>v. v - 65536),
     remap_pfn_range = (\<lambda>start pfn len A.
       (0, \<lambda>a. if start \<le> a \<and> a < start + len then Some (4096 * pfn + (a - start)) else A a)),
     translate = id\<rparr>"

lemma flat_vm_spec: "vm_spec flat_vm"
  by (auto simp: vm_spec_def flat_vm_def)

section \<open>Properties\<close>

text \<open>
  C19. The page is shared: after the module has loaded, the first process that runs the program
  prints 0 to 9 and then ten times 66, and any later process, whatever its address space and
  wherever the mapping lies in it, prints twenty times 66; the kernel's buffer holds the ten 66
  at its start and no other byte of physical memory has changed since the load.
\<close>

theorem mmap_page_is_shared:
  assumes "vm_spec V" and "4096 dvd virt_to_phys V ptr" and "ptr \<noteq> 0" and "0 \<le> fd" and "0 \<le> fd'"
    and "mmap_dev_init V ret ptr m = Inr (ret, s)"
    and "fst (my_map V start (start + PAGE_SIZE) s A) = 0"
    and "fst (my_map V start' (start' + PAGE_SIZE) s A') = 0"
  shows "\<exists>t. mmap_app_main V fd start s A = Inr (t, Printed_bytes (map of_nat [0..<10] @ replicate 10 66)) \<and>
    mmap_app_main V fd' start' t A' = Inr (t, Printed_bytes (replicate 20 66)) \<and>
    phys t = store m (virt_to_phys V ptr) (replicate 10 66)"
proof -
  let ?p = "virt_to_phys V ptr"
  have s: "s = \<lparr>buffer = ptr, phys = store m ?p (map of_nat [0..<10])\<rparr>"
    using assms(3,6) by (simp add: mmap_dev_init_def)
  let ?t = "s\<lparr>phys := store (phys s) ?p (replicate 10 66)\<rparr>"
  have l: "load (store m ?p (map of_nat [0..<10])) ?p 10 = map of_nat [0..<10]"
    using load_store_same [of m ?p "map of_nat [0..<10]"] by simp
  have first: "mmap_app_main V fd start s A = Inr (?t, Printed_bytes (map of_nat [0..<10] @ replicate 10 66))"
    using mmap_app_main_mapped [OF assms(1) _ assms(4,7)] assms(2) l by (simp add: s)
  have "fst (my_map V start' (start' + PAGE_SIZE) ?t A') = 0"
    using assms(8) by (simp add: my_map_def)
  then have second: "mmap_app_main V fd' start' ?t A' =
      Inr (?t\<lparr>phys := store (phys ?t) ?p (replicate 10 66)\<rparr>,
        Printed_bytes (load (phys ?t) ?p 10 @ replicate 10 66))"
    using mmap_app_main_mapped [OF assms(1) _ assms(5), of ?t start' A'] assms(2) by (simp add: s)
  have "store (phys ?t) ?p (replicate 10 66) = phys ?t" "phys ?t = store m ?p (replicate 10 66)"
    by (simp_all add: s store_store_same)
  moreover have "load (phys ?t) ?p 10 = replicate 10 66"
    using load_store_same [of "phys s" ?p "replicate 10 66"] by simp
  moreover have "replicate 10 66 @ replicate 10 66 = replicate 20 (66 :: byte)"
    by (simp flip: replicate_add)
  ultimately show ?thesis
    using first second by (intro exI [of _ ?t]) simp
qed

theorem mmap_page_is_shared_witness:
  "\<exists>s t. mmap_dev_init flat_vm 0 69632 (\<lambda>_. 1) = Inr (0, s) \<and>
    mmap_app_main flat_vm 3 0 s (\<lambda>_. None) = Inr (t, Printed_bytes (map of_nat [0..<10] @ replicate 10 66)) \<and>
    mmap_app_main flat_vm 4 8192 t (\<lambda>_. None) = Inr (t, Printed_bytes (replicate 20 66))"
proof -
  obtain s where s: "mmap_dev_init flat_vm 0 69632 (\<lambda>_. 1) = Inr (0, s)"
    by (simp add: mmap_dev_init_def)
  have z: "fst (my_map flat_vm start (start + PAGE_SIZE) s A) = 0" for start A
    by (simp add: my_map_def flat_vm_def)
  have "4096 dvd virt_to_phys flat_vm 69632" by (simp add: flat_vm_def)
  from mmap_page_is_shared [OF flat_vm_spec this _ _ _ s z z, of 3 4 0 "\<lambda>_. None" 8192 "\<lambda>_. None"] s
  show ?thesis by auto
qed

text \<open>
  The length of a mapping is not checked: a process that asks for more than a page gets, behind
  the page, whatever physical memory follows it, to read and to write.
\<close>

lemma mmap_exposes_memory_behind_page:
  assumes "vm_spec V" and "4096 dvd virt_to_phys V (buffer s)" and "k < len"
    and "my_map V start (start + len) s A = (0, A')"
  shows "user_load V A' (phys s) (start + k) = Inr (phys s (virt_to_phys V (buffer s) + k)) \<and>
    user_store V A' (phys s) (start + k) b = Inr ((phys s)(virt_to_phys V (buffer s) + k := b))"
  using my_map_maps [OF assms(1,2,4)] assms(3)
  by (simp add: maps_range_def user_load_def user_store_def)

end
