(* ===== verification/Kernel_Signal.thy ===== *)
theory Kernel_Signal
  imports Kernel_Prelude
begin

text \<open>
  The signal module \<open>10-sigaction/kernalSignal.c\<close> (the same file as
  \<open>03-fileOperate/fileOperate/nonblock_ asynchronous/kernalSignal_drv.c\<close>) and its program
  \<open>app.c\<close>: a process writes its pid as text into a debugfs file, and the driver parses it and
  sends signal 35 with the value 12345 to that process.

  The library's decimal printing and scanning are modelled on byte lists. Looking up a task
  and sending a signal are the kernel's and are parameters, the record \<open>task_ops\<close>. The part
  of \<open>mybuf\<close> that the caller does not fill is whatever the stack holds, another parameter.
\<close>

section \<open>Decimal text\<close>

definition is_digit :: "byte \<Rightarrow> bool" where
  "is_digit b \<longleftrightarrow> 48 \<le> unat b \<and> unat b \<le> 57"

definition is_space :: "byte \<Rightarrow> bool" where
  "is_space b \<longleftrightarrow> unat b = 32 \<or> (9 \<le> unat b \<and> unat b \<le> 13)"

text \<open>\<open>sprintf(buf, "%d", n)\<close> for a number that is not negative.\<close>

fun print_nat :: "nat \<Rightarrow> byte list" where
  "print_nat n = (if n < 10 then [of_nat (48 + n)] else print_nat (n div 10) @ [of_nat (48 + n mod 10)])"

declare print_nat.simps [simp del]

text \<open>
  \<open>sscanf(s, "%d", &x)\<close> of the kernel: blanks, an optional minus, digits. The value is that of
  the digits, narrowed to an \<open>int\<close>; without a digit nothing is stored.
\<close>

definition digits_value :: "nat \<Rightarrow> byte list \<Rightarrow> nat" where
  "digits_value acc bs = foldl (\<lambda>v b. 10 * v + (unat b - 48)) acc bs"

definition scan_int :: "byte list \<Rightarrow> int option" where
  "scan_int s =
    (let s1 = dropWhile is_space s; neg = (s1 \<noteq> [] \<and> hd s1 = 45);
         ds = takeWhile is_digit (if neg then tl s1 else s1)
     in if ds = [] then None
        else Some (s32 (if neg then - int (digits_value 0 ds) else int (digits_value 0 ds))))"

lemma digit_byte: "k < 10 \<Longrightarrow> unat (of_nat (48 + k) :: byte) = 48 + k"
  by (simp add: unat_of_nat del: of_nat_add)

lemma print_nat_digits: "\<forall>b \<in> set (print_nat n). is_digit b"
proof (induction n rule: print_nat.induct)
  case (1 n)
  have "is_digit (of_nat (48 + n))" if "n < 10"
    using that digit_byte by (simp add: is_digit_def)
  moreover have "is_digit (of_nat (48 + n mod 10))"
    using digit_byte [of "n mod 10"] by (simp add: is_digit_def)
  ultimately show ?case using 1 by (subst print_nat.simps) auto
qed

lemma print_nat_not_Nil: "print_nat n \<noteq> []"
  by (subst print_nat.simps) simp

lemma digits_value_print: "digits_value 0 (print_nat n) = n"
proof (induction n rule: print_nat.induct)
  case (1 n)
  show ?case
  proof (cases "n < 10")
    case True
    then show ?thesis
      using digit_byte [of n] by (subst print_nat.simps) (simp add: digits_value_def)
  next
    case False
    then show ?thesis
      using 1 digit_byte [of "n mod 10"] by (subst print_nat.simps) (simp add: digits_value_def)
  qed
qed

lemma length_print_nat: "n < 10 ^ k \<Longrightarrow> 0 < k \<Longrightarrow> length (print_nat n) \<le> k"
proof (induction k arbitrary: n)
  case 0
  then show ?case by simp
next
  case (Suc k)
  show ?case
  proof (cases "n < 10")
    case True
    then show ?thesis by (subst print_nat.simps) simp
  next
    case False
    with Suc.prems have "0 < k" by (cases k) auto
    moreover have "n div 10 < 10 ^ k" using Suc.prems by (simp add: less_mult_imp_div_less mult.commute)
    ultimately show ?thesis using Suc.IH [of "n div 10"] False by (subst print_nat.simps) simp
  qed
qed

lemma digit_not_zero: "is_digit b \<Longrightarrow> b \<noteq> 0"
  by (auto simp: is_digit_def)

lemma digit_not_blank: "is_digit b \<Longrightarrow> \<not> is_space b \<and> b \<noteq> 45"
  by (auto simp: is_digit_def is_space_def)

text \<open>Scanning what was printed gives the number back.\<close>

lemma scan_print:
  assumes "n < 2147483648"
  shows "scan_int (print_nat n) = Some (int n)"
proof -
  obtain b bs where p: "print_nat n = b # bs" using print_nat_not_Nil [of n] by (cases "print_nat n") auto
  have b: "is_digit b" and "\<forall>x \<in> set bs. is_digit x"
    using print_nat_digits [of n] p by simp_all
  then have all: "takeWhile is_digit bs = bs" by (simp add: takeWhile_eq_all_conv)
  have "s32 (int (digits_value 0 (b # bs))) = int n"
    using digits_value_print [of n] p assms by (simp add: wrap_simps)
  then show ?thesis
    using b digit_not_blank [OF b] by (simp add: scan_int_def Let_def p all)
qed

section \<open>The driver\<close>

record siginfo =
  si_signo :: int
  si_code :: int
  si_int :: int

record 't task_ops =
  pid_task :: "int \<Rightarrow> 't option"
  send_sig_info :: "int \<Rightarrow> siginfo \<Rightarrow> 't \<Rightarrow> int"

definition SIG_TEST :: int where "SIG_TEST = 35"
definition SI_QUEUE :: int where "SI_QUEUE = - 1"

text \<open>
  What \<open>write_pid\<close> leaves behind: its result, and the signal it asked the kernel to send. The
  copy into \<open>mybuf\<close> is not checked; printing and scanning read the buffer as a string, which
  goes past its ten bytes when none of them is 0.
\<close>

definition write_pid :: "'t task_ops \<Rightarrow> uaccess \<Rightarrow> kmem \<Rightarrow> int \<Rightarrow> int \<Rightarrow>
    fault + int \<times> (int \<times> siginfo \<times> 't) option" where
  "write_pid K U stack buf count =
    (if count > 10 then Inr (- EINVAL, None)
     else
       let mybuf = store stack 0 (fst (copy_from_user U buf (nat count)))
       in case c_string 10 mybuf 0 of
            Inl e \<Rightarrow> Inl e
          | Inr s \<Rightarrow>
              let pid = (case scan_int s of None \<Rightarrow> 0 | Some v \<Rightarrow> v);
                  info = \<lparr>si_signo = SIG_TEST, si_code = SI_QUEUE, si_int = 12345\<rparr>
              in case pid_task K pid of
                   None \<Rightarrow> Inr (- ENODEV, None)
                 | Some t \<Rightarrow>
                     let ret = send_sig_info K SIG_TEST info t
                     in if ret < 0 then Inr (ret, Some (SIG_TEST, info, t))
                        else Inr (count, Some (SIG_TEST, info, t)))"

section \<open>The program\<close>

text \<open>
  \<open>main\<close> from the opened file on: the bytes \<open>sprintf\<close> puts into \<open>buf[10]\<close> with their
  terminator, which must fit, and the count given to \<open>write\<close>. The signal handler prints the
  number and the value it was sent.
\<close>

definition sig_app_buf :: "nat \<Rightarrow> fault + byte list" where
  "sig_app_buf pid =
    (if length (print_nat pid) + 1 \<le> 10 then Inr (print_nat pid @ [0]) else Inl Oob_write)"

definition receiveData :: "int \<Rightarrow> siginfo \<Rightarrow> int \<times> int" where
  "receiveData n info = (n, si_int info)"

definition sig_app_main :: "int \<Rightarrow> (int \<Rightarrow> int) \<Rightarrow> nat \<Rightarrow> fault + int" where
  "sig_app_main configfd write pid =
    (if configfd < 0 then Inr (- 1)
     else case sig_app_buf pid of
            Inl e \<Rightarrow> Inl e
          | Inr bs \<Rightarrow> if write (int (length bs)) < 0 then Inr (- 1) else Inr 0)"

text \<open>A string that ends inside the buffer is what the driver scans.\<close>

lemma write_pid_string:
  assumes "uaccess_ok U" and "user_readable U buf (bs @ [0])" and "0 \<notin> set bs" and "length bs < 10"
  shows "c_string 10 (store stack 0 (fst (copy_from_user U buf (length bs + 1)))) 0 = Inr bs"
proof -
  have c: "fst (copy_from_user U buf (length bs + 1)) = bs @ [0]"
    using user_readable_all [OF assms(2)] by simp
  have l: "load (store stack 0 (bs @ [0])) 0 (length bs) = bs"
    using load_store_within [of 0 "length bs" "bs @ [0]" stack 0] by simp
  have "store stack 0 (bs @ [0]) (0 + length bs) = 0"
    by (subst store_nth) simp_all
  then show ?thesis
    unfolding c using c_string_prefix [OF l assms(3) _ assms(4)] by simp
qed

section \<open>Properties\<close>

text \<open>
  C27. A process that registers gets its signal: for every pid of at most nine digits the program's
  buffer holds the text, the driver parses it back to the same pid whatever was on its
  stack, sends signal 35 with the value 12345 to that task, and the write reports its whole
  length, so that the program exits with 0 and its handler prints 35 and 12345.
\<close>

theorem ksig_app_is_signalled:
  assumes "uaccess_ok U" and "pid < 1000000000" and "pid_task K (int pid) = Some t"
    and "\<forall>info. 0 \<le> send_sig_info K 35 info t"
    and "user_readable U buf (print_nat pid @ [0])" and "0 \<le> fd"
  shows "\<exists>info. sig_app_buf pid = Inr (print_nat pid @ [0]) \<and>
    write_pid K U stack buf (int (length (print_nat pid @ [0]))) =
      Inr (int (length (print_nat pid @ [0])), Some (35, info, t)) \<and>
    receiveData 35 info = (35, 12345) \<and>
    sig_app_main fd (\<lambda>n. case write_pid K U stack buf n of Inl _ \<Rightarrow> - 1 | Inr (ret, _) \<Rightarrow> ret) pid = Inr 0"
proof -
  have len: "length (print_nat pid) \<le> 9"
    using length_print_nat [of pid 9] assms(2) by simp
  have nz: "0 \<notin> set (print_nat pid)" using print_nat_digits digit_not_zero by blast
  have s: "c_string 10 (store stack 0 (fst (copy_from_user U buf (length (print_nat pid) + 1)))) 0 =
      Inr (print_nat pid)"
    using write_pid_string [OF assms(1,5) nz] len by simp
  have buf: "sig_app_buf pid = Inr (print_nat pid @ [0])" using len by (simp add: sig_app_buf_def)
  let ?info = "\<lparr>si_signo = 35, si_code = - 1, si_int = 12345\<rparr>"
  have n: "nat (1 + int (length (print_nat pid))) = length (print_nat pid) + 1" by simp
  have w: "write_pid K U stack buf (int (length (print_nat pid @ [0]))) =
      Inr (int (length (print_nat pid @ [0])), Some (35, ?info, t))"
    using len s scan_print [of pid] assms(2,3,4)
    by (simp add: write_pid_def Let_def SIG_TEST_def SI_QUEUE_def not_less n)
  with buf assms(6) show ?thesis
    by (intro exI [of _ ?info]) (simp add: receiveData_def sig_app_main_def)
qed

definition one_task :: "unit task_ops" where
  "one_task = \<lparr>pid_task = (\<lambda>p. if p = 1234 then Some () else None), send_sig_info = (\<lambda>_ _ _. 0)\<rparr>"

theorem ksig_app_is_signalled_witness:
  "\<exists>info. write_pid one_task (flat_uaccess 0 (print_nat 1234 @ [0])) (\<lambda>_. 0) 0
    (int (length (print_nat 1234 @ [0]))) = Inr (int (length (print_nat 1234 @ [0])), Some (35, info, ()))"
  using ksig_app_is_signalled [of "flat_uaccess 0 (print_nat 1234 @ [0])" 1234 one_task "()" 0 0 "\<lambda>_. 0"]
  by (auto simp: one_task_def)

text \<open>
  Ten bytes without a terminator pass the length check and the driver reads past the end
  of \<open>mybuf\<close>; eleven bytes are refused.
\<close>

lemma ksig_unterminated_pid:
  assumes "uaccess_ok U" and "user_readable U buf bs" and "0 \<notin> set bs" and "10 \<le> length bs"
  shows "write_pid K U stack buf (int (length bs)) =
    (if length bs = 10 then Inl Oob_read else Inr (- EINVAL, None))"
proof (cases "length bs = 10")
  case True
  have no_end: "c_string n (store stack 0 bs) i = Inl Oob_read" if "i + n = length bs" for n i
    using that
  proof (induction n arbitrary: i)
    case 0
    then show ?case by simp
  next
    case (Suc n)
    then have "store stack 0 bs i = bs ! i" using store_nth [of i bs stack 0] by simp
    moreover have "bs ! i \<in> set bs" using Suc.prems by (intro nth_mem) simp
    ultimately have "store stack 0 bs i \<noteq> 0" using assms(3) by metis
    then show ?case using Suc by simp
  qed
  have "fst (copy_from_user U buf 10) = bs" using user_readable_all [OF assms(2)] True by simp
  then show ?thesis using no_end [of 0 10] True by (simp add: write_pid_def Let_def)
next
  case False
  then show ?thesis using assms(4) by (simp add: write_pid_def)
qed

end
