(* ===== verification/Kernel_Signal_Race.thy ===== *)
theory Kernel_Signal_Race
  imports Kernel_Signal Scheduler
begin

text \<open>
  The signal example as it stands in \<open>03-fileOperate/fileOperate/nonblock_ asynchronous\<close>
  (\<open>kernalSignal_drv.c\<close> and \<open>signal_app.c\<close>), step by step: any number of writers inside \<open>write_pid\<close>, the
  program that writes its own pid, and the task with pid \<open>p\<close>, which may exit. The kernel frees an exited
  task when no read-side section that began before the exit is left; \<open>write_pid\<close> looks the task up inside
  such a section and uses it behind its end. RCU is a parameter, a record of its operations, with
  \<open>rcu_spec\<close> over a view of the sections that are open.
\<close>

section \<open>Read-side sections\<close>

record rcu_view =
  rv_readers :: "nat set"
  rv_waiting :: "nat set"

text \<open>
  \<open>r_retire\<close> begins the grace period of the task that exits, which is over when \<open>r_over\<close> holds.
\<close>

record 'r rcu_ops =
  r_lock :: "nat \<Rightarrow> 'r \<Rightarrow> 'r"
  r_unlock :: "nat \<Rightarrow> 'r \<Rightarrow> 'r"
  r_retire :: "'r \<Rightarrow> 'r"
  r_over :: "'r \<Rightarrow> bool"

definition rcu_spec :: "'r rcu_ops \<Rightarrow> ('r \<Rightarrow> rcu_view) \<Rightarrow> bool" where
  "rcu_spec R view \<longleftrightarrow>
    (\<forall>i r. rv_readers (view (r_lock R i r)) = insert i (rv_readers (view r)) \<and>
      rv_waiting (view (r_lock R i r)) = rv_waiting (view r)) \<and>
    (\<forall>i r. rv_readers (view (r_unlock R i r)) = rv_readers (view r) - {i} \<and>
      rv_waiting (view (r_unlock R i r)) = rv_waiting (view r) - {i}) \<and>
    (\<forall>r. rv_readers (view (r_retire R r)) = rv_readers (view r) \<and>
      rv_waiting (view (r_retire R r)) = rv_readers (view r)) \<and>
    (\<forall>r. r_over R r \<longleftrightarrow> rv_waiting (view r) = {})"

definition set_rcu :: "(nat set \<times> nat set) rcu_ops" where
  "set_rcu = \<lparr>r_lock = (\<lambda>i (a, b). (insert i a, b)), r_unlock = (\<lambda>i (a, b). (a - {i}, b - {i})),
    r_retire = (\<lambda>(a, b). (a, a)), r_over = (\<lambda>(a, b). b = {})\<rparr>"

lemma set_rcu_spec: "rcu_spec set_rcu (\<lambda>(a, b). \<lparr>rv_readers = a, rv_waiting = b\<rparr>)"
  by (auto simp: rcu_spec_def set_rcu_def)

section \<open>Writers, program and task\<close>

text \<open>
  The program before \<open>sigaction\<close>, before \<open>open\<close>, behind \<open>write\<close>; a writer before the copy and scan, before
  \<open>rcu_read_lock\<close>, before the lookup, before the unlock of a failed and of a successful lookup, before
  \<open>send_sig_info\<close>, returned.
\<close>

datatype ks_pc =
    K_idle
  | A_sigaction | A_open | A_exit int
  | K_start | K_lock int | K_find int | K_none | K_unlock | K_send | K_ret int
  | K_oob | K_freed_use

datatype task_state = Alive | Exited | Freed

datatype ks_thread = Writer nat | Task

text \<open>
  \<open>ks_sent\<close> is the signals sent, each with its value and whether the task had its handler installed.
\<close>

record 'r ks_sys =
  ks_rcu :: 'r
  ks_task :: task_state
  ks_handler :: bool
  ks_pcs :: "nat \<Rightarrow> ks_pc"
  ks_sent :: "(int \<times> bool) list"

definition ks_goto :: "nat \<Rightarrow> ks_pc \<Rightarrow> 'r ks_sys \<Rightarrow> 'r ks_sys" where
  "ks_goto i pc s = s\<lparr>ks_pcs := (ks_pcs s)(i := pc)\<rparr>"

definition ks_set_rcu :: "'r \<Rightarrow> 'r ks_sys \<Rightarrow> 'r ks_sys" where
  "ks_set_rcu r s = s\<lparr>ks_rcu := r\<rparr>"

lemma ks_goto_simps [simp]:
  "ks_rcu (ks_goto i pc s) = ks_rcu s" "ks_task (ks_goto i pc s) = ks_task s"
  "ks_handler (ks_goto i pc s) = ks_handler s" "ks_sent (ks_goto i pc s) = ks_sent s"
  "ks_pcs (ks_goto i pc s) = (ks_pcs s)(i := pc)"
  "ks_rcu (ks_set_rcu r s) = r" "ks_task (ks_set_rcu r s) = ks_task s"
  "ks_handler (ks_set_rcu r s) = ks_handler s" "ks_sent (ks_set_rcu r s) = ks_sent s"
  "ks_pcs (ks_set_rcu r s) = ks_pcs s"
  by (simp_all add: ks_goto_def ks_set_rcu_def)

text \<open>
  The environment of a run: the pid of the task, whether writer 0 is the task's own program and what its
  \<open>open\<close> gives, the bytes each writer writes, what the stack held in \<open>mybuf\<close>, and what \<open>send_sig_info\<close>
  returns for a living and for an exited task.
\<close>

record ks_env =
  e_pid :: int
  e_self :: bool
  e_fd :: int
  e_text :: "nat \<Rightarrow> byte list"
  e_stack :: kmem
  e_alive_ret :: int
  e_exited_ret :: int

text \<open>\<open>copy_from_user\<close> of a readable buffer, and \<open>sscanf\<close> over an initial 0.\<close>

definition drv_scan_pid :: "kmem \<Rightarrow> byte list \<Rightarrow> fault + int" where
  "drv_scan_pid stack bs =
    (case c_string 10 (store stack 0 bs) 0 of
       Inl e \<Rightarrow> Inl e | Inr s \<Rightarrow> Inr (case scan_int s of None \<Rightarrow> 0 | Some v \<Rightarrow> v))"

definition drv_write_pid_step :: "'r rcu_ops \<Rightarrow> ks_env \<Rightarrow> nat \<Rightarrow> 'r ks_sys \<Rightarrow> 'r ks_sys option" where
  "drv_write_pid_step R E i s =
    (case ks_pcs s i of
       K_start \<Rightarrow>
         (if 10 < length (e_text E i) then Some (ks_goto i (K_ret (- EINVAL)) s)
          else case drv_scan_pid (e_stack E) (e_text E i) of
                 Inl e \<Rightarrow> Some (ks_goto i K_oob s) | Inr pid \<Rightarrow> Some (ks_goto i (K_lock pid) s))
     | K_lock pid \<Rightarrow> Some (ks_goto i (K_find pid) (ks_set_rcu (r_lock R i (ks_rcu s)) s))
     | K_find pid \<Rightarrow> Some (ks_goto i (if pid = e_pid E \<and> ks_task s = Alive then K_unlock else K_none) s)
     | K_none \<Rightarrow> Some (ks_goto i (K_ret (- ENODEV)) (ks_set_rcu (r_unlock R i (ks_rcu s)) s))
     | K_unlock \<Rightarrow> Some (ks_goto i K_send (ks_set_rcu (r_unlock R i (ks_rcu s)) s))
     | K_send \<Rightarrow>
         (case ks_task s of
            Freed \<Rightarrow> Some (ks_goto i K_freed_use s)
          | Exited \<Rightarrow> Some (ks_goto i (K_ret (if e_exited_ret E < 0 then e_exited_ret E
                                              else int (length (e_text E i)))) s)
          | Alive \<Rightarrow>
              (if e_alive_ret E < 0 then Some (ks_goto i (K_ret (e_alive_ret E)) s)
               else Some ((ks_goto i (K_ret (int (length (e_text E i)))) s)
                 \<lparr>ks_sent := ks_sent s @ [(12345, ks_handler s)]\<rparr>)))
     | _ \<Rightarrow> None)"

text \<open>The program around its \<open>write\<close>: the first failure is its exit status.\<close>

definition signal_app_step :: "ks_env \<Rightarrow> 'r ks_sys \<Rightarrow> 'r ks_sys option" where
  "signal_app_step E s =
    (case ks_pcs s 0 of
       A_sigaction \<Rightarrow> Some ((ks_goto 0 A_open s)\<lparr>ks_handler := True\<rparr>)
     | A_open \<Rightarrow> Some (ks_goto 0 (if e_fd E < 0 then A_exit (- 1) else K_start) s)
     | K_ret r \<Rightarrow> Some (ks_goto 0 (A_exit (if r < 0 then - 1 else 0)) s)
     | _ \<Rightarrow> None)"

definition at_exit :: "ks_pc \<Rightarrow> bool" where
  "at_exit pc \<longleftrightarrow> (case pc of A_exit r \<Rightarrow> True | _ \<Rightarrow> False)"

text \<open>The task exits, its own program only at the end of \<open>main\<close>; then it is freed.\<close>

definition task_step :: "'r rcu_ops \<Rightarrow> ks_env \<Rightarrow> 'r ks_sys \<Rightarrow> 'r ks_sys option" where
  "task_step R E s =
    (case ks_task s of
       Alive \<Rightarrow> (if e_self E \<and> \<not> at_exit (ks_pcs s 0) then None
                 else Some (s\<lparr>ks_task := Exited, ks_rcu := r_retire R (ks_rcu s)\<rparr>))
     | Exited \<Rightarrow> (if r_over R (ks_rcu s) then Some (s\<lparr>ks_task := Freed\<rparr>) else None)
     | Freed \<Rightarrow> None)"

fun ks_step :: "'r rcu_ops \<Rightarrow> ks_env \<Rightarrow> ks_thread \<Rightarrow> 'r ks_sys \<Rightarrow> 'r ks_sys option" where
  "ks_step R E (Writer i) s =
    (if i = 0 \<and> e_self E
     then (case signal_app_step E s of None \<Rightarrow> drv_write_pid_step R E 0 s | Some t \<Rightarrow> Some t)
     else drv_write_pid_step R E i s)"
| "ks_step R E Task s = task_step R E s"

section \<open>What the read-side section protects\<close>

definition in_section :: "ks_pc \<Rightarrow> bool" where
  "in_section pc \<longleftrightarrow> (case pc of K_find p \<Rightarrow> True | K_none \<Rightarrow> True | K_unlock \<Rightarrow> True | _ \<Rightarrow> False)"

text \<open>
  A writer that has found the task is in a section, and one of those the grace period waits for; so the
  task is not freed before it leaves the section.
\<close>

definition ks_inv :: "'r rcu_ops \<Rightarrow> ('r \<Rightarrow> rcu_view) \<Rightarrow> 'r ks_sys \<Rightarrow> bool" where
  "ks_inv R view s \<longleftrightarrow> rcu_spec R view \<and>
    rv_readers (view (ks_rcu s)) = {i. in_section (ks_pcs s i)} \<and>
    (ks_task s \<noteq> Alive \<longrightarrow> {i. ks_pcs s i = K_unlock} \<subseteq> rv_waiting (view (ks_rcu s))) \<and>
    (ks_task s = Freed \<longrightarrow> rv_waiting (view (ks_rcu s)) = {}) \<and>
    (\<forall>i. ks_pcs s i = K_freed_use \<longrightarrow> ks_task s = Freed)"

definition ks_start :: "'r rcu_ops \<Rightarrow> ('r \<Rightarrow> rcu_view) \<Rightarrow> 'r ks_sys \<Rightarrow> bool" where
  "ks_start R view s \<longleftrightarrow> rcu_spec R view \<and> rv_readers (view (ks_rcu s)) = {} \<and> ks_task s = Alive \<and>
    ks_sent s = [] \<and> \<not> ks_handler s \<and>
    (\<forall>i. ks_pcs s i = K_idle \<or> ks_pcs s i = K_start \<or> ks_pcs s i = A_sigaction)"

lemma ks_start_inv:
  assumes "ks_start R view s"
  shows "ks_inv R view s"
proof -
  have s: "rcu_spec R view" "rv_readers (view (ks_rcu s)) = {}" "ks_task s = Alive"
    and p: "\<forall>i. ks_pcs s i = K_idle \<or> ks_pcs s i = K_start \<or> ks_pcs s i = A_sigaction"
    using assms unfolding ks_start_def by blast+
  have "\<not> in_section (ks_pcs s i)" "ks_pcs s i \<noteq> K_freed_use" for i
    using spec [OF p, of i] by (elim disjE; simp add: in_section_def)+
  then show ?thesis unfolding ks_inv_def using s by simp
qed

lemma ks_view_steps:
  assumes "rcu_spec R view"
  shows "rv_readers (view (r_lock R i r)) = insert i (rv_readers (view r))"
    "rv_waiting (view (r_lock R i r)) = rv_waiting (view r)"
    "rv_readers (view (r_unlock R i r)) = rv_readers (view r) - {i}"
    "rv_waiting (view (r_unlock R i r)) = rv_waiting (view r) - {i}"
    "rv_readers (view (r_retire R r)) = rv_readers (view r)"
    "rv_waiting (view (r_retire R r)) = rv_readers (view r)"
    "r_over R r \<longleftrightarrow> rv_waiting (view r) = {}"
  using assms by (simp_all add: rcu_spec_def)

text \<open>A step that moves one thread and opens or closes no section.\<close>

lemma ks_inv_move:
  assumes "ks_inv R view s" and "ks_rcu t = ks_rcu s" and "ks_task t = ks_task s"
    and "ks_pcs t = (ks_pcs s)(i := pc)" and "in_section pc = in_section (ks_pcs s i)"
    and "pc = K_unlock \<longrightarrow> ks_task s = Alive" and "pc = K_freed_use \<longrightarrow> ks_task s = Freed"
  shows "ks_inv R view t"
proof -
  note inv = assms(1) [unfolded ks_inv_def]
  have "in_section (ks_pcs t j) = in_section (ks_pcs s j)" for j
    using assms(4,5) by (cases "j = i") auto
  then have r: "{j. in_section (ks_pcs t j)} = {j. in_section (ks_pcs s j)}" by simp
  have u: "{j. ks_pcs t j = K_unlock} \<subseteq> {j. ks_pcs s j = K_unlock}" if "ks_task s \<noteq> Alive"
    using assms(4,6) that by auto
  have f: "\<forall>j. ks_pcs t j = K_freed_use \<longrightarrow> ks_task s = Freed"
    using assms(4,7) inv by auto
  show ?thesis unfolding ks_inv_def assms(2,3) r using inv u f by blast
qed

lemma drv_step_inv:
  assumes "ks_inv R view s" and "drv_write_pid_step R E i s = Some t"
  shows "ks_inv R view t"
proof -
  have v: "rcu_spec R view" using assms(1) by (simp add: ks_inv_def)
  note views = ks_view_steps [OF v]
  show ?thesis
  proof (cases "ks_pcs s i")
    case K_start
    then have "\<exists>pc. t = ks_goto i pc s \<and> (pc = K_ret (- EINVAL) \<or> pc = K_oob \<or> (\<exists>p. pc = K_lock p))"
      using assms(2) by (auto simp: drv_write_pid_step_def split: if_splits sum.splits)
    then show ?thesis using K_start
      by (auto intro!: ks_inv_move [OF assms(1), of _ i] simp: in_section_def)
  next
    case (K_lock pid)
    have t: "t = ks_goto i (K_find pid) (ks_set_rcu (r_lock R i (ks_rcu s)) s)"
      using assms(2) K_lock by (simp add: drv_write_pid_step_def)
    show ?thesis using assms(1) K_lock unfolding t ks_inv_def
      by (auto simp: views in_section_def)
  next
    case (K_find pid)
    have t: "t = ks_goto i (if pid = e_pid E \<and> ks_task s = Alive then K_unlock else K_none) s"
      using assms(2) K_find by (simp add: drv_write_pid_step_def)
    show ?thesis using K_find unfolding t
      by (intro ks_inv_move [OF assms(1), of _ i]) (auto simp: in_section_def split: if_splits)
  next
    case K_none
    have t: "t = ks_goto i (K_ret (- ENODEV)) (ks_set_rcu (r_unlock R i (ks_rcu s)) s)"
      using assms(2) K_none by (simp add: drv_write_pid_step_def)
    show ?thesis using assms(1) K_none unfolding t ks_inv_def
      by (auto simp: views in_section_def)
  next
    case K_unlock
    have t: "t = ks_goto i K_send (ks_set_rcu (r_unlock R i (ks_rcu s)) s)"
      using assms(2) K_unlock by (simp add: drv_write_pid_step_def)
    show ?thesis using assms(1) K_unlock unfolding t ks_inv_def
      by (auto simp: views in_section_def)
  next
    case K_send
    then have "\<exists>pc. ks_rcu t = ks_rcu s \<and> ks_task t = ks_task s \<and> ks_pcs t = (ks_pcs s)(i := pc) \<and>
        ((\<exists>r. pc = K_ret r) \<or> pc = K_freed_use \<and> ks_task s = Freed)"
      using assms(2) by (auto simp: drv_write_pid_step_def split: if_splits task_state.splits)
    then show ?thesis using K_send
      by (auto intro!: ks_inv_move [OF assms(1), of _ i] simp: in_section_def)
  qed (use assms(2) in \<open>simp_all add: drv_write_pid_step_def\<close>)
qed

lemma app_step_inv:
  assumes "ks_inv R view s" and "signal_app_step E s = Some t"
  shows "ks_inv R view t"
proof (cases "ks_pcs s 0")
  case A_sigaction
  then have "t = (ks_goto 0 A_open s)\<lparr>ks_handler := True\<rparr>" using assms(2) by (simp add: signal_app_step_def)
  with A_sigaction show ?thesis by (intro ks_inv_move [OF assms(1), of _ 0 A_open]) (simp_all add: in_section_def)
next
  case A_open
  let ?pc = "if e_fd E < 0 then A_exit (- 1) else K_start"
  have t: "t = ks_goto 0 ?pc s" using A_open assms(2) by (simp add: signal_app_step_def)
  show ?thesis using A_open unfolding t
    by (intro ks_inv_move [OF assms(1), of _ 0 ?pc]) (simp_all add: in_section_def)
next
  case (K_ret r)
  let ?pc = "A_exit (if r < 0 then - 1 else 0)"
  have t: "t = ks_goto 0 ?pc s" using K_ret assms(2) by (simp add: signal_app_step_def)
  show ?thesis using K_ret unfolding t
    by (intro ks_inv_move [OF assms(1), of _ 0 ?pc]) (simp_all add: in_section_def)
qed (use assms(2) in \<open>simp_all add: signal_app_step_def\<close>)

lemma task_step_inv:
  assumes "ks_inv R view s" and "task_step R E s = Some t"
  shows "ks_inv R view t"
proof -
  have v: "rcu_spec R view" using assms(1) by (simp add: ks_inv_def)
  show ?thesis
  proof (cases "ks_task s")
    case Alive
    then have t: "t = s\<lparr>ks_task := Exited, ks_rcu := r_retire R (ks_rcu s)\<rparr>"
      using assms(2) by (simp add: task_step_def split: if_splits)
    show ?thesis using assms(1) Alive unfolding t ks_inv_def
      by (auto simp: ks_view_steps [OF v] in_section_def)
  next
    case Exited
    then have t: "t = s\<lparr>ks_task := Freed\<rparr>" "r_over R (ks_rcu s)"
      using assms(2) by (simp_all add: task_step_def split: if_splits)
    then show ?thesis using assms(1) Exited unfolding ks_inv_def
      by (auto simp: ks_view_steps [OF v])
  next
    case Freed
    then show ?thesis using assms(2) by (simp add: task_step_def)
  qed
qed

lemma ks_step_inv: "ks_inv R view s \<Longrightarrow> ks_step R E i s = Some t \<Longrightarrow> ks_inv R view t"
  by (cases i) (auto intro: drv_step_inv app_step_inv task_step_inv split: if_splits option.splits)

interpretation ksr: threaded_system "ks_step R E" "ks_start R view" "ks_inv R view" for R E view
  by unfold_locales (auto intro: ks_start_inv ks_step_inv)

section \<open>The task that goes in between\<close>

text \<open>
  From any state with a writer at the beginning, a valid text and nobody else in a section: the writer looks
  the task up and leaves its section, the task exits and is freed, and the writer uses it.
\<close>

lemma writer_uses_freed_task:
  assumes "ks_start R view s" and "ks_pcs s i = K_start" and "\<not> e_self E"
    and "length (e_text E i) \<le> 10" and "drv_scan_pid (e_stack E) (e_text E i) = Inr (e_pid E)"
  shows "\<exists>t. run_schedule (ks_step R E)
      [Writer i, Writer i, Writer i, Writer i, Task, Task, Writer i] s = Some t \<and> ks_pcs t i = K_freed_use"
proof -
  have spec: "rcu_spec R view" and s: "ks_task s = Alive" "rv_readers (view (ks_rcu s)) = {}"
    using assms(1) by (simp_all add: ks_start_def)
  let ?r = "r_unlock R i (r_lock R i (ks_rcu s))"
  have "r_over R (r_retire R ?r)" using s(2) by (simp add: ks_view_steps [OF spec])
  then show ?thesis
    using assms s(1) by (simp add: drv_write_pid_step_def task_step_def)
qed

section \<open>The program alone\<close>

text \<open>
  Writer 0 is the task's own program and the only writer: the task cannot exit while it is in
  \<open>write_pid\<close>, and the handler is there before anything is sent.
\<close>

fun self_inv :: "ks_env \<Rightarrow> task_state \<Rightarrow> bool \<Rightarrow> (int \<times> bool) list \<Rightarrow> ks_pc \<Rightarrow> bool" where
  "self_inv E ts h sent A_sigaction = (ts = Alive \<and> sent = [])"
| "self_inv E ts h sent (A_exit r) = (sent = (if r = 0 then [(12345, True)] else []))"
| "self_inv E ts h sent (K_ret r) = (ts = Alive \<and> sent = (if 0 \<le> r then [(12345, True)] else []))"
| "self_inv E ts h sent K_oob = False"
| "self_inv E ts h sent K_freed_use = False"
| "self_inv E ts h sent K_idle = False"
| "self_inv E ts h sent pc = (ts = Alive \<and> h \<and> sent = [])"

definition self_start :: "ks_env \<Rightarrow> 'r ks_sys \<Rightarrow> bool" where
  "self_start E s \<longleftrightarrow> e_self E \<and> (\<exists>pid. drv_scan_pid (e_stack E) (e_text E 0) = Inr pid) \<and>
    ks_pcs s = (\<lambda>_. K_idle)(0 := A_sigaction) \<and> ks_task s = Alive \<and> ks_sent s = []"

definition self_ok :: "ks_env \<Rightarrow> 'r ks_sys \<Rightarrow> bool" where
  "self_ok E s \<longleftrightarrow> e_self E \<and> (\<exists>pid. drv_scan_pid (e_stack E) (e_text E 0) = Inr pid) \<and>
    (\<forall>i. i \<noteq> 0 \<longrightarrow> ks_pcs s i = K_idle) \<and> self_inv E (ks_task s) (ks_handler s) (ks_sent s) (ks_pcs s 0)"

lemma self_not_alive: "self_inv E ts h sent pc \<Longrightarrow> ts \<noteq> Alive \<Longrightarrow> at_exit pc"
  by (cases pc) (auto simp: at_exit_def)

lemma self_inv_exit: "at_exit pc \<Longrightarrow> self_inv E ts h sent pc = self_inv E ts' h sent pc"
  by (cases pc) (auto simp: at_exit_def)

lemma self_app_step:
  assumes "self_ok E s" and "signal_app_step E s = Some t"
  shows "self_ok E t"
proof (cases "ks_pcs s 0")
  case A_sigaction
  then have t: "t = (ks_goto 0 A_open s)\<lparr>ks_handler := True\<rparr>" using assms(2) by (simp add: signal_app_step_def)
  show ?thesis using assms(1) A_sigaction unfolding t by (simp add: self_ok_def)
next
  case A_open
  then have t: "t = ks_goto 0 (if e_fd E < 0 then A_exit (- 1) else K_start) s"
    using assms(2) by (simp add: signal_app_step_def)
  show ?thesis using assms(1) A_open unfolding t by (simp add: self_ok_def)
next
  case (K_ret r)
  then have t: "t = ks_goto 0 (A_exit (if r < 0 then - 1 else 0)) s"
    using assms(2) by (simp add: signal_app_step_def)
  show ?thesis using assms(1) K_ret unfolding t by (simp add: self_ok_def)
qed (use assms(2) in \<open>simp_all add: signal_app_step_def\<close>)

lemma self_drv_step:
  assumes "self_ok E s" and "drv_write_pid_step R E 0 s = Some t"
  shows "self_ok E t"
proof -
  obtain pid where pid: "drv_scan_pid (e_stack E) (e_text E 0) = Inr pid"
    using assms(1) by (auto simp: self_ok_def)
  show ?thesis
  proof (cases "ks_pcs s 0")
    case K_start
    then have t: "t = ks_goto 0 (if 10 < length (e_text E 0) then K_ret (- EINVAL) else K_lock pid) s"
      using assms(2) pid by (simp add: drv_write_pid_step_def split: if_splits)
    show ?thesis using assms(1) K_start unfolding t by (simp add: self_ok_def)
  next
    case (K_lock q)
    then have t: "t = ks_goto 0 (K_find q) (ks_set_rcu (r_lock R 0 (ks_rcu s)) s)"
      using assms(2) by (simp add: drv_write_pid_step_def)
    show ?thesis using assms(1) K_lock unfolding t by (simp add: self_ok_def)
  next
    case (K_find q)
    then have t: "t = ks_goto 0 (if q = e_pid E \<and> ks_task s = Alive then K_unlock else K_none) s"
      using assms(2) by (simp add: drv_write_pid_step_def)
    show ?thesis using assms(1) K_find unfolding t by (simp add: self_ok_def)
  next
    case K_none
    then have t: "t = ks_goto 0 (K_ret (- ENODEV)) (ks_set_rcu (r_unlock R 0 (ks_rcu s)) s)"
      using assms(2) by (simp add: drv_write_pid_step_def)
    show ?thesis using assms(1) K_none unfolding t by (simp add: self_ok_def)
  next
    case K_unlock
    then have t: "t = ks_goto 0 K_send (ks_set_rcu (r_unlock R 0 (ks_rcu s)) s)"
      using assms(2) by (simp add: drv_write_pid_step_def)
    show ?thesis using assms(1) K_unlock unfolding t by (simp add: self_ok_def)
  next
    case K_send
    have "ks_task s = Alive" using assms(1) K_send by (simp add: self_ok_def)
    then have t: "t = (if e_alive_ret E < 0 then ks_goto 0 (K_ret (e_alive_ret E)) s
        else (ks_goto 0 (K_ret (int (length (e_text E 0)))) s)\<lparr>ks_sent := ks_sent s @ [(12345, ks_handler s)]\<rparr>)"
      using assms(2) K_send by (simp add: drv_write_pid_step_def split: if_splits)
    show ?thesis using assms(1) K_send unfolding t by (auto simp: self_ok_def)
  qed (use assms(2) in \<open>simp_all add: drv_write_pid_step_def\<close>)
qed

lemma self_step:
  assumes "self_ok E s" and "ks_step R E i s = Some t"
  shows "self_ok E t"
proof (cases i)
  case (Writer j)
  show ?thesis
  proof (cases "j = 0")
    case True
    then have "signal_app_step E s = Some t \<or> drv_write_pid_step R E 0 s = Some t"
      using assms(2) Writer by (simp split: option.splits if_splits)
    then show ?thesis using self_app_step [OF assms(1)] self_drv_step [OF assms(1)] by blast
  next
    case False
    then have "ks_pcs s j = K_idle" using assms(1) by (simp add: self_ok_def)
    then show ?thesis using assms(2) Writer False by (simp add: drv_write_pid_step_def)
  qed
next
  case Task
  then have step: "task_step R E s = Some t" using assms(2) by simp
  have inv: "self_inv E (ks_task s) (ks_handler s) (ks_sent s) (ks_pcs s 0)" "e_self E"
    using assms(1) by (simp_all add: self_ok_def)
  have e: "at_exit (ks_pcs s 0)"
  proof (cases "ks_task s")
    case Alive
    then show ?thesis using step inv(2) by (simp add: task_step_def split: if_splits)
  qed (use self_not_alive [OF inv(1)] in simp_all)
  have "ks_pcs t = ks_pcs s" "ks_sent t = ks_sent s" "ks_handler t = ks_handler s"
    using step by (auto simp: task_step_def split: task_state.splits if_splits)
  then show ?thesis
    using assms(1) self_inv_exit [OF e, of E "ks_task t" "ks_handler s" "ks_sent s" "ks_task s"]
    by (simp add: self_ok_def)
qed

interpretation kself: threaded_system "ks_step R E" "self_start E" "self_ok E" for R E
proof unfold_locales
  show "self_ok E s" if "self_start E s" for s :: "'a ks_sys"
    using that by (auto simp: self_start_def self_ok_def)
qed (rule self_step)

section \<open>Properties\<close>

text \<open>
  C28. The signal is sent to a task that the driver no longer protects. In every interleaving of any number of
  writers and the task's exit, a writer that has found the task and is still in its read-side section
  has a task that is not freed, and nothing is freed under it. But \<open>send_sig_info\<close> comes behind
  \<open>rcu_read_unlock\<close>: from every start with a writer of the task's pid there is an interleaving in which
  it uses freed memory. Only the program that writes its own pid is safe in every interleaving: it cannot exit
  while it is in the driver, the value 12345 is sent to it at most once and only with its handler installed,
  and it exits with 0 exactly when the signal was sent.
\<close>

theorem ksig_task_used_after_unlock:
  shows "(ks_start R view s \<and> reaches (ks_step R E) s t \<longrightarrow>
      (ks_pcs t i = K_unlock \<longrightarrow> ks_task t \<noteq> Freed) \<and> (ks_pcs t i = K_freed_use \<longrightarrow> ks_task t = Freed)) \<and>
    (ks_start R view s \<and> ks_pcs s i = K_start \<and> \<not> e_self E \<and> length (e_text E i) \<le> 10 \<and>
      drv_scan_pid (e_stack E) (e_text E i) = Inr (e_pid E) \<longrightarrow>
      (\<exists>u. reaches (ks_step R E) s u \<and> ks_pcs u i = K_freed_use)) \<and>
    (self_start E s \<and> reaches (ks_step R E) s t \<longrightarrow>
      (\<forall>j. ks_pcs t j \<noteq> K_freed_use) \<and> (ks_sent t = [] \<or> ks_sent t = [(12345, True)]) \<and>
      (\<forall>r. ks_pcs t 0 = A_exit r \<longrightarrow> (r = 0 \<longleftrightarrow> ks_sent t = [(12345, True)])))"
proof (intro conjI impI)
  assume a: "ks_start R view s \<and> reaches (ks_step R E) s t"
  then have inv: "ks_inv R view t" by (blast intro: ksr.reachable_inv)
  show "ks_pcs t i = K_unlock \<Longrightarrow> ks_task t \<noteq> Freed" using inv by (auto simp: ks_inv_def)
  show "ks_pcs t i = K_freed_use \<Longrightarrow> ks_task t = Freed" using inv unfolding ks_inv_def by blast
next
  assume "ks_start R view s \<and> ks_pcs s i = K_start \<and> \<not> e_self E \<and> length (e_text E i) \<le> 10 \<and>
      drv_scan_pid (e_stack E) (e_text E i) = Inr (e_pid E)"
  then obtain u where "run_schedule (ks_step R E)
      [Writer i, Writer i, Writer i, Writer i, Task, Task, Writer i] s = Some u" "ks_pcs u i = K_freed_use"
    using writer_uses_freed_task [of R view s i E] by blast
  then show "\<exists>u. reaches (ks_step R E) s u \<and> ks_pcs u i = K_freed_use"
    using run_schedule_reaches by metis
next
  assume "self_start E s \<and> reaches (ks_step R E) s t"
  then have inv: "self_ok E t" by (blast intro: kself.reachable_inv)
  show "ks_sent t = [] \<or> ks_sent t = [(12345, True)]"
    using inv by (cases "ks_pcs t 0") (auto simp: self_ok_def split: if_splits)
  show "\<forall>j. ks_pcs t j \<noteq> K_freed_use"
  proof (intro allI notI)
    fix j assume "ks_pcs t j = K_freed_use"
    then show False using inv by (cases "j = 0") (auto simp: self_ok_def)
  qed
  show "\<forall>r. ks_pcs t 0 = A_exit r \<longrightarrow> (r = 0 \<longleftrightarrow> ks_sent t = [(12345, True)])"
    using inv by (auto simp: self_ok_def split: if_splits)
qed

text \<open>Root writes the pid 42 of a task that exits.\<close>

definition echo_env :: ks_env where
  "echo_env = \<lparr>e_pid = 42, e_self = False, e_fd = 3, e_text = (\<lambda>_. [52, 50, 0]), e_stack = (\<lambda>_. 1),
    e_alive_ret = 0, e_exited_ret = - 3\<rparr>"

definition echo_start :: "(nat set \<times> nat set) ks_sys" where
  "echo_start = \<lparr>ks_rcu = ({}, {}), ks_task = Alive, ks_handler = False, ks_pcs = (\<lambda>_. K_idle)(1 := K_start),
    ks_sent = []\<rparr>"

theorem ksig_task_used_after_unlock_witness:
  "\<exists>u. reaches (ks_step set_rcu echo_env) echo_start u \<and> ks_pcs u 1 = K_freed_use"
proof -
  have "c_string 10 (store (\<lambda>_. 1) 0 [52, 50, 0]) 0 = Inr [52, 50]"
    by (rule c_string_prefix) (simp_all add: store_def load_def upt_rec nth_Cons')
  then have "drv_scan_pid (e_stack echo_env) (e_text echo_env 1) = Inr (e_pid echo_env)"
    by (simp add: drv_scan_pid_def echo_env_def scan_int_def is_space_def is_digit_def digits_value_def wrap_simps)
  moreover have "ks_start set_rcu (\<lambda>(a, b). \<lparr>rv_readers = a, rv_waiting = b\<rparr>) echo_start"
    using set_rcu_spec by (simp add: ks_start_def echo_start_def)
  ultimately show ?thesis
    using ksig_task_used_after_unlock [of set_rcu "\<lambda>(a, b). \<lparr>rv_readers = a, rv_waiting = b\<rparr>" echo_start echo_env]
    by (simp add: echo_start_def echo_env_def)
qed

end
