(* ===== verification/Pipe_Program.thy ===== *)
theory Pipe_Program
  imports Kernel_Prelude Scheduler
begin

text \<open>
  The pipe program \<open>01-ProcessCtrl/pipe_rw.c\<close> from its \<open>fork\<close> on: the parent writes "Hello" and
  " Pipe", the child reads up to 100 bytes once and prints them. The two sleeps order nothing, so
  parent and child are threads whose steps interleave freely.

  The pipe is the kernel's, the record \<open>pipe_ops\<close>; what is documented is \<open>pipe_spec\<close> over a view
  of the pipe: its content and how many descriptors are open at each end. A read waits while
  the pipe is empty and a writer is left; a write without a reader kills the process.
\<close>

section \<open>The pipe as a parameter\<close>

record 'p pipe_ops =
  pipe_write :: "byte list \<Rightarrow> 'p \<Rightarrow> 'p option"
  pipe_read :: "nat \<Rightarrow> 'p \<Rightarrow> ('p \<times> byte list) option"
  close_reader :: "'p \<Rightarrow> 'p"
  close_writer :: "'p \<Rightarrow> 'p"

record pipe_view =
  content :: "byte list"
  readers :: nat
  writers :: nat

definition pipe_spec :: "'p pipe_ops \<Rightarrow> ('p \<Rightarrow> pipe_view) \<Rightarrow> bool" where
  "pipe_spec P view \<longleftrightarrow>
    (\<forall>bs p. readers (view p) = 0 \<longrightarrow> pipe_write P bs p = None) \<and>
    (\<forall>bs p. readers (view p) \<noteq> 0 \<and> length (content (view p) @ bs) \<le> 4096 \<longrightarrow>
      (\<exists>p'. pipe_write P bs p = Some p' \<and> view p' = (view p)\<lparr>content := content (view p) @ bs\<rparr>)) \<and>
    (\<forall>n p. content (view p) = [] \<and> writers (view p) \<noteq> 0 \<longrightarrow> pipe_read P n p = None) \<and>
    (\<forall>n p. content (view p) \<noteq> [] \<or> writers (view p) = 0 \<longrightarrow>
      (\<exists>p'. pipe_read P n p = Some (p', take n (content (view p))) \<and>
        view p' = (view p)\<lparr>content := drop n (content (view p))\<rparr>)) \<and>
    (\<forall>p. view (close_reader P p) = (view p)\<lparr>readers := readers (view p) - 1\<rparr>) \<and>
    (\<forall>p. view (close_writer P p) = (view p)\<lparr>writers := writers (view p) - 1\<rparr>)"

section \<open>The two processes\<close>

definition hello :: "byte list" where
  "hello = [72, 101, 108, 108, 111]"

definition pipe_text :: "byte list" where
  "pipe_text = [32, 80, 105, 112, 101]"

datatype proc = Parent | Child

datatype parent_pc = P_close_r | P_write1 | P_write2 | P_close_w | P_wait | P_exit int | P_killed

datatype child_pc = C_close_w | C_read | C_close_r "byte list" | C_exit "byte list"

record 'p pipe_sys =
  pipe :: 'p
  parent :: parent_pc
  child :: child_pc

text \<open>A process that is killed gives up its descriptors, here its end for writing.\<close>

definition parent_step :: "'p pipe_ops \<Rightarrow> 'p pipe_sys \<Rightarrow> 'p pipe_sys option" where
  "parent_step P s =
    (case parent s of
       P_close_r \<Rightarrow> Some (s\<lparr>pipe := close_reader P (pipe s), parent := P_write1\<rparr>)
     | P_write1 \<Rightarrow>
         (case pipe_write P hello (pipe s) of
            None \<Rightarrow> Some (s\<lparr>pipe := close_writer P (pipe s), parent := P_killed\<rparr>)
          | Some p \<Rightarrow> Some (s\<lparr>pipe := p, parent := P_write2\<rparr>))
     | P_write2 \<Rightarrow>
         (case pipe_write P pipe_text (pipe s) of
            None \<Rightarrow> Some (s\<lparr>pipe := close_writer P (pipe s), parent := P_killed\<rparr>)
          | Some p \<Rightarrow> Some (s\<lparr>pipe := p, parent := P_close_w\<rparr>))
     | P_close_w \<Rightarrow> Some (s\<lparr>pipe := close_writer P (pipe s), parent := P_wait\<rparr>)
     | P_wait \<Rightarrow> (case child s of C_exit out \<Rightarrow> Some (s\<lparr>parent := P_exit 0\<rparr>) | _ \<Rightarrow> None)
     | _ \<Rightarrow> None)"

definition child_step :: "'p pipe_ops \<Rightarrow> 'p pipe_sys \<Rightarrow> 'p pipe_sys option" where
  "child_step P s =
    (case child s of
       C_close_w \<Rightarrow> Some (s\<lparr>pipe := close_writer P (pipe s), child := C_read\<rparr>)
     | C_read \<Rightarrow>
         (case pipe_read P 100 (pipe s) of
            None \<Rightarrow> None
          | Some (p, out) \<Rightarrow> Some (s\<lparr>pipe := p, child := C_close_r out\<rparr>))
     | C_close_r out \<Rightarrow> Some (s\<lparr>pipe := close_reader P (pipe s), child := C_exit out\<rparr>)
     | C_exit out \<Rightarrow> None)"

definition pipe_tstep :: "'p pipe_ops \<Rightarrow> proc \<Rightarrow> 'p pipe_sys \<Rightarrow> 'p pipe_sys option" where
  "pipe_tstep P i s = (case i of Parent \<Rightarrow> parent_step P s | Child \<Rightarrow> child_step P s)"

text \<open>
  What the child prints of what it read: the number and the buffer as a string; the buffer was
  cleared, and nothing is printed at the end of file.
\<close>

definition child_prints :: "byte list \<Rightarrow> (fault + int \<times> byte list) option" where
  "child_prints out =
    (if out = [] then None
     else Some (case c_string 100 (store (\<lambda>_. 0) 0 out) 0 of
                  Inl e \<Rightarrow> Inl e | Inr str \<Rightarrow> Inr (int (length out), str)))"

text \<open>
  The program up to the point where there are two processes: \<open>pret\<close> is what \<open>pipe\<close> returned, \<open>pid\<close>
  what \<open>fork\<close> returned to the caller. Without a pipe it returns \<open>-1\<close>, without a child 0.
\<close>

definition pipe_rw_main :: "int \<Rightarrow> 'p \<Rightarrow> int \<Rightarrow> int + 'p pipe_sys" where
  "pipe_rw_main pret p pid =
    (if pret < 0 then Inl (- 1)
     else if pid > 0 then Inr \<lparr>pipe = p, parent = P_close_r, child = C_close_w\<rparr>
     else Inl 0)"

section \<open>The invariant\<close>

text \<open>Right after \<open>fork\<close> both processes have both ends open and the pipe is empty.\<close>

definition pipe_start :: "'p pipe_ops \<Rightarrow> ('p \<Rightarrow> pipe_view) \<Rightarrow> 'p pipe_sys \<Rightarrow> bool" where
  "pipe_start P view s \<longleftrightarrow> pipe_spec P view \<and>
    view (pipe s) = \<lparr>content = [], readers = 2, writers = 2\<rparr> \<and>
    (\<exists>pret pid. pipe_rw_main pret (pipe s) pid = Inr s)"

fun parent_written :: "parent_pc \<Rightarrow> byte list" where
  "parent_written P_close_r = []"
| "parent_written P_write1 = []"
| "parent_written P_write2 = hello"
| "parent_written P_killed = hello"
| "parent_written _ = hello @ pipe_text"

fun parent_writing :: "parent_pc \<Rightarrow> bool" where
  "parent_writing P_wait = False"
| "parent_writing (P_exit r) = False"
| "parent_writing P_killed = False"
| "parent_writing _ = True"

fun child_read :: "child_pc \<Rightarrow> byte list" where
  "child_read (C_close_r out) = out"
| "child_read (C_exit out) = out"
| "child_read _ = []"

fun child_gone :: "child_pc \<Rightarrow> bool" where
  "child_gone (C_exit out) = True"
| "child_gone _ = False"

definition pipe_inv :: "'p pipe_ops \<Rightarrow> ('p \<Rightarrow> pipe_view) \<Rightarrow> 'p pipe_sys \<Rightarrow> bool" where
  "pipe_inv P view s \<longleftrightarrow> pipe_spec P view \<and>
    child_read (child s) @ content (view (pipe s)) = parent_written (parent s) \<and>
    readers (view (pipe s)) = of_bool (parent s = P_close_r) + of_bool (\<not> child_gone (child s)) \<and>
    writers (view (pipe s)) = of_bool (parent_writing (parent s)) + of_bool (child s = C_close_w) \<and>
    (case child s of C_close_r out \<Rightarrow> out \<in> {hello, hello @ pipe_text}
     | C_exit out \<Rightarrow> out \<in> {hello, hello @ pipe_text} | _ \<Rightarrow> True) \<and>
    (parent s = P_killed \<longrightarrow> child s = C_exit hello) \<and>
    (\<forall>r. parent s = P_exit r \<longrightarrow> r = 0 \<and> child_gone (child s))"

lemma pipe_text_simps [simp]:
  "hello \<noteq> []" "pipe_text \<noteq> []" "length hello = 5" "length pipe_text = 5"
  by (simp_all add: hello_def pipe_text_def)

lemma pipe_writes:
  assumes "pipe_spec P view" and "readers (view p) \<noteq> 0" and "length (content (view p) @ bs) \<le> 4096"
  obtains p' where "pipe_write P bs p = Some p'" and "view p' = (view p)\<lparr>content := content (view p) @ bs\<rparr>"
  using assms unfolding pipe_spec_def by blast

lemma pipe_kills: "pipe_spec P view \<Longrightarrow> readers (view p) = 0 \<Longrightarrow> pipe_write P bs p = None"
  unfolding pipe_spec_def by blast

lemma pipe_reads:
  assumes "pipe_spec P view" and "content (view p) \<noteq> [] \<or> writers (view p) = 0"
  obtains p' where "pipe_read P n p = Some (p', take n (content (view p)))"
    and "view p' = (view p)\<lparr>content := drop n (content (view p))\<rparr>"
  using assms unfolding pipe_spec_def by blast

lemma pipe_waits:
  "pipe_spec P view \<Longrightarrow> content (view p) = [] \<Longrightarrow> writers (view p) \<noteq> 0 \<Longrightarrow> pipe_read P n p = None"
  unfolding pipe_spec_def by blast

lemma pipe_closes:
  "pipe_spec P view \<Longrightarrow> view (close_reader P p) = (view p)\<lparr>readers := readers (view p) - 1\<rparr>"
  "pipe_spec P view \<Longrightarrow> view (close_writer P p) = (view p)\<lparr>writers := writers (view p) - 1\<rparr>"
  unfolding pipe_spec_def by blast+

lemma pipe_rw_main_state:
  "pipe_rw_main pret p pid = Inr s \<Longrightarrow> s = \<lparr>pipe = p, parent = P_close_r, child = C_close_w\<rparr>"
  by (auto simp: pipe_rw_main_def split: if_splits)

lemma pipe_start_pcs:
  assumes "pipe_start P view s"
  shows "parent s = P_close_r" and "child s = C_close_w"
proof -
  obtain pret pid where "pipe_rw_main pret (pipe s) pid = Inr s" using assms by (auto simp: pipe_start_def)
  from pipe_rw_main_state [OF this] show "parent s = P_close_r" "child s = C_close_w"
    by (metis pipe_sys.select_convs)+
qed

lemma pipe_start_inv: "pipe_start P view s \<Longrightarrow> pipe_inv P view s"
  using pipe_start_pcs [of P view s] by (auto simp: pipe_start_def pipe_inv_def)

lemma parent_write_inv:
  assumes inv: "pipe_inv P view s" and pc: "parent s = P_write1 \<and> bs = hello \<or> parent s = P_write2 \<and> bs = pipe_text"
    and w: "pipe_write P bs (pipe s) = Some p"
  shows "pipe_inv P view (s\<lparr>pipe := p, parent := if parent s = P_write1 then P_write2 else P_close_w\<rparr>)"
proof -
  have spec: "pipe_spec P view" using inv by (simp add: pipe_inv_def)
  have r: "readers (view (pipe s)) \<noteq> 0" using w pipe_kills [OF spec] by (metis option.distinct(1))
  have "length (child_read (child s) @ content (view (pipe s))) \<le> 5"
    using inv pc unfolding pipe_inv_def by (metis pipe_text_simps(3) le0 list.size(3) order_refl parent_written.simps(2,3))
  then have "length (content (view (pipe s)) @ bs) \<le> 4096" using pc by auto
  then obtain p' where "pipe_write P bs (pipe s) = Some p'"
    and "view p' = (view (pipe s))\<lparr>content := content (view (pipe s)) @ bs\<rparr>"
    by (rule pipe_writes [OF spec r])
  with inv pc w show ?thesis
    by (cases "child s") (auto simp: pipe_inv_def)
qed

lemma parent_kill_inv:
  assumes inv: "pipe_inv P view s" and pc: "parent s = P_write1 \<and> bs = hello \<or> parent s = P_write2 \<and> bs = pipe_text"
    and w: "pipe_write P bs (pipe s) = None"
  shows "pipe_inv P view (s\<lparr>pipe := close_writer P (pipe s), parent := P_killed\<rparr>)"
proof -
  have spec: "pipe_spec P view" using inv by (simp add: pipe_inv_def)
  have "length (child_read (child s) @ content (view (pipe s))) \<le> 5"
    using inv pc unfolding pipe_inv_def by (metis pipe_text_simps(3) le0 list.size(3) order_refl parent_written.simps(2,3))
  then have len: "length (content (view (pipe s)) @ bs) \<le> 4096" using pc by auto
  have "readers (view (pipe s)) = 0"
  proof (rule ccontr)
    assume "readers (view (pipe s)) \<noteq> 0"
    then obtain p' where "pipe_write P bs (pipe s) = Some p'" by (rule pipe_writes [OF spec _ len])
    with w show False by simp
  qed
  with inv pc show ?thesis
    by (cases "child s") (auto simp: pipe_inv_def pipe_closes [OF spec])
qed

lemma pipe_step_inv:
  assumes inv: "pipe_inv P view s" and step: "pipe_tstep P i s = Some t"
  shows "pipe_inv P view t"
proof (cases i)
  case Parent
  have spec: "pipe_spec P view" using inv by (simp add: pipe_inv_def)
  show ?thesis
  proof (cases "parent s")
    case P_close_r
    then have t: "t = s\<lparr>pipe := close_reader P (pipe s), parent := P_write1\<rparr>"
      using Parent step by (simp add: pipe_tstep_def parent_step_def)
    show ?thesis using inv P_close_r unfolding t
      by (cases "child s") (simp_all add: pipe_inv_def pipe_closes [OF spec])
  next
    case P_write1
    with Parent step parent_write_inv [OF inv, of hello] parent_kill_inv [OF inv, of hello] show ?thesis
      by (auto simp: pipe_tstep_def parent_step_def split: option.splits)
  next
    case P_write2
    with Parent step parent_write_inv [OF inv, of pipe_text] parent_kill_inv [OF inv, of pipe_text]
    show ?thesis by (auto simp: pipe_tstep_def parent_step_def split: option.splits)
  next
    case P_close_w
    then have t: "t = s\<lparr>pipe := close_writer P (pipe s), parent := P_wait\<rparr>"
      using Parent step by (simp add: pipe_tstep_def parent_step_def)
    show ?thesis using inv P_close_w unfolding t
      by (cases "child s") (simp_all add: pipe_inv_def pipe_closes [OF spec])
  next
    case P_wait
    then have t: "t = s\<lparr>parent := P_exit 0\<rparr>" "child_gone (child s)"
      using Parent step by (auto simp: pipe_tstep_def parent_step_def split: child_pc.splits)
    show ?thesis using inv P_wait t(2) unfolding t(1)
      by (cases "child s") (simp_all add: pipe_inv_def)
  qed (use Parent step in \<open>auto simp: pipe_tstep_def parent_step_def\<close>)
next
  case Child
  have spec: "pipe_spec P view" using inv by (simp add: pipe_inv_def)
  show ?thesis
  proof (cases "child s")
    case C_read
    have ne: "content (view (pipe s)) \<noteq> [] \<or> writers (view (pipe s)) = 0"
    proof (rule ccontr)
      assume "\<not> ?thesis"
      then have "pipe_read P 100 (pipe s) = None" by (auto intro: pipe_waits [OF spec])
      with Child C_read step show False by (simp add: pipe_tstep_def child_step_def)
    qed
    obtain p' where r: "pipe_read P 100 (pipe s) = Some (p', take 100 (content (view (pipe s))))"
      "view p' = (view (pipe s))\<lparr>content := drop 100 (content (view (pipe s)))\<rparr>"
      by (rule pipe_reads [OF spec ne])
    have c: "content (view (pipe s)) \<in> {hello, hello @ pipe_text}"
      using inv C_read ne by (cases "parent s") (auto simp: pipe_inv_def)
    then have "take 100 (content (view (pipe s))) = content (view (pipe s))"
      "drop 100 (content (view (pipe s))) = []" by auto
    moreover from this have t: "t = s\<lparr>pipe := p', child := C_close_r (content (view (pipe s)))\<rparr>"
      using Child C_read step r(1) by (simp add: pipe_tstep_def child_step_def)
    ultimately show ?thesis using inv C_read r(2) c unfolding t by (simp add: pipe_inv_def)
  next
    case C_close_w
    then have t: "t = s\<lparr>pipe := close_writer P (pipe s), child := C_read\<rparr>"
      using Child step by (simp add: pipe_tstep_def child_step_def)
    show ?thesis using inv C_close_w unfolding t by (auto simp: pipe_inv_def pipe_closes [OF spec])
  next
    case (C_close_r out)
    then have t: "t = s\<lparr>pipe := close_reader P (pipe s), child := C_exit out\<rparr>"
      using Child step by (simp add: pipe_tstep_def child_step_def)
    show ?thesis using inv C_close_r unfolding t by (auto simp: pipe_inv_def pipe_closes [OF spec])
  qed (use Child step in \<open>simp add: pipe_tstep_def child_step_def\<close>)
qed

interpretation pip: threaded_system "pipe_tstep P" "pipe_start P view" "pipe_inv P view" for P view
  by unfold_locales (auto intro: pipe_start_inv pipe_step_inv)

section \<open>Both processes end\<close>

fun parent_left :: "parent_pc \<Rightarrow> nat" where
  "parent_left P_close_r = 5"
| "parent_left P_write1 = 4"
| "parent_left P_write2 = 3"
| "parent_left P_close_w = 2"
| "parent_left P_wait = 1"
| "parent_left _ = 0"

fun child_left :: "child_pc \<Rightarrow> nat" where
  "child_left C_close_w = 3"
| "child_left C_read = 2"
| "child_left (C_close_r out) = 1"
| "child_left (C_exit out) = 0"

definition pipe_work :: "'p pipe_sys \<Rightarrow> nat" where
  "pipe_work s = parent_left (parent s) + child_left (child s)"

definition pipe_finished :: "'p pipe_sys \<Rightarrow> bool" where
  "pipe_finished s \<longleftrightarrow> child_gone (child s) \<and> parent_left (parent s) = 0"

lemma pipe_work_decreases: "pipe_tstep P i s = Some t \<Longrightarrow> pipe_work t < pipe_work s"
  by (auto simp: pipe_tstep_def parent_step_def child_step_def pipe_work_def
    split: proc.splits parent_pc.splits child_pc.splits option.splits)

lemma pipe_child_moves:
  assumes inv: "pipe_inv P view s" and gone: "\<not> child_gone (child s)"
    and w: "\<not> parent_writing (parent s)"
  shows "\<exists>t. pipe_tstep P Child s = Some t"
proof (cases "child s")
  case C_read
  have spec: "pipe_spec P view" using inv by (simp add: pipe_inv_def)
  have "content (view (pipe s)) \<noteq> [] \<or> writers (view (pipe s)) = 0"
    using inv w C_read by (simp add: pipe_inv_def)
  then obtain p' where "pipe_read P 100 (pipe s) = Some (p', take 100 (content (view (pipe s))))"
    by (rule pipe_reads [OF spec])
  with C_read show ?thesis by (simp add: pipe_tstep_def child_step_def)
qed (use gone in \<open>simp_all add: pipe_tstep_def child_step_def\<close>)

lemma pipe_parent_moves:
  "parent_writing (parent s) \<or> parent s = P_wait \<and> child_gone (child s) \<Longrightarrow>
    \<exists>t. pipe_tstep P Parent s = Some t"
  by (cases "parent s"; cases "child s")
    (auto simp: pipe_tstep_def parent_step_def split: option.splits)

lemma pipe_progress: "pipe_inv P view s \<Longrightarrow> \<not> pipe_finished s \<Longrightarrow> \<exists>i t. pipe_tstep P i s = Some t"
  using pipe_child_moves [of P view s] pipe_parent_moves [of s P]
  by (cases "parent s") (auto simp: pipe_finished_def)

interpretation pipt: terminating_system "pipe_tstep P" "pipe_start P view" "pipe_inv P view"
    pipe_work pipe_finished for P view
  by unfold_locales (auto intro: pipe_work_decreases pipe_progress)

lemma pipe_start_work: "pipe_start P view s \<Longrightarrow> pipe_work s = 8"
  by (simp add: pipe_work_def pipe_start_pcs)

lemma child_prints_read:
  assumes "out = hello \<or> out = hello @ pipe_text"
  shows "child_prints out = Some (Inr (int (length out), out))"
proof -
  have "c_string 100 (store (\<lambda>_. 0) 0 out) 0 = Inr out"
    using assms by (intro c_string_prefix) (auto simp: hello_def pipe_text_def load_def store_def)
  moreover have "out \<noteq> []" using assms by (auto simp: hello_def)
  ultimately show ?thesis by (simp add: child_prints_def)
qed

section \<open>A pipe that meets its contract\<close>

definition list_pipe :: "pipe_view pipe_ops" where
  "list_pipe = \<lparr>
    pipe_write = (\<lambda>bs p. if readers p = 0 then None else Some (p\<lparr>content := content p @ bs\<rparr>)),
    pipe_read = (\<lambda>n p. if content p = [] \<and> writers p \<noteq> 0 then None
                   else Some (p\<lparr>content := drop n (content p)\<rparr>, take n (content p))),
    close_reader = (\<lambda>p. p\<lparr>readers := readers p - 1\<rparr>),
    close_writer = (\<lambda>p. p\<lparr>writers := writers p - 1\<rparr>)\<rparr>"

definition forked :: "pipe_view pipe_sys" where
  "forked = \<lparr>pipe = \<lparr>content = [], readers = 2, writers = 2\<rparr>, parent = P_close_r, child = C_close_w\<rparr>"

lemma list_pipe_spec: "pipe_spec list_pipe (\<lambda>p. p)"
  by (auto simp: pipe_spec_def list_pipe_def)

lemma forked_start: "pipe_start list_pipe (\<lambda>p. p) forked"
  unfolding pipe_start_def
proof (intro conjI exI)
  show "pipe_rw_main 0 (pipe forked) 7 = Inr forked" by (simp add: pipe_rw_main_def forked_def)
qed (simp_all add: list_pipe_spec forked_def)

section \<open>Properties\<close>

text \<open>
  C12. In every interleaving of the two processes of the pipe program, when neither can move the
  child has read and printed "Hello" (5) or "Hello Pipe" (10), never a part of a word and never
  nothing; the parent has left with 0, or was killed by the second write, which happens only
  when the child had read just "Hello" and closed its end.
\<close>

theorem pipe_outcome:
  assumes "pipe_start P view s" and "reaches (pipe_tstep P) s t"
    and "pipe_tstep P Parent t = None" and "pipe_tstep P Child t = None"
  shows "\<exists>out. child t = C_exit out \<and> (out = hello \<or> out = hello @ pipe_text) \<and>
    child_prints out = Some (Inr (int (length out), out)) \<and>
    (parent t = P_exit 0 \<or> parent t = P_killed \<and> out = hello)"
proof -
  have inv: "pipe_inv P view t" by (rule pip.reachable_inv [OF assms(1,2)])
  have "pipe_tstep P i t = None" for i using assms(3,4) by (cases i) auto
  then have "pipe_finished t" by (rule pipt.stuck_finished [OF inv])
  then obtain out where out: "child t = C_exit out" and left: "parent_left (parent t) = 0"
    by (cases "child t") (auto simp: pipe_finished_def)
  with inv have "out = hello \<or> out = hello @ pipe_text" by (simp add: pipe_inv_def)
  moreover from this have "child_prints out = Some (Inr (int (length out), out))"
    by (rule child_prints_read)
  moreover have "parent t = P_exit 0 \<or> parent t = P_killed \<and> out = hello"
    using inv left out by (cases "parent t") (auto simp: pipe_inv_def)
  ultimately show ?thesis using out by blast
qed

text \<open>
  The usual run, and the run in which the child is gone before the second write.
\<close>

definition pipe_usual :: "proc list" where
  "pipe_usual = [Parent, Child, Parent, Parent, Parent, Child, Child, Parent]"

definition pipe_early_child :: "proc list" where
  "pipe_early_child = [Child, Parent, Parent, Child, Child, Parent]"

lemma pipe_usual_run:
  "run_schedule (pipe_tstep list_pipe) pipe_usual forked =
    Some \<lparr>pipe = \<lparr>content = [], readers = 0, writers = 0\<rparr>, parent = P_exit 0,
      child = C_exit (hello @ pipe_text)\<rparr>"
  by (simp add: pipe_usual_def pipe_tstep_def parent_step_def child_step_def forked_def list_pipe_def)

lemma pipe_early_child_kills:
  "run_schedule (pipe_tstep list_pipe) pipe_early_child forked =
    Some \<lparr>pipe = \<lparr>content = [], readers = 0, writers = 0\<rparr>, parent = P_killed, child = C_exit hello\<rparr>"
  by (simp add: pipe_early_child_def pipe_tstep_def parent_step_def child_step_def forked_def
    list_pipe_def)

lemma pipe_outcome_witness:
  "child_prints (hello @ pipe_text) = Some (Inr (10, hello @ pipe_text))"
  using pipe_outcome [OF forked_start run_schedule_reaches [OF pipe_usual_run]]
  by (simp add: pipe_tstep_def parent_step_def child_step_def)

text \<open>
  Every schedule of the two processes has at most 8 steps, and from every state they can
  reach both can still end: no interleaving of the closes, writes and the read deadlocks.
\<close>

lemma pipe_terminates:
  assumes "pipe_start P view s" and "run_schedule (pipe_tstep P) is s = Some t"
  shows "length is \<le> 8 \<and>
    (\<exists>u. reaches (pipe_tstep P) t u \<and> child_gone (child u) \<and> (parent u = P_killed \<or> (\<exists>r. parent u = P_exit r)))"
proof -
  have inv: "pipe_inv P view s" by (rule pipe_start_inv [OF assms(1)])
  have "length is + pipe_work t \<le> pipe_work s" by (rule pipt.schedule_length [OF inv assms(2)])
  moreover have "pipe_inv P view t"
    by (rule pip.reaches_inv [OF run_schedule_reaches [OF assms(2)] inv])
  then obtain u where u: "reaches (pipe_tstep P) t u" "pipe_finished u" using pipt.can_finish by blast
  moreover from u(2) have "child_gone (child u) \<and> (parent u = P_killed \<or> (\<exists>r. parent u = P_exit r))"
    by (cases "parent u") (auto simp: pipe_finished_def)
  ultimately show ?thesis using pipe_start_work [OF assms(1)] by auto
qed

lemma pipe_terminates_witness: "length pipe_usual \<le> 8"
  using pipe_terminates [OF forked_start pipe_usual_run] by blast

end
