(* ===== verification/Process_Programs.thy ===== *)
theory Process_Programs
  imports Kernel_Prelude Scheduler
begin

text \<open>
  The remaining programs of \<open>01-ProcessCtrl\<close>: shared memory (\<open>shareMemery_shm.c\<close>), the message
  queue between a process and its child (\<open>Mesge_queues_RW.c\<close>), a thread that is handed a
  structure (\<open>pthread.c\<close>), and the signal handler (\<open>mysignal.c\<close>). The System V calls are
  parameters; a process that \<open>wait\<close>s for its child first runs after it, so the message-queue
  program is sequential.
\<close>

section \<open>Shared memory\<close>

text \<open>
  \<open>shm_put\<close> and \<open>shm_get\<close> are the accesses \<open>memcpy\<close> makes through an attached address. What is
  documented: what was put into an attached segment of 128 bytes is what is got.
\<close>

record 's shm_ops =
  shmget :: "int \<Rightarrow> nat \<Rightarrow> 's \<Rightarrow> 's \<times> int"
  shmat :: "int \<Rightarrow> 's \<Rightarrow> 's \<times> int"
  shm_put :: "int \<Rightarrow> byte list \<Rightarrow> 's \<Rightarrow> 's"
  shm_get :: "int \<Rightarrow> nat \<Rightarrow> 's \<Rightarrow> byte list"
  shmdt :: "int \<Rightarrow> 's \<Rightarrow> 's \<times> int"
  shmctl_rmid :: "int \<Rightarrow> 's \<Rightarrow> 's \<times> int"

definition shm_spec :: "'s shm_ops \<Rightarrow> bool" where
  "shm_spec S \<longleftrightarrow> (\<forall>sid s s' a bs n. shmat S sid s = (s', a) \<and> a \<noteq> -1 \<and> n \<le> length bs \<and> length bs \<le> 128 \<longrightarrow>
     shm_get S a n (shm_put S a bs s') = take n bs)"

definition shm_text :: "byte list" where
  "shm_text = [115, 104, 97, 114, 101, 32, 109, 101, 109, 111, 114, 121, 32, 116, 101, 115, 116]"

datatype shm_line = Read_shm "byte list" | Perror_shmat | Perror_shmget | Delete_shm_success

text \<open>
  \<open>shm\<close> has no value when \<open>shmget\<close> fails, and \<open>shmdt (shm)\<close> uses it; after a failed \<open>shmat\<close> it is
  the address \<open>-1\<close>.
\<close>

definition shm_main :: "'s shm_ops \<Rightarrow> 's \<Rightarrow> fault + 's \<times> shm_line list" where
  "shm_main S s =
    (let (s1, shm_id) = shmget S 15 128 s
     in if shm_id = -1 then Inl Uninit_use
        else
          let (s2, shm) = shmat S shm_id s1;
              (s3, r) = (if shm \<noteq> -1 then
                  let s' = shm_put S shm (shm_text @ [0]) s2;
                      str1 = store (\<lambda>_. 0) 0 (shm_get S shm (length shm_text) s')
                  in (s', case c_string 20 str1 0 of Inl e \<Rightarrow> Inl e | Inr str \<Rightarrow> Inr [Read_shm str])
                else (s2, Inr [Perror_shmat]));
              (s4, d) = shmdt S shm s3;
              (s5, c) = shmctl_rmid S shm_id s4
          in case r of Inl e \<Rightarrow> Inl e
             | Inr ls \<Rightarrow> Inr (s5, ls @ (if c = 0 then [Delete_shm_success] else [])))"

lemma shm_text_string: "c_string 20 (store (\<lambda>_. 0) 0 shm_text) 0 = Inr shm_text"
  by (intro c_string_prefix) (auto simp: shm_text_def load_def store_def)

section \<open>The message queue\<close>

text \<open>
  \<open>msgsnd\<close> takes the eight bytes at the buffer as the message's type and the 255 behind them as
  its text; \<open>msgrcv\<close> stores the same way. What is documented: a queue in order of
  arrival, a send with a positive type that succeeds appends, and a receive of any type takes
  the oldest message if it fits, and fails on an empty queue with \<open>IPC_NOWAIT\<close>.
\<close>

record 's msg_ops =
  msgget :: "int \<Rightarrow> 's \<Rightarrow> 's \<times> int"
  msgsnd :: "int \<Rightarrow> byte list \<Rightarrow> byte list \<Rightarrow> 's \<Rightarrow> 's \<times> int"
  msgrcv :: "int \<Rightarrow> nat \<Rightarrow> 's \<Rightarrow> 's \<times> (byte list \<times> byte list) option"
  msgctl_rmid :: "int \<Rightarrow> 's \<Rightarrow> 's \<times> int"

definition msg_spec :: "'s msg_ops \<Rightarrow> (int \<Rightarrow> 's \<Rightarrow> (byte list \<times> byte list) list) \<Rightarrow> bool" where
  "msg_spec Q pending \<longleftrightarrow>
    (\<forall>q mt txt s s' r. msgsnd Q q mt txt s = (s', r) \<longrightarrow>
      pending q s' = pending q s @ (if r = -1 then [] else [(mt, txt)])) \<and>
    (\<forall>q n s. case pending q s of
        [] \<Rightarrow> snd (msgrcv Q q n s) = None
      | (mt, txt) # rest \<Rightarrow> length txt \<le> n \<longrightarrow>
          snd (msgrcv Q q n s) = Some (mt, txt) \<and> pending q (fst (msgrcv Q q n s)) = rest)"

definition MSG_BUF :: nat where
  "MSG_BUF = 255"

definition hello_word :: "byte list" where
  "hello_word = [104, 101, 108, 108, 111, 32, 119, 111, 114, 100, 46, 10]"

text \<open>
  The globals \<open>buf_r\<close> and \<open>buf_w\<close> are two stretches of the process's memory, at \<open>r\<close> and \<open>w\<close>; the
  calls get the size of a buffer as the size of the text, so each touches the eight
  bytes behind its buffer too. The child and the parent work on their own copies of the memory.
\<close>

definition mq_child :: "'s msg_ops \<Rightarrow> nat \<Rightarrow> int \<Rightarrow> kmem \<Rightarrow> 's \<Rightarrow> 's \<times> kmem \<times> bool" where
  "mq_child Q w msg_id m s =
    (let m' = store m w (hello_word @ [0]);
         (s', r) = msgsnd Q msg_id (load m' w 8) (load m' (w + 8) MSG_BUF) s
     in (s', m', r \<noteq> -1))"

datatype mq_line = Read_success "byte list" | Delete_msg_success | Error_mesg

definition mq_parent :: "'s msg_ops \<Rightarrow> nat \<Rightarrow> int \<Rightarrow> kmem \<Rightarrow> 's \<Rightarrow> fault + 's \<times> kmem \<times> mq_line list" where
  "mq_parent Q r msg_id m s =
    (case msgrcv Q msg_id MSG_BUF s of
       (s', None) \<Rightarrow> Inr (s', m, [Error_mesg])
     | (s', Some (mt, txt)) \<Rightarrow>
         let m' = store (store m r mt) (r + 8) txt;
             (s'', d) = msgctl_rmid Q msg_id s'
         in case c_string MSG_BUF m' r of
              Inl e \<Rightarrow> Inl e
            | Inr str \<Rightarrow> Inr (s'', m', Read_success str # (if d \<noteq> -1 then [Delete_msg_success] else [])))"

text \<open>
  \<open>main\<close>: without a queue nothing happens, and without a child neither branch runs; else the
  parent's part follows the child's. The result is whether the child's send succeeded, and the
  parent's memory and lines.
\<close>

definition mq_main :: "'s msg_ops \<Rightarrow> nat \<Rightarrow> nat \<Rightarrow> int \<Rightarrow> kmem \<Rightarrow> 's \<Rightarrow>
    (fault + 's \<times> kmem \<times> mq_line list) option" where
  "mq_main Q r w pid m s =
    (let (s1, msg_id) = msgget Q 777 s
     in if msg_id = -1 \<or> pid < 0 then None
        else let (s2, mc, ok) = mq_child Q w msg_id m s1 in Some (mq_parent Q r msg_id m s2))"

lemma hello_word_simps [simp]: "length hello_word = 12" "0 \<notin> set hello_word"
  by (simp_all add: hello_word_def)

lemma mq_child_sends:
  assumes "msg_spec Q pending" and "mq_child Q w q m s = (s', m', True)"
  shows "m' = store m w (hello_word @ [0]) \<and>
    pending q s' = pending q s @ [(load m' w 8, load m' (w + 8) MSG_BUF)]"
proof -
  let ?m = "store m w (hello_word @ [0])"
  obtain t r where t: "msgsnd Q q (load ?m w 8) (load ?m (w + 8) MSG_BUF) s = (t, r)"
    by (cases "msgsnd Q q (load ?m w 8) (load ?m (w + 8) MSG_BUF) s")
  have "pending q t = pending q s @ (if r = -1 then [] else [(load ?m w 8, load ?m (w + 8) MSG_BUF)])"
    using assms(1) t unfolding msg_spec_def by blast
  with t assms(2) show ?thesis by (auto simp: mq_child_def Let_def)
qed

lemma mq_parent_receives:
  assumes "msg_spec Q pending" and "pending q s = (mt, txt) # rest" and "length txt = MSG_BUF"
    and "c_string MSG_BUF (store (store m r mt) (r + 8) txt) r = Inr str"
  shows "\<exists>s' d. mq_parent Q r q m s =
    Inr (s', store (store m r mt) (r + 8) txt, Read_success str # (if d then [Delete_msg_success] else []))"
proof -
  have "snd (msgrcv Q q MSG_BUF s) = Some (mt, txt)"
    using assms(1-3) unfolding msg_spec_def by (auto dest: spec [of _ q] split: list.splits)
  with assms(4) show ?thesis
    by (cases "msgrcv Q q MSG_BUF s") (auto simp: mq_parent_def Let_def split: prod.splits)
qed

section \<open>The thread that is handed a structure\<close>

record menber =
  m_a :: int
  m_s :: "byte list"

datatype out_line = Thread_id | Process_pid | Menber_a int | Menber_s "byte list" | Main_pid | Not_created

text \<open>The lines that \<open>create\<close> prints, and the structure that \<open>main\<close> gives to it.\<close>

definition create :: "menber \<Rightarrow> out_line list" where
  "create temp = [Thread_id, Process_pid, Menber_a (m_a temp), Menber_s (m_s temp)]"

definition sample_code :: menber where
  "sample_code = \<lparr>m_a = 4, m_s = [83, 97, 109, 112, 108, 101, 67, 111, 100, 101]\<rparr>"

text \<open>
  \<open>main\<close> and the thread after \<open>pthread_create\<close>: \<open>to_print\<close> is what the thread still prints, and main
  prints its line and returns, which ends the process with the thread in it; nothing joins it.
\<close>

datatype main_pc = M_print | M_return | M_gone

record pt_sys =
  to_print :: "out_line list"
  main_pc :: main_pc
  printed :: "out_line list"

datatype pt_thread = Main | Created

definition pt_step :: "pt_thread \<Rightarrow> pt_sys \<Rightarrow> pt_sys option" where
  "pt_step i s =
    (if main_pc s = M_gone then None
     else case i of
       Main \<Rightarrow> (case main_pc s of
           M_print \<Rightarrow> Some (s\<lparr>main_pc := M_return, printed := printed s @ [Main_pid]\<rparr>)
         | _ \<Rightarrow> Some (s\<lparr>main_pc := M_gone\<rparr>))
     | Created \<Rightarrow> (case to_print s of
           [] \<Rightarrow> None
         | l # ls \<Rightarrow> Some (s\<lparr>to_print := ls, printed := printed s @ [l]\<rparr>)))"

text \<open>
  \<open>main\<close> up to \<open>pthread_create\<close>: a failed \<open>malloc\<close> is written through, and a failed creation ends
  with \<open>-1\<close> after one line.
\<close>

definition pthread_main :: "bool \<Rightarrow> int \<Rightarrow> fault + (int \<times> out_line list) + pt_sys" where
  "pthread_main malloc_ok err =
    (if \<not> malloc_ok then Inl Null_deref
     else if err \<noteq> 0 then Inr (Inl (-1, [Not_created]))
     else Inr (Inr \<lparr>to_print = create sample_code, main_pc = M_print, printed = []\<rparr>))"

definition pt_start :: "pt_sys \<Rightarrow> bool" where
  "pt_start s \<longleftrightarrow> pthread_main True 0 = Inr (Inr s)"

definition pt_inv :: "pt_sys \<Rightarrow> bool" where
  "pt_inv s \<longleftrightarrow> filter (\<lambda>l. l \<noteq> Main_pid) (printed s) @ to_print s = create sample_code \<and>
    (main_pc s \<noteq> M_print \<longleftrightarrow> Main_pid \<in> set (printed s)) \<and> Main_pid \<notin> set (to_print s)"

lemma create_simps: "Main_pid \<notin> set (create t)" "filter (\<lambda>l. l \<noteq> Main_pid) (create t) = create t"
  by (simp_all add: create_def)

interpretation pt: threaded_system pt_step pt_start pt_inv
proof
  show "pt_start s \<Longrightarrow> pt_inv s" for s
    by (auto simp: pt_start_def pthread_main_def pt_inv_def create_simps)
  show "pt_inv s \<Longrightarrow> pt_step i s = Some t \<Longrightarrow> pt_inv t" for s i t
    by (auto simp: pt_step_def pt_inv_def split: if_splits pt_thread.splits main_pc.splits list.splits)
qed

text \<open>
  In every interleaving the thread has printed the structure it was given, or a prefix of it
  when \<open>main\<close> returned first.
\<close>

lemma pthread_prints_prefix:
  assumes "pthread_main True 0 = Inr (Inr s)" and "reaches pt_step s t"
  shows "filter (\<lambda>l. l \<noteq> Main_pid) (printed t) @ to_print t =
    [Thread_id, Process_pid, Menber_a 4, Menber_s [83, 97, 109, 112, 108, 101, 67, 111, 100, 101]]"
  using pt.reachable_inv [of s t] assms by (simp add: pt_start_def pt_inv_def create_def sample_code_def)

section \<open>The signal handler\<close>

definition SIGINT :: int where
  "SIGINT = 2"

text \<open>Whether \<open>my_func\<close> prints its line.\<close>

definition my_func :: "int \<Rightarrow> bool" where
  "my_func sign_no = (sign_no = SIGINT)"

datatype sig_pc = At_start | Handler_set | In_pause | Exited int | Killed_by int

datatype sig_event = Next_statement | Interrupt

text \<open>
  The program between its statements and the interrupts that arrive: before \<open>signal\<close> an interrupt
  kills, afterwards it runs the handler, and \<open>pause\<close> returns once a handler has run. The
  result is the new point and how many lines the handler has printed.
\<close>

fun mysignal_step :: "sig_event \<Rightarrow> sig_pc \<times> nat \<Rightarrow> sig_pc \<times> nat" where
  "mysignal_step Next_statement (At_start, n) = (Handler_set, n)"
| "mysignal_step Next_statement (Handler_set, n) = (In_pause, n)"
| "mysignal_step Interrupt (At_start, n) = (Killed_by SIGINT, n)"
| "mysignal_step Interrupt (Handler_set, n) = (Handler_set, n + of_bool (my_func SIGINT))"
| "mysignal_step Interrupt (In_pause, n) = (Exited 0, n + of_bool (my_func SIGINT))"
| "mysignal_step _ c = c"

definition mysignal_main :: "sig_event list \<Rightarrow> sig_pc \<times> nat" where
  "mysignal_main evs = fold mysignal_step evs (At_start, 0)"

lemma mysignal_usual: "mysignal_main [Next_statement, Next_statement, Interrupt] = (Exited 0, 1)"
  by (simp add: mysignal_main_def my_func_def)

text \<open>An interrupt between \<open>signal\<close> and \<open>pause\<close> is handled, but then \<open>pause\<close> waits for another.\<close>

lemma mysignal_lost:
  "mysignal_main [Next_statement, Interrupt, Next_statement, Next_statement] = (In_pause, 1)"
  by (simp add: mysignal_main_def my_func_def)

section \<open>Properties\<close>

text \<open>A list as the message queue, and a segment that can always be attached.\<close>

definition list_queue :: "(byte list \<times> byte list) list msg_ops" where
  "list_queue = \<lparr>msgget = (\<lambda>key s. (s, 0)), msgsnd = (\<lambda>q mt txt s. (s @ [(mt, txt)], 0)),
     msgrcv = (\<lambda>q n s. case s of [] \<Rightarrow> ([], None) | (mt, txt) # rest \<Rightarrow>
       if length txt \<le> n then (rest, Some (mt, txt)) else (s, None)),
     msgctl_rmid = (\<lambda>q s. ([], 0))\<rparr>"

lemma list_queue_spec: "msg_spec list_queue (\<lambda>q s. s)"
  by (auto simp: msg_spec_def list_queue_def split: list.splits)

definition plain_shm :: "kmem shm_ops" where
  "plain_shm = \<lparr>shmget = (\<lambda>key n s. (s, 1)), shmat = (\<lambda>q s. (s, 4096)),
     shm_put = (\<lambda>a bs s. store s (nat a) bs), shm_get = (\<lambda>a n s. load s (nat a) n),
     shmdt = (\<lambda>a s. (s, 0)), shmctl_rmid = (\<lambda>q s. (s, 0))\<rparr>"

lemma plain_shm_spec: "shm_spec plain_shm"
proof -
  have "load (store s a bs) a n = take n bs" if "n \<le> length bs" for s :: kmem and a n bs
    using load_store_within [of 0 n bs s a] that by simp
  then show ?thesis by (auto simp: shm_spec_def plain_shm_def)
qed

text \<open>
  C30. The message of the child arrives: over an empty queue, when the child's send succeeds, the
  parent prints "hello word." whatever the memory held; and because both calls move eight bytes
  more than their buffers hold, the eight bytes behind the parent's \<open>buf_r\<close> are overwritten with
  the eight behind the child's \<open>buf_w\<close>, and nothing else.
\<close>

theorem mq_message_arrives:
  assumes "msg_spec Q pending" and "msgget Q 777 s = (s1, q)" and "q \<noteq> -1" and "0 < pid"
    and "pending q s1 = []" and "mq_child Q w q m s1 = (s2, mc, True)"
  shows "\<exists>s3 m' ls. mq_main Q r w pid m s = Some (Inr (s3, m', Read_success hello_word # ls)) \<and>
    load m' (r + MSG_BUF) 8 = load m (w + MSG_BUF) 8 \<and>
    (\<forall>i. i < r \<or> r + MSG_BUF + 8 \<le> i \<longrightarrow> m' i = m i)"
proof -
  let ?t = "load mc w 8" and ?x = "load mc (w + 8) MSG_BUF"
  let ?m = "store (store m r ?t) (r + 8) ?x"
  have mc: "mc = store m w (hello_word @ [0])" and p: "pending q s2 = [(?t, ?x)]"
    using mq_child_sends [OF assms(1,6)] assms(5) by auto
  have all: "?m = store m r (load mc w 263)"
    using store_append [of m r ?t ?x] load_append [of mc w 8 255] by (simp add: MSG_BUF_def)
  have byte: "?m (r + i) = (if i < 13 then (hello_word @ [0]) ! i else m (w + i))" if "i < 263" for i
    using that unfolding all by (simp add: store_def mc)
  have "c_string MSG_BUF ?m r = Inr hello_word"
  proof (rule c_string_prefix)
    show "load ?m r (length hello_word) = hello_word" "?m (r + length hello_word) = 0"
      by (auto simp: byte nth_append intro!: nth_equalityI)
  qed (simp_all add: MSG_BUF_def)
  from mq_parent_receives [OF assms(1) p _ this] obtain s3 d where
    "mq_parent Q r q m s2 = Inr (s3, ?m, Read_success hello_word # (if d then [Delete_msg_success] else []))"
    by auto
  then have "mq_main Q r w pid m s =
      Some (Inr (s3, ?m, Read_success hello_word # (if d then [Delete_msg_success] else [])))"
    using assms(2-4,6) by (simp add: mq_main_def)
  moreover have "load ?m (r + MSG_BUF) 8 = load m (w + MSG_BUF) 8"
    by (rule nth_equalityI) (auto simp: byte [unfolded MSG_BUF_def] MSG_BUF_def add.assoc)
  moreover have "\<forall>i. i < r \<or> r + MSG_BUF + 8 \<le> i \<longrightarrow> ?m i = m i"
    by (auto simp: store_def MSG_BUF_def)
  ultimately show ?thesis by blast
qed

theorem mq_message_arrives_witness:
  "\<exists>s3 m' ls. mq_main list_queue 255 0 9 (\<lambda>_. 7) [] = Some (Inr (s3, m', Read_success hello_word # ls)) \<and>
    m' 510 = 7"
proof -
  obtain s2 mc where c: "mq_child list_queue 0 0 (\<lambda>_. 7) [] = (s2, mc, True)"
    by (simp add: mq_child_def list_queue_def Let_def)
  have g: "msgget list_queue 777 [] = ([], 0)" by (simp add: list_queue_def)
  from mq_message_arrives [OF list_queue_spec g _ _ _ c, of 9 255] obtain s3 m' ls where
    m: "mq_main list_queue 255 0 9 (\<lambda>_. 7) [] = Some (Inr (s3, m', Read_success hello_word # ls))"
    "load m' (255 + MSG_BUF) 8 = load (\<lambda>_. 7) (0 + MSG_BUF) 8" by auto
  from m(2) have "load m' (255 + MSG_BUF) 8 ! 0 = (7 :: byte)" by simp
  with m(1) show ?thesis by (auto simp: MSG_BUF_def)
qed

text \<open>
  The shared-memory program prints its text whenever the segment can be got and attached,
  whatever was in it, and removes it; when \<open>shmget\<close> fails it uses a pointer that has no value.
\<close>

lemma shm_prints_text:
  assumes "shm_spec S" and "shmget S 15 128 s = (s1, sid)" and "sid \<noteq> -1"
    and "shmat S sid s1 = (s2, a)" and "a \<noteq> -1"
  shows "\<exists>s5 d. shm_main S s = Inr (s5, Read_shm shm_text # (if d = 0 then [Delete_shm_success] else [])) \<and>
    d = snd (shmctl_rmid S sid (fst (shmdt S a (shm_put S a (shm_text @ [0]) s2))))"
proof -
  have "length shm_text = 17" by (simp add: shm_text_def)
  then have "shm_get S a (length shm_text) (shm_put S a (shm_text @ [0]) s2) = shm_text"
    using assms(1,4,5) unfolding shm_spec_def by (simp (no_asm_simp))
  with assms shm_text_string show ?thesis
    by (auto simp: shm_main_def Let_def split: prod.splits)
qed

lemma shm_main_no_segment: "shmget S 15 128 s = (s1, - 1) \<Longrightarrow> shm_main S s = Inl Uninit_use"
  by (simp add: shm_main_def)

end
