(* ===== verification/Fifo_Programs.thy ===== *)
theory Fifo_Programs
  imports Kernel_Prelude
begin

text \<open>
  The programs that talk over a named FIFO: the writer \<open>01-ProcessCtrl/fifo_write.c\<close> and the
  readers \<open>01-ProcessCtrl/fifo_Read.c\<close>, \<open>fifoRead_block.c\<close>, \<open>fifoRead_nonblock.c\<close> and
  \<open>fifoRead_selectBlock.c\<close> (the copies of the writer under \<open>03-fileOperate\<close> are the same text).
  The writer always sends its whole buffer of 100 bytes, and the readers always ask for 100
  bytes, which is what keeps messages apart.

  The FIFO is the kernel's: its operations are the record \<open>fifo_ops\<close>, an argument of the programs,
  and \<open>fifo_spec\<close> states what is documented of transfers that are atomic at this size.
\<close>

section \<open>The FIFO as a parameter\<close>

text \<open>A write gives the state, the result and \<open>errno\<close>; a read the bytes as well.\<close>

record 's fifo_ops =
  fifo_write :: "int \<Rightarrow> byte list \<Rightarrow> 's \<Rightarrow> 's \<times> int \<times> int"
  fifo_read :: "int \<Rightarrow> nat \<Rightarrow> 's \<Rightarrow> 's \<times> int \<times> int \<times> byte list"

definition fifo_spec :: "'s fifo_ops \<Rightarrow> ('s \<Rightarrow> byte list) \<Rightarrow> bool" where
  "fifo_spec F content \<longleftrightarrow>
    (\<forall>fd bs s s' r e. length bs = 100 \<and> fifo_write F fd bs s = (s', r, e) \<longrightarrow>
      (if r = -1 then content s' = content s else content s' = content s @ bs)) \<and>
    (\<forall>fd n s s' r e bs. fd \<noteq> -1 \<and> fifo_read F fd n s = (s', r, e, bs) \<longrightarrow>
      bs = take n (content s) \<and> content s' = drop n (content s) \<and>
      (if r = -1 then content s = [] else r = int (length bs)))"

section \<open>The writer\<close>

datatype fifo_write_outcome = No_args | Not_read_yet | Write_failed | Wrote_msg "byte list"

text \<open>
  \<open>fd\<close> is what \<open>open\<close> returned, which the program does not look at, \<open>args\<close> the arguments
  after the program's name, \<open>w_buf0\<close> what the stack held. \<open>strcpy\<close> stores the argument with its
  terminator.
\<close>

definition fifo_write_main :: "'s fifo_ops \<Rightarrow> int \<Rightarrow> byte list list \<Rightarrow> kmem \<Rightarrow> 's \<Rightarrow>
    fault + 's \<times> fifo_write_outcome" where
  "fifo_write_main F fd args w_buf0 s =
    (case args of
       [] \<Rightarrow> Inr (s, No_args)
     | msg # _ \<Rightarrow>
         if 100 < length msg + 1 then Inl Oob_write
         else
           let w_buf = store w_buf0 0 (msg @ [0]);
               (s', r, e) = fifo_write F fd (load w_buf 0 100) s
           in if r = -1 then Inr (s', if e = EAGAIN then Not_read_yet else Write_failed)
              else case c_string 100 w_buf 0 of
                     Inl f \<Rightarrow> Inl f | Inr str \<Rightarrow> Inr (s', Wrote_msg str))"

section \<open>The readers\<close>

text \<open>
  One round of the loop: the buffer is cleared, 100 bytes are asked for, and the buffer is printed
  as a string whatever the read returned. The result is whether "no data yet" was
  printed, and the string.
\<close>

definition fifo_read_round :: "'s fifo_ops \<Rightarrow> int \<Rightarrow> 's \<Rightarrow> fault + 's \<times> bool \<times> byte list" where
  "fifo_read_round F fd s =
    (let (s', nread, e, bs) = fifo_read F fd 100 s;
         buf_r = (if nread = -1 then (\<lambda>_. 0) else store (\<lambda>_. 0) 0 bs)
     in case c_string 100 buf_r 0 of
          Inl f \<Rightarrow> Inl f
        | Inr str \<Rightarrow> Inr (s', nread = -1 \<and> e = EAGAIN, str))"

fun fifo_read_rounds :: "nat \<Rightarrow> 's fifo_ops \<Rightarrow> int \<Rightarrow> 's \<Rightarrow> fault + 's \<times> (bool \<times> byte list) list" where
  "fifo_read_rounds 0 F fd s = Inr (s, [])"
| "fifo_read_rounds (Suc n) F fd s =
    (case fifo_read_round F fd s of
       Inl f \<Rightarrow> Inl f
     | Inr (t, line) \<Rightarrow>
         (case fifo_read_rounds n F fd t of Inl f \<Rightarrow> Inl f | Inr (u, ls) \<Rightarrow> Inr (u, line # ls)))"

text \<open>
  \<open>main\<close> of the readers up to \<open>n\<close> rounds of the endless loop: \<open>None\<close> is the exit after a failed
  \<open>open\<close>. They differ in the flag given to \<open>open\<close> alone, so in the \<open>fd\<close> the FIFO sees.
\<close>

definition fifo_reader_main :: "nat \<Rightarrow> 's fifo_ops \<Rightarrow> int \<Rightarrow> 's \<Rightarrow>
    fault + ('s \<times> (bool \<times> byte list) list) option" where
  "fifo_reader_main n F fd s =
    (if fd = -1 then Inr None
     else case fifo_read_rounds n F fd s of Inl f \<Rightarrow> Inl f | Inr res \<Rightarrow> Inr (Some res))"

text \<open>One round of the reader that waits with \<open>select\<close>, whose result is \<open>sel\<close>.\<close>

datatype select_line = Timeout | Select_fail | Line bool "byte list"

definition fifo_select_round :: "'s fifo_ops \<Rightarrow> int \<Rightarrow> int \<Rightarrow> 's \<Rightarrow> fault + 's \<times> select_line" where
  "fifo_select_round F fd sel s =
    (if sel = 0 then Inr (s, Timeout)
     else if sel = -1 then Inr (s, Select_fail)
     else case fifo_read_round F fd s of
            Inl f \<Rightarrow> Inl f | Inr (t, again, str) \<Rightarrow> Inr (t, Line again str))"

section \<open>Frames\<close>

text \<open>What one run of the writer puts into the FIFO.\<close>

definition frame :: "kmem \<Rightarrow> byte list \<Rightarrow> byte list" where
  "frame w_buf0 msg = load (store w_buf0 0 (msg @ [0])) 0 100"

definition is_msg :: "byte list \<Rightarrow> bool" where
  "is_msg msg \<longleftrightarrow> length msg < 100 \<and> 0 \<notin> set msg"

lemma length_frame [simp]: "length (frame w msg) = 100"
  by (simp add: frame_def)

lemma c_string_message:
  assumes "is_msg msg" and "\<forall>i \<le> length msg. m i = (msg @ [0]) ! i"
  shows "c_string 100 m 0 = Inr msg"
proof -
  have "load m 0 (length msg) = msg"
    using assms(2) by (intro nth_equalityI) (auto simp: nth_append)
  moreover have "m (0 + length msg) = 0" using assms(2) by (simp add: nth_append)
  ultimately show ?thesis
    using c_string_prefix [of m 0 msg 100] assms(1) by (simp add: is_msg_def)
qed

lemma c_string_w_buf: "is_msg msg \<Longrightarrow> c_string 100 (store w 0 (msg @ [0])) 0 = Inr msg"
  by (rule c_string_message) (simp_all add: store_def)

lemma c_string_frame: "is_msg msg \<Longrightarrow> c_string 100 (store z 0 (frame w msg)) 0 = Inr msg"
  by (rule c_string_message) (auto simp: frame_def store_def is_msg_def)

text \<open>A run of the writer whose write the FIFO took.\<close>

lemma fifo_write_main_sends:
  assumes "fifo_spec F content" and "is_msg msg"
    and "fifo_write_main F fd (msg # rest) w s = Inr (s', out)"
    and "out \<noteq> Not_read_yet" and "out \<noteq> Write_failed"
  shows "out = Wrote_msg msg \<and> content s' = content s @ frame w msg"
proof -
  obtain t r e where w: "fifo_write F fd (frame w msg) s = (t, r, e)"
    by (cases "fifo_write F fd (frame w msg) s")
  have "if r = -1 then content t = content s else content t = content s @ frame w msg"
    using assms(1) w length_frame unfolding fifo_spec_def by blast
  then show ?thesis
    using assms(2-5) w c_string_w_buf [OF assms(2), of w]
    by (auto simp: fifo_write_main_def is_msg_def frame_def split: if_splits)
qed

text \<open>Several runs of the writer, each with its own message and stack.\<close>

fun fifo_writers :: "'s fifo_ops \<Rightarrow> int \<Rightarrow> (byte list \<times> kmem) list \<Rightarrow> 's \<Rightarrow>
    fault + 's \<times> fifo_write_outcome list" where
  "fifo_writers F fd [] s = Inr (s, [])"
| "fifo_writers F fd ((msg, w) # ms) s =
    (case fifo_write_main F fd [msg] w s of
       Inl f \<Rightarrow> Inl f
     | Inr (t, out) \<Rightarrow>
         (case fifo_writers F fd ms t of Inl f \<Rightarrow> Inl f | Inr (u, outs) \<Rightarrow> Inr (u, out # outs)))"

lemma fifo_writers_send:
  assumes "fifo_spec F content"
  shows "\<forall>(msg, w) \<in> set ms. is_msg msg \<Longrightarrow> fifo_writers F fd ms s = Inr (s', outs) \<Longrightarrow>
    Not_read_yet \<notin> set outs \<Longrightarrow> Write_failed \<notin> set outs \<Longrightarrow>
    content s' = content s @ concat (map (\<lambda>(msg, w). frame w msg) ms)"
proof (induction ms arbitrary: s outs)
  case Nil
  then show ?case by simp
next
  case (Cons m ms)
  obtain msg w where m: "m = (msg, w)" by (cases m)
  with Cons.prems obtain t out outs' where
    t: "fifo_write_main F fd [msg] w s = Inr (t, out)"
    and u: "fifo_writers F fd ms t = Inr (s', outs')" "outs = out # outs'"
    by (auto split: sum.splits)
  have "content t = content s @ frame w msg"
    using fifo_write_main_sends [OF assms _ t] Cons.prems m u by auto
  then show ?case
    using Cons.IH [OF _ u(1)] Cons.prems m u by simp
qed

lemma fifo_read_round_message:
  assumes "fifo_spec F content" and "fd \<noteq> -1" and "is_msg msg" and "content s = frame w msg @ later"
  shows "\<exists>t. fifo_read_round F fd s = Inr (t, False, msg) \<and> content t = later"
proof -
  obtain t r e bs where f: "fifo_read F fd 100 s = (t, r, e, bs)"
    by (cases "fifo_read F fd 100 s")
  have "bs = take 100 (content s)" "content t = drop 100 (content s)"
    "if r = -1 then content s = [] else r = int (length bs)"
    using assms(1,2) f unfolding fifo_spec_def by blast+
  moreover have "frame w msg \<noteq> []" using length_frame [of w msg] by (metis list.size(3) zero_neq_numeral)
  ultimately show ?thesis
    using assms(3,4) f c_string_frame [OF assms(3), of "\<lambda>_. 0" w]
    by (auto simp: fifo_read_round_def split: if_splits)
qed

lemma fifo_read_round_empty:
  assumes "fifo_spec F content" and "fd \<noteq> -1" and "content s = []"
  shows "\<exists>t again. fifo_read_round F fd s = Inr (t, again, []) \<and> content t = []"
proof -
  obtain t r e bs where f: "fifo_read F fd 100 s = (t, r, e, bs)"
    by (cases "fifo_read F fd 100 s")
  have "bs = take 100 (content s)" "content t = drop 100 (content s)"
    using assms(1,2) f unfolding fifo_spec_def by blast+
  moreover have "c_string 100 (\<lambda>_. 0) 0 = Inr []"
    using c_string_prefix [of "\<lambda>_. 0" 0 "[]" 100] by simp
  ultimately show ?thesis
    using assms(3) f by (auto simp: fifo_read_round_def)
qed

lemma fifo_read_rounds_messages:
  assumes "fifo_spec F content" and "fd \<noteq> -1"
  shows "\<forall>(msg, w) \<in> set ms. is_msg msg \<Longrightarrow>
    content s = concat (map (\<lambda>(msg, w). frame w msg) ms) @ later \<Longrightarrow>
    \<exists>t. fifo_read_rounds (length ms) F fd s = Inr (t, map (\<lambda>(msg, w). (False, msg)) ms) \<and>
      content t = later"
proof (induction ms arbitrary: s)
  case Nil
  then show ?case by simp
next
  case (Cons m ms)
  obtain msg w where m: "m = (msg, w)" by (cases m)
  with Cons.prems obtain t where
    t: "fifo_read_round F fd s = Inr (t, False, msg)"
    and c: "content t = concat (map (\<lambda>(msg, w). frame w msg) ms) @ later"
    using fifo_read_round_message [OF assms, of msg s w] by auto
  with Cons.IH [OF _ c] Cons.prems m show ?case by auto
qed

section \<open>Properties\<close>

text \<open>
  A list of bytes as the FIFO, which takes every write.
\<close>

definition list_fifo :: "byte list fifo_ops" where
  "list_fifo = \<lparr>fifo_write = (\<lambda>fd bs s. if fd = -1 then (s, -1, 9) else (s @ bs, int (length bs), 0)),
     fifo_read = (\<lambda>fd n s. (drop n s, int (length (take n s)), 0, take n s))\<rparr>"

lemma list_fifo_spec: "fifo_spec list_fifo id"
  by (auto simp: fifo_spec_def list_fifo_def split: if_splits)

text \<open>
  Messages arrive whole and in order: when the FIFO takes what several runs of the writer
  send, each a message of fewer than 100 bytes, the reader prints exactly these messages,
  one per round and in order, whatever was on the stacks of the writers, and the empty
  string after the last.
\<close>

lemma fifo_messages_in_order:
  assumes "fifo_spec F content" and "fd \<noteq> -1" and "content s = []"
    and "\<forall>(msg, w) \<in> set ms. length msg < 100 \<and> 0 \<notin> set msg"
    and "fifo_writers F wfd ms s = Inr (s', outs)"
    and "Not_read_yet \<notin> set outs" and "Write_failed \<notin> set outs"
  shows "\<exists>t u again. fifo_reader_main (length ms) F fd s' = Inr (Some (t, map (\<lambda>(msg, w). (False, msg)) ms)) \<and>
    fifo_read_round F fd t = Inr (u, again, [])"
proof -
  have msgs: "\<forall>(msg, w) \<in> set ms. is_msg msg" using assms(4) by (auto simp: is_msg_def)
  have "content s' = concat (map (\<lambda>(msg, w). frame w msg) ms) @ []"
    using fifo_writers_send [OF assms(1) msgs assms(5-7)] assms(3) by simp
  from fifo_read_rounds_messages [OF assms(1,2) msgs this] obtain t where
    t: "fifo_read_rounds (length ms) F fd s' = Inr (t, map (\<lambda>(msg, w). (False, msg)) ms)"
    and c: "content t = []" by blast
  with assms(2) fifo_read_round_empty [OF assms(1,2) c] show ?thesis
    by (auto simp: fifo_reader_main_def)
qed

text \<open>
  \<open>strcpy\<close> has no bound: an argument of 100 bytes or later is stored past the end of \<open>w_buf\<close>.
\<close>

lemma fifo_write_main_overflow:
  "100 \<le> length msg \<Longrightarrow> fifo_write_main F fd (msg # rest) w s = Inl Oob_write"
  by (simp add: fifo_write_main_def)

end
