(* ===== verification/Fifo_Creation.thy ===== *)
theory Fifo_Creation
  imports Kernel_Prelude
begin

unbundle bit_operations_syntax

text \<open>
  How the four readers make and open their FIFO: \<open>01-ProcessCtrl/fifo_Read.c\<close> and the readers
  \<open>fifoRead_block.c\<close>, \<open>fifoRead_nonblock.c\<close> and \<open>fifoRead_selectBlock.c\<close> under \<open>03-fileOperate/fileOperate\<close>,
  up to their loops, which are in Fifo_Programs and Fifo_Modes. The directory is the kernel's, the record
  \<open>dir_kops\<close>; \<open>dir_kspec\<close> is what \<open>mkfifo(3)\<close>, \<open>unlink(2)\<close>, \<open>open(2)\<close> and \<open>path_resolution(7)\<close> document of
  it for one process, one with fewer descriptors than the 1024 of an \<open>fd_set\<close>.
\<close>

section \<open>The directory as a parameter\<close>

abbreviation (input) EEXIST :: int where "EEXIST \<equiv> 17"

type_synonym mode_bits = "12 word"

definition O_CREAT :: mode_bits where "O_CREAT = 0x40"
definition O_EXCL :: mode_bits where "O_EXCL = 0x80"

definition S_IRUSR :: mode_bits where "S_IRUSR = 0x100"
definition S_IWUSR :: mode_bits where "S_IWUSR = 0x80"

datatype access = O_RDONLY | O_WRONLY | O_RDWR

record 'k dir_kops =
  d_unlink :: "'k \<Rightarrow> 'k"
  d_mkfifo :: "mode_bits \<Rightarrow> 'k \<Rightarrow> 'k \<times> int \<times> int"
  d_open :: "access \<Rightarrow> 'k \<Rightarrow> 'k \<times> int"

text \<open>
  What the process sees: the mode of \<open>./myfifo\<close> when it is there (the process being its owner), whether it may
  ignore modes, and its file creation mask.
\<close>

record dir_view =
  myfifo :: "mode_bits option"
  privileged :: bool
  umask :: mode_bits

definition reads :: "access \<Rightarrow> bool" where
  "reads a \<longleftrightarrow> a \<noteq> O_WRONLY"

definition writes :: "access \<Rightarrow> bool" where
  "writes a \<longleftrightarrow> a \<noteq> O_RDONLY"

definition granted :: "dir_view \<Rightarrow> access \<Rightarrow> bool" where
  "granted v a \<longleftrightarrow>
    (case myfifo v of
       None \<Rightarrow> False
     | Some m \<Rightarrow> privileged v \<or> (reads a \<longrightarrow> m AND S_IRUSR \<noteq> 0) \<and> (writes a \<longrightarrow> m AND S_IWUSR \<noteq> 0))"

text \<open>
  Every call may fail, for whatever reason, and then leaves the FIFO as it is. \<open>mkfifo\<close> makes a FIFO only where
  there is none, \<open>open\<close> succeeds only when it is granted.
\<close>

definition dir_kspec :: "'k dir_kops \<Rightarrow> ('k \<Rightarrow> dir_view) \<Rightarrow> bool" where
  "dir_kspec D view \<longleftrightarrow>
    (\<forall>k. view (d_unlink D k) = (view k)\<lparr>myfifo := None\<rparr> \<or> view (d_unlink D k) = view k) \<and>
    (\<forall>m k k' r e. d_mkfifo D m k = (k', r, e) \<longrightarrow>
      r = 0 \<and> myfifo (view k) = None \<and> view k' = (view k)\<lparr>myfifo := Some (m AND NOT (umask (view k)))\<rparr> \<or>
      r = -1 \<and> view k' = view k) \<and>
    (\<forall>a k k' fd. d_open D a k = (k', fd) \<longrightarrow>
      view k' = view k \<and> (fd = -1 \<or> 0 \<le> fd \<and> fd < 1024 \<and> granted (view k) a))"

text \<open>
  A directory in which no call fails but \<open>mkfifo\<close> of a name that is there and an \<open>open\<close> that is not granted.
\<close>

definition dir_reliable :: "'k dir_kops \<Rightarrow> ('k \<Rightarrow> dir_view) \<Rightarrow> bool" where
  "dir_reliable D view \<longleftrightarrow>
    (\<forall>k. myfifo (view (d_unlink D k)) = None) \<and>
    (\<forall>m k k' r e. d_mkfifo D m k = (k', r, e) \<longrightarrow> r = 0 \<or> e = EEXIST \<and> myfifo (view k) \<noteq> None) \<and>
    (\<forall>a k k' fd. d_open D a k = (k', fd) \<longrightarrow> granted (view k) a \<longrightarrow> fd \<noteq> -1)"

section \<open>The programs up to their loops\<close>

datatype fifo_start_line = Cannot_create | Preparing | Open_failed

datatype fifo_start_end = Exit_1 | Enters_loop int

text \<open>\<open>01-ProcessCtrl/fifo_Read.c\<close>.\<close>

definition fifo_Read_start :: "'k dir_kops \<Rightarrow> 'k \<Rightarrow> 'k \<times> fifo_start_line list \<times> fifo_start_end" where
  "fifo_Read_start D k =
    (let (k1, r, e) = d_mkfifo D (O_CREAT OR O_EXCL) k;
         ls = (if r < 0 \<and> e \<noteq> EEXIST then [Cannot_create] else []) @ [Preparing];
         (k2, fd) = d_open D O_RDONLY k1
     in if fd = -1 then (k2, ls @ [Open_failed], Exit_1) else (k2, ls, Enters_loop fd))"

text \<open>\<open>block_ synchronous/fifoRead_block.c\<close>; the open without \<open>O_NONBLOCK\<close> is here when it has returned.\<close>

definition fifoRead_block_start :: "'k dir_kops \<Rightarrow> 'k \<Rightarrow> 'k \<times> fifo_start_line list \<times> fifo_start_end" where
  "fifoRead_block_start D k =
    (let (k1, r, e) = d_mkfifo D (O_CREAT OR O_EXCL) k;
         ls = (if r < 0 \<and> e \<noteq> EEXIST then [Cannot_create] else []) @ [Preparing];
         (k2, fd) = d_open D O_RDONLY k1
     in if fd = -1 then (k2, ls @ [Open_failed], Exit_1) else (k2, ls, Enters_loop fd))"

text \<open>\<open>nonblock_ synchronous/fifoRead_nonblock.c\<close>.\<close>

definition fifoRead_nonblock_start :: "'k dir_kops \<Rightarrow> 'k \<Rightarrow> 'k \<times> fifo_start_line list \<times> fifo_start_end" where
  "fifoRead_nonblock_start D k =
    (let (k1, r, e) = d_mkfifo D (O_CREAT OR O_EXCL) k;
         ls = (if r < 0 \<and> e \<noteq> EEXIST then [Cannot_create] else []) @ [Preparing];
         (k2, fd) = d_open D O_RDONLY k1
     in if fd = -1 then (k2, ls @ [Open_failed], Exit_1) else (k2, ls, Enters_loop fd))"

text \<open>
  \<open>block_ asynchronous/fifoRead_selectBlock.c\<close>, which removes the FIFO first and opens it for writing too.
  Between \<open>open\<close> and its test the program puts the descriptor into its set; \<open>FD_SET\<close> outside 0 to 1023 is
  undefined and counts as a store outside the set.
\<close>

definition fifoRead_select_start :: "'k dir_kops \<Rightarrow> 'k \<Rightarrow> fault + 'k \<times> fifo_start_line list \<times> fifo_start_end" where
  "fifoRead_select_start D k =
    (let (k1, r, e) = d_mkfifo D (O_CREAT OR O_EXCL) (d_unlink D k);
         ls = (if r < 0 \<and> e \<noteq> EEXIST then [Cannot_create] else []) @ [Preparing];
         (k2, fd) = d_open D O_RDWR k1
     in if fd < 0 \<or> 1024 \<le> fd then Inl Oob_write
        else Inr (if fd = -1 then (k2, ls @ [Open_failed], Exit_1) else (k2, ls, Enters_loop fd)))"

lemmas start_defs = fifo_Read_start_def fifoRead_block_start_def fifoRead_nonblock_start_def

section \<open>What the mode allows\<close>

text \<open>
  The flags of \<open>open\<close> are given where the permissions of the new FIFO are wanted: as permissions they
  are 0300, write and execute for the owner, whatever the mask takes away.
\<close>

lemma creation_mode: "O_CREAT OR O_EXCL = 0xC0"
  by (simp add: O_CREAT_def O_EXCL_def)

lemma created_unreadable: "((O_CREAT OR O_EXCL) AND NOT u) AND S_IRUSR = 0"
proof -
  have "((O_CREAT OR O_EXCL) AND NOT u) AND S_IRUSR = ((O_CREAT OR O_EXCL) AND S_IRUSR) AND NOT u"
    by (simp only: ac_simps)
  also have "(O_CREAT OR O_EXCL) AND S_IRUSR = 0" by (simp add: O_CREAT_def O_EXCL_def S_IRUSR_def)
  finally show ?thesis by simp
qed

lemma created_writable:
  assumes "u AND S_IWUSR = 0"
  shows "((O_CREAT OR O_EXCL) AND NOT u) AND S_IWUSR \<noteq> 0"
proof -
  have "bit (u AND S_IWUSR) 7 = bit u 7" by (simp add: S_IWUSR_def bit_simps)
  then have "\<not> bit u 7" using assms by simp
  then have "bit (((O_CREAT OR O_EXCL) AND NOT u) AND S_IWUSR) 7"
    by (simp add: O_CREAT_def O_EXCL_def S_IWUSR_def bit_simps)
  then show ?thesis by auto
qed

section \<open>The first and every later start\<close>

text \<open>A FIFO there that its owner may read, or write too.\<close>

definition readable :: "dir_view \<Rightarrow> bool" where
  "readable v \<longleftrightarrow> privileged v \<or> (\<exists>m. myfifo v = Some m \<and> m AND S_IRUSR \<noteq> 0)"

text \<open>What \<open>mkfifo\<close> makes is not readable, so it changes nothing in this.\<close>

lemma dspec_mkfifo:
  assumes "dir_kspec D view" and "d_mkfifo D (O_CREAT OR O_EXCL) k = (k', r, e)"
  shows "readable (view k') = readable (view k)" and "privileged (view k') = privileged (view k)"
    and "myfifo (view k) = None \<Longrightarrow> myfifo (view k') = Some m \<Longrightarrow> m = (O_CREAT OR O_EXCL) AND NOT (umask (view k))"
    and "myfifo (view k) \<noteq> None \<Longrightarrow> view k' = view k" and "r = 0 \<Longrightarrow> myfifo (view k') \<noteq> None"
proof -
  have a: "r = 0 \<and> myfifo (view k) = None \<and>
        view k' = (view k)\<lparr>myfifo := Some ((O_CREAT OR O_EXCL) AND NOT (umask (view k)))\<rparr> \<or>
      r = -1 \<and> view k' = view k"
    using assms unfolding dir_kspec_def by blast
  then show "readable (view k') = readable (view k)" "privileged (view k') = privileged (view k)"
    by (auto simp: readable_def created_unreadable)
  show "myfifo (view k) = None \<Longrightarrow> myfifo (view k') = Some m \<Longrightarrow> m = (O_CREAT OR O_EXCL) AND NOT (umask (view k))"
    and "myfifo (view k) \<noteq> None \<Longrightarrow> view k' = view k" and "r = 0 \<Longrightarrow> myfifo (view k') \<noteq> None"
    using a by auto
qed

lemma dspec_open:
  assumes "dir_kspec D view" and "d_open D a k = (k', fd)"
  shows "view k' = view k" and "fd \<noteq> -1 \<Longrightarrow> 0 \<le> fd \<and> fd < 1024 \<and> granted (view k) a"
  using assms unfolding dir_kspec_def by blast+

lemma granted_readable: "granted v O_RDONLY \<Longrightarrow> readable v"
  by (auto simp: granted_def readable_def reads_def split: option.splits)

text \<open>
  One start of a reader that opens for reading: the lines, the end, and what it leaves.
\<close>

definition starts :: "'k dir_kops \<Rightarrow> ('k \<Rightarrow> dir_view) \<Rightarrow> 'k \<Rightarrow> 'k \<times> fifo_start_line list \<times> fifo_start_end \<Rightarrow> bool" where
  "starts D view k res \<longleftrightarrow>
    (case d_mkfifo D (O_CREAT OR O_EXCL) k of (k1, r, e) \<Rightarrow>
      (let ls = (if r < 0 \<and> e \<noteq> EEXIST then [Cannot_create, Preparing] else [Preparing]) in
       case res of (k', ls', out) \<Rightarrow> view k' = view k1 \<and>
         (out = Exit_1 \<and> ls' = ls @ [Open_failed] \<or> (\<exists>fd. 0 \<le> fd \<and> out = Enters_loop fd \<and> ls' = ls)) \<and>
         (\<not> readable (view k) \<longrightarrow> out = Exit_1 \<and> \<not> readable (view k')) \<and>
         (dir_reliable D view \<and> readable (view k) \<longrightarrow> out \<noteq> Exit_1 \<and> ls' = [Preparing])))"

lemma reader_starts:
  assumes "dir_kspec D view"
  shows "starts D view k (fifo_Read_start D k)"
proof -
  obtain k1 r e where 1: "d_mkfifo D (O_CREAT OR O_EXCL) k = (k1, r, e)" by (cases "d_mkfifo D (O_CREAT OR O_EXCL) k")
  obtain k2 fd where 2: "d_open D O_RDONLY k1 = (k2, fd)" by (cases "d_open D O_RDONLY k1")
  note m = dspec_mkfifo [OF assms 1] and o2 = dspec_open [OF assms 2]
  have un: "fd = -1" if "\<not> readable (view k)" using that m(1) o2(2) granted_readable by blast
  have ok: "fd \<noteq> -1 \<and> \<not> (r < 0 \<and> e \<noteq> EEXIST)" if rel: "dir_reliable D view" and "readable (view k)"
  proof -
    have r: "r = 0 \<or> e = EEXIST \<and> myfifo (view k) \<noteq> None"
      using rel 1 unfolding dir_reliable_def by blast
    then have "myfifo (view k1) \<noteq> None" using m(4,5) by metis
    then have "granted (view k1) O_RDONLY"
      using that(2) m(1) by (auto simp: granted_def readable_def reads_def writes_def)
    then have "fd \<noteq> -1" using rel 2 unfolding dir_reliable_def by blast
    with r show ?thesis by auto
  qed
  show ?thesis
    unfolding starts_def fifo_Read_start_def 1 2
    using un ok m(1) o2 by (auto simp: 1 2 Let_def)
qed

lemma readers_agree: "fifoRead_block_start D k = fifo_Read_start D k" "fifoRead_nonblock_start D k = fifo_Read_start D k"
  by (simp_all add: start_defs)

text \<open>The reader with \<open>select\<close>.\<close>

lemma select_starts:
  assumes "dir_kspec D view"
  shows "fifoRead_select_start D k = Inl Oob_write \<or>
    (\<exists>k' ls fd. fifoRead_select_start D k = Inr (k', ls, Enters_loop fd) \<and>
      (privileged (view k) \<or> (\<exists>m. myfifo (view (d_unlink D k)) = Some m \<and> m AND S_IRUSR \<noteq> 0 \<and> m AND S_IWUSR \<noteq> 0)))"
    and "dir_reliable D view \<Longrightarrow> privileged (view k) \<Longrightarrow>
      \<exists>k' fd. fifoRead_select_start D k = Inr (k', [Preparing], Enters_loop fd)"
proof -
  let ?k = "d_unlink D k"
  obtain k1 r e where 1: "d_mkfifo D (O_CREAT OR O_EXCL) ?k = (k1, r, e)" by (cases "d_mkfifo D (O_CREAT OR O_EXCL) ?k")
  obtain k2 fd where 2: "d_open D O_RDWR k1 = (k2, fd)" by (cases "d_open D O_RDWR k1")
  note m = dspec_mkfifo [OF assms 1] and o2 = dspec_open [OF assms 2]
  have "view ?k = (view k)\<lparr>myfifo := None\<rparr> \<or> view ?k = view k" using assms unfolding dir_kspec_def by blast
  then have p: "privileged (view k1) = privileged (view k)" using m(2) by auto
  have g: "privileged (view k) \<or> (\<exists>m. myfifo (view ?k) = Some m \<and> m AND S_IRUSR \<noteq> 0 \<and> m AND S_IWUSR \<noteq> 0)"
    if "fd \<noteq> -1"
  proof -
    have "granted (view k1) O_RDWR" using o2(2) that by blast
    then obtain b where b: "myfifo (view k1) = Some b"
      "privileged (view k1) \<or> b AND S_IRUSR \<noteq> 0 \<and> b AND S_IWUSR \<noteq> 0"
      by (auto simp: granted_def reads_def writes_def split: option.splits)
    show ?thesis
    proof (cases "myfifo (view ?k)")
      case None
      then have "b AND S_IRUSR = 0" using m(3) [OF None b(1)] created_unreadable by simp
      with b(2) p show ?thesis by simp
    next
      case (Some c)
      then have "view k1 = view ?k" using m(4) by simp
      with b p show ?thesis by auto
    qed
  qed
  show "fifoRead_select_start D k = Inl Oob_write \<or>
    (\<exists>k' ls fd. fifoRead_select_start D k = Inr (k', ls, Enters_loop fd) \<and>
      (privileged (view k) \<or> (\<exists>m. myfifo (view ?k) = Some m \<and> m AND S_IRUSR \<noteq> 0 \<and> m AND S_IWUSR \<noteq> 0)))"
    using g o2(2) by (cases "fd = -1") (auto simp: fifoRead_select_start_def 1 2)
  show "\<exists>k' fd. fifoRead_select_start D k = Inr (k', [Preparing], Enters_loop fd)"
    if rel: "dir_reliable D view" and pr: "privileged (view k)"
  proof -
    have "myfifo (view ?k) = None" using rel unfolding dir_reliable_def by blast
    moreover have "r = 0 \<or> e = EEXIST \<and> myfifo (view ?k) \<noteq> None" using rel 1 unfolding dir_reliable_def by blast
    ultimately have r: "r = 0" by blast
    then have "myfifo (view k1) \<noteq> None" by (rule m(5))
    then have "granted (view k1) O_RDWR" using pr p by (auto simp: granted_def)
    then have "fd \<noteq> -1" using rel 2 unfolding dir_reliable_def by blast
    then show ?thesis using r o2(2) by (auto simp: fifoRead_select_start_def 1 2)
  qed
qed

section \<open>Directories that meet the contract\<close>

text \<open>One in which nothing else fails, and one that is full: \<open>mkfifo\<close> fails with \<open>ENOSPC\<close>.\<close>

definition plain_dir :: "dir_view dir_kops" where
  "plain_dir = \<lparr>
    d_unlink = (\<lambda>v. v\<lparr>myfifo := None\<rparr>),
    d_mkfifo = (\<lambda>m v. case myfifo v of
        None \<Rightarrow> (v\<lparr>myfifo := Some (m AND NOT (umask v))\<rparr>, 0, 0) | Some m' \<Rightarrow> (v, -1, EEXIST)),
    d_open = (\<lambda>a v. (v, if granted v a then 3 else -1))\<rparr>"

definition full_dir :: "dir_view dir_kops" where
  "full_dir = plain_dir\<lparr>d_mkfifo := (\<lambda>m v. (v, -1, 28))\<rparr>"

lemma plain_dir_spec: "dir_kspec plain_dir (\<lambda>v. v)" "dir_reliable plain_dir (\<lambda>v. v)"
  by (auto simp: dir_kspec_def dir_reliable_def plain_dir_def split: option.splits)

lemma full_dir_spec: "dir_kspec full_dir (\<lambda>v. v)"
  by (auto simp: dir_kspec_def full_dir_def plain_dir_def)

section \<open>Properties\<close>

text \<open>
  C31. Who can read the FIFO, whatever calls fail. Each of the three readers that open it for reading
  prints "cannot create" exactly when \<open>mkfifo\<close> failed otherwise than for a name that is there, says that it
  prepares, and then enters its loop or, when \<open>open\<close> failed, exits with 1. It enters the loop only
  if the process may ignore modes or a FIFO that its owner may read was there already: what it makes itself no
  owner can read. So without these this start and every later one ends with 1. With them, and
  when no call fails that need not, it enters the loop. The reader with \<open>select\<close>, which removes
  the FIFO and opens it for writing too, enters its loop only if privileged or when the removal failed and the
  FIFO there is readable and writable; otherwise it calls \<open>FD_SET\<close> with -1 before it looks at the descriptor.
\<close>

theorem fifo_readers_start:
  assumes "dir_kspec D view" and "start \<in> {fifo_Read_start, fifoRead_block_start, fifoRead_nonblock_start}"
  shows "(\<exists>k' ls out. start D k = (k', ls, out) \<and>
      (out = Exit_1 \<or> (\<exists>fd. 0 \<le> fd \<and> out = Enters_loop fd)) \<and>
      (Cannot_create \<in> set ls \<longleftrightarrow> (case d_mkfifo D (O_CREAT OR O_EXCL) k of (k1, r, e) \<Rightarrow> r < 0 \<and> e \<noteq> EEXIST)) \<and>
      Preparing \<in> set ls \<and> (Open_failed \<in> set ls \<longleftrightarrow> out = Exit_1) \<and>
      (dir_reliable D view \<and> (privileged (view k) \<or> (\<exists>m. myfifo (view k) = Some m \<and> m AND S_IRUSR \<noteq> 0)) \<longrightarrow>
        out \<noteq> Exit_1)) \<and>
    (\<not> privileged (view k) \<and> (\<forall>m. myfifo (view k) = Some m \<longrightarrow> m AND S_IRUSR = 0) \<longrightarrow>
      (\<forall>n. snd (snd (start D (((\<lambda>k. fst (start D k)) ^^ n) k))) = Exit_1)) \<and>
    (fifoRead_select_start D k = Inl Oob_write \<or>
     (\<exists>k' ls fd. fifoRead_select_start D k = Inr (k', ls, Enters_loop fd) \<and>
       (privileged (view k) \<or>
        (\<exists>m. myfifo (view (d_unlink D k)) = Some m \<and> m AND S_IRUSR \<noteq> 0 \<and> m AND S_IWUSR \<noteq> 0)))) \<and>
    (dir_reliable D view \<and> privileged (view k) \<longrightarrow>
      (\<exists>k' fd. fifoRead_select_start D k = Inr (k', [Preparing], Enters_loop fd)))"
proof -
  have st: "start = fifo_Read_start" using assms(2) by (auto simp: readers_agree fun_eq_iff)
  have s: "starts D view k (start D k)" for k unfolding st by (rule reader_starts [OF assms(1)])
  have un: "\<not> readable (view (((\<lambda>k. fst (start D k)) ^^ n) k))" if "\<not> readable (view k)" for n
  proof (induction n)
    case 0
    show ?case using that by simp
  next
    case (Suc n)
    with s [of "((\<lambda>k. fst (start D k)) ^^ n) k"] show ?case
      by (auto simp: starts_def Let_def split: prod.splits)
  qed
  have "snd (snd (start D (((\<lambda>k. fst (start D k)) ^^ n) k))) = Exit_1" if "\<not> readable (view k)" for n
    using s [of "((\<lambda>k. fst (start D k)) ^^ n) k"] un [OF that, of n] by (auto simp: starts_def Let_def split: prod.splits)
  moreover have "\<exists>k' ls out. start D k = (k', ls, out) \<and>
      (out = Exit_1 \<or> (\<exists>fd. 0 \<le> fd \<and> out = Enters_loop fd)) \<and>
      (Cannot_create \<in> set ls \<longleftrightarrow> (case d_mkfifo D (O_CREAT OR O_EXCL) k of (k1, r, e) \<Rightarrow> r < 0 \<and> e \<noteq> EEXIST)) \<and>
      Preparing \<in> set ls \<and> (Open_failed \<in> set ls \<longleftrightarrow> out = Exit_1) \<and>
      (dir_reliable D view \<and> readable (view k) \<longrightarrow> out \<noteq> Exit_1)"
    using s [of k] by (cases "start D k") (auto simp: starts_def Let_def split: prod.splits if_splits)
  ultimately show ?thesis
    using select_starts [OF assms(1), of k] unfolding readable_def by blast
qed

text \<open>The witness: an unprivileged user in an empty directory, and in one that is full.\<close>

theorem fifo_readers_start_witness:
  "(\<forall>n. snd (snd (fifo_Read_start plain_dir (((\<lambda>k. fst (fifo_Read_start plain_dir k)) ^^ n)
      \<lparr>myfifo = None, privileged = False, umask = 0x12\<rparr>))) = Exit_1) \<and>
    (\<exists>k' ls out. fifo_Read_start full_dir \<lparr>myfifo = None, privileged = False, umask = 0x12\<rparr> = (k', ls, out) \<and>
      Cannot_create \<in> set ls)"
proof -
  let ?v = "\<lparr>myfifo = None, privileged = False, umask = 0x12\<rparr>"
  have m: "d_mkfifo full_dir (O_CREAT OR O_EXCL) ?v = (?v, -1, 28)" by (simp add: full_dir_def)
  show ?thesis
    using fifo_readers_start [OF plain_dir_spec(1), of fifo_Read_start ?v]
      fifo_readers_start [OF full_dir_spec, of fifo_Read_start ?v] unfolding m by auto
qed

end
