(* ===== verification/Fifo_Modes.thy ===== *)
theory Fifo_Modes
  imports Fifo_Programs Scheduler
begin

text \<open>
  The three ways of waiting for a FIFO under \<open>03-fileOperate/fileOperate\<close>: the reader of
  \<open>block_ synchronous\<close> opens and reads blocking, the reader of \<open>nonblock_ synchronous\<close> polls, and
  the reader of \<open>block_ asynchronous\<close> waits with \<open>select\<close> on a descriptor that is open for writing
  too. Fifo_Programs has the rounds of their loops over given descriptors; here opening, waiting
  and closing are steps, interleaved with one run of the writer \<open>fifo_write.c\<close> that lies beside the
  reader, each of the three in a definition of its own.

  The FIFO is the kernel's, the record \<open>fifo_kops\<close>; what \<open>fifo(7)\<close> documents is \<open>fifo_kspec\<close> over a
  view: the content, how many descriptors are open at each end, and whether a writer has
  opened it so far, which is what a blocking \<open>open\<close> waits for.
\<close>

section \<open>The FIFO as a parameter\<close>




section \<open>The processes\<close>


datatype fm_line = Read_line bool "byte list" | Timeout_line | Overrun

datatype fm_rpc = F_open | F_opening | F_loop | F_exit













section \<open>The invariant\<close>

fun text_of :: "fm_line \<Rightarrow> byte list" where
  "text_of (Read_line again str) = str"
| "text_of l = []"

definition texts :: "fm_line list \<Rightarrow> byte list list" where
  "texts ls = filter (\<lambda>str. str \<noteq> []) (map text_of ls)"




definition joined :: "fm_rpc \<Rightarrow> bool" where
  "joined pc \<longleftrightarrow> pc = F_opening \<or> pc = F_loop"

lemma joined_simps [simp]: "joined F_opening" "joined F_loop" "\<not> joined F_open" "\<not> joined F_exit"
  by (simp_all add: joined_def)




lemma texts_snoc [simp]: "texts (ls @ [l]) = texts ls @ (if text_of l = [] then [] else [text_of l])"
  by (simp add: texts_def)

lemma frame_not_Nil [simp]: "frame w msg \<noteq> []" "[] \<noteq> frame w msg"
  using length_frame [of w msg] by (metis list.size(3) zero_neq_numeral)+















section \<open>A FIFO that meets its contract\<close>





section \<open>Properties\<close>



end
