(* ===== verification/Tcp_Programs.thy ===== *)
theory Tcp_Programs
  imports Kernel_Prelude
begin

text \<open>
  The TCP programs \<open>09-TCP/tcp_client.c\<close> and \<open>tcp_server.c\<close>. The results of the socket calls
  are arguments: a client is given what each call returned and its standard input, the server
  what \<open>socket\<close>, \<open>bind\<close> and \<open>listen\<close> returned and the connections that arrive, each with
  what its one \<open>read\<close> delivers.
\<close>

section \<open>The client\<close>

datatype client_exit = Usage | No_host | No_socket | No_connection | Sent "byte list"

record client_env =
  argc :: int
  host_found :: bool
  sockfd :: int
  connected :: int
  stdin :: "byte list"
  cbuffer0 :: kmem

text \<open>\<open>fgets(buffer, n, stdin)\<close>: at most \<open>n - 1\<close> bytes, up to and with the first newline.\<close>

fun upto_newline :: "byte list \<Rightarrow> byte list" where
  "upto_newline [] = []"
| "upto_newline (b # bs) = (if b = 10 then [b] else b # upto_newline bs)"

definition fgets_line :: "nat \<Rightarrow> byte list \<Rightarrow> byte list" where
  "fgets_line n input = take (n - 1) (upto_newline input)"

text \<open>
  The line goes into the buffer with a terminator; at the end of input nothing is stored and
  the buffer is what the stack held. What is sent is the buffer up to its first 0.
\<close>

definition tcp_client_main :: "client_env \<Rightarrow> fault + client_exit" where
  "tcp_client_main env =
    (if argc env \<noteq> 2 then Inr Usage
     else if \<not> host_found env then Inr No_host
     else if sockfd env = -1 then Inr No_socket
     else if connected env = -1 then Inr No_connection
     else
       let line = fgets_line 1024 (stdin env);
           buffer = (if stdin env = [] then cbuffer0 env else store (cbuffer0 env) 0 (line @ [0]))
       in case c_string 1024 buffer 0 of Inl f \<Rightarrow> Inl f | Inr str \<Rightarrow> Inr (Sent str))"

section \<open>The server\<close>

datatype connection = Accept_error | Read_error | Data "byte list"

datatype server_exit =
  Socket_error | Bind_error | Listen_error | Accept_exit | Read_exit | Waiting

text \<open>
  One round of the loop on the data of a connection, at most 1024 bytes: \<open>buffer[nbytes] = 0\<close>
  is a store at index \<open>nbytes\<close> of 1024, then the buffer is printed as a string.
\<close>

definition server_round :: "kmem \<Rightarrow> byte list \<Rightarrow> fault + kmem \<times> byte list" where
  "server_round buffer received =
    (let nbytes = length received in
     if 1024 \<le> nbytes then Inl Oob_write
     else
       let buffer1 = store (store buffer 0 received) nbytes [0]
       in case c_string 1024 buffer1 0 of Inl f \<Rightarrow> Inl f | Inr str \<Rightarrow> Inr (buffer1, str))"

text \<open>The loop over the connections, with the lines printed; it never ends by itself.\<close>

fun server_loop :: "kmem \<Rightarrow> connection list \<Rightarrow> fault + server_exit \<times> byte list list" where
  "server_loop buffer [] = Inr (Waiting, [])"
| "server_loop buffer (Accept_error # cs) = Inr (Accept_exit, [])"
| "server_loop buffer (Read_error # cs) = Inr (Read_exit, [])"
| "server_loop buffer (Data received # cs) =
    (case server_round buffer (take 1024 received) of
       Inl f \<Rightarrow> Inl f
     | Inr (buffer1, str) \<Rightarrow>
         (case server_loop buffer1 cs of Inl f \<Rightarrow> Inl f | Inr (e, strs) \<Rightarrow> Inr (e, str # strs)))"

definition tcp_server_main :: "int \<Rightarrow> int \<Rightarrow> int \<Rightarrow> kmem \<Rightarrow> connection list \<Rightarrow>
    fault + server_exit \<times> byte list list" where
  "tcp_server_main sock bound listening buffer cs =
    (if sock = -1 then Inr (Socket_error, [])
     else if bound = -1 then Inr (Bind_error, [])
     else if listening = -1 then Inr (Listen_error, [])
     else server_loop buffer cs)"

section \<open>Lines through the buffers\<close>

definition is_line :: "byte list \<Rightarrow> bool" where
  "is_line bs \<longleftrightarrow> bs \<noteq> [] \<and> length bs \<le> 1023 \<and> 0 \<notin> set bs \<and> upto_newline bs = bs"

lemma c_string_1024:
  assumes "length bs \<le> 1023" and "0 \<notin> set bs" and "\<forall>i \<le> length bs. m i = (bs @ [0]) ! i"
  shows "c_string 1024 m 0 = Inr bs"
proof -
  have "load m 0 (length bs) = bs"
    using assms(3) by (intro nth_equalityI) (auto simp: nth_append)
  moreover have "m (0 + length bs) = 0" using assms(3) by (simp add: nth_append)
  ultimately show ?thesis
    using c_string_prefix [of m 0 bs 1024] assms(1,2) by simp
qed

lemma tcp_client_sends_line:
  assumes "argc env = 2" and "host_found env" and "sockfd env \<noteq> -1" and "connected env \<noteq> -1"
    and "stdin env \<noteq> []" and "0 \<notin> set (fgets_line 1024 (stdin env))"
  shows "tcp_client_main env = Inr (Sent (fgets_line 1024 (stdin env)))"
proof -
  have "c_string 1024 (store (cbuffer0 env) 0 (fgets_line 1024 (stdin env) @ [0])) 0 =
      Inr (fgets_line 1024 (stdin env))"
    by (rule c_string_1024) (use assms(6) in \<open>auto simp: fgets_line_def store_def\<close>)
  with assms show ?thesis by (simp add: tcp_client_main_def Let_def)
qed

lemma server_round_line:
  assumes "length bs \<le> 1023" and "0 \<notin> set bs"
  shows "\<exists>buffer1. server_round buffer bs = Inr (buffer1, bs)"
proof -
  have "c_string 1024 (store (store buffer 0 bs) (length bs) [0]) 0 = Inr bs"
    by (rule c_string_1024) (use assms in \<open>auto simp: store_def nth_append\<close>)
  with assms show ?thesis by (simp add: server_round_def Let_def)
qed

lemma server_loop_lines:
  "\<forall>bs \<in> set ms. length bs \<le> 1023 \<and> 0 \<notin> set bs \<Longrightarrow>
    server_loop buffer (map Data ms) = Inr (Waiting, ms)"
proof (induction ms arbitrary: buffer)
  case Nil
  then show ?case by simp
next
  case (Cons bs ms)
  then obtain buffer1 where "server_round buffer bs = Inr (buffer1, bs)"
    using server_round_line by force
  with Cons show ?case by simp
qed

section \<open>Properties\<close>

text \<open>
  What clients send the server prints: for any number of clients that reach it, each with
  an input line without a zero byte, the server prints exactly their lines, cut at 1023 bytes,
  in the order of the connections, when each read delivers what the client sent.
\<close>

lemma tcp_lines_are_printed:
  assumes "sock \<noteq> -1" and "bound \<noteq> -1" and "listening \<noteq> -1"
    and "\<forall>env \<in> set envs. argc env = 2 \<and> host_found env \<and> sockfd env \<noteq> -1 \<and> connected env \<noteq> -1 \<and>
      stdin env \<noteq> [] \<and> 0 \<notin> set (stdin env)"
  shows "\<exists>sent. map tcp_client_main envs = map (\<lambda>bs. Inr (Sent bs)) sent \<and>
    sent = map (\<lambda>env. take 1023 (upto_newline (stdin env))) envs \<and>
    tcp_server_main sock bound listening buffer (map Data sent) = Inr (Waiting, sent)"
proof -
  let ?line = "\<lambda>env. take 1023 (upto_newline (stdin env))"
  have sub: "set (upto_newline bs) \<subseteq> set bs" for bs by (induction bs) auto
  have z: "0 \<notin> set (?line env)" if "env \<in> set envs" for env
    using assms(4) that sub [of "stdin env"] by (auto dest: in_set_takeD)
  have "tcp_client_main env = Inr (Sent (?line env))" if "env \<in> set envs" for env
    using tcp_client_sends_line [of env] assms(4) z [OF that] that by (auto simp: fgets_line_def)
  then have "map tcp_client_main envs = map (\<lambda>bs. Inr (Sent bs)) (map ?line envs)" by simp
  moreover have "server_loop buffer (map Data (map ?line envs)) = Inr (Waiting, map ?line envs)"
    by (rule server_loop_lines) (use z in auto)
  ultimately show ?thesis using assms(1-3) by (simp add: tcp_server_main_def)
qed

text \<open>
  A peer that sends 1024 bytes or more makes the server store past its buffer: the read may
  fill all of it, and the terminator goes one byte behind. With fewer bytes no round faults.
\<close>

lemma tcp_server_overflow_iff:
  assumes "sock \<noteq> -1" and "bound \<noteq> -1" and "listening \<noteq> -1" and "0 \<notin> set received"
  shows "tcp_server_main sock bound listening buffer [Data received] = Inl Oob_write \<longleftrightarrow>
    1024 \<le> length received"
proof (cases "1024 \<le> length received")
  case True
  with assms show ?thesis by (simp add: tcp_server_main_def server_round_def)
next
  case False
  then obtain buffer1 where "server_round buffer received = Inr (buffer1, received)"
    using server_round_line [of received] assms(4) by force
  with False assms(1-3) show ?thesis by (simp add: tcp_server_main_def)
qed

end
