(* ===== verification/Tcp_System.thy ===== *)
theory Tcp_System
  imports Tcp_Programs Scheduler "HOL-Library.Sublist"
begin

text \<open>
  The server of \<open>09-TCP/tcp_server.c\<close> with any number of clients (\<open>tcp_client.c\<close>) that run at once. The
  network is a parameter: a record of the socket calls, whose documented behaviour \<open>net_spec\<close> states over
  a view of the connections that wait and of the bytes under way. TCP is a stream: a read delivers
  some of the bytes that have arrived, and nothing says how many; and every call may fail.
\<close>

section \<open>The network\<close>

record net_view =
  nv_queue :: "nat list"
  nv_sent :: "nat \<Rightarrow> byte list"
  nv_closed :: "nat \<Rightarrow> bool"

text \<open>
  A connection has the number of the client that made it. \<open>connect\<close> gives its return value; an
  \<open>accept\<close> or \<open>read\<close> that gives \<open>None\<close> blocks, one that gives \<open>Some (None, n)\<close> has failed with -1; a
  read of nothing is the end of the stream.
\<close>

record 'n net_ops =
  n_connect :: "nat \<Rightarrow> 'n \<Rightarrow> int \<times> 'n"
  n_write :: "nat \<Rightarrow> byte list \<Rightarrow> 'n \<Rightarrow> 'n"
  n_close :: "nat \<Rightarrow> 'n \<Rightarrow> 'n"
  n_accept :: "'n \<Rightarrow> (nat option \<times> 'n) option"
  n_read :: "nat \<Rightarrow> nat \<Rightarrow> 'n \<Rightarrow> (byte list option \<times> 'n) option"
  n_drop :: "nat \<Rightarrow> 'n \<Rightarrow> 'n"

definition net_spec :: "'n net_ops \<Rightarrow> ('n \<Rightarrow> net_view) \<Rightarrow> bool" where
  "net_spec P view \<longleftrightarrow>
    (\<forall>i n. case n_connect P i n of (r, n') \<Rightarrow> view n' = (if r = -1 then view n else
      \<lparr>nv_queue = nv_queue (view n) @ [i], nv_sent = (nv_sent (view n))(i := []),
       nv_closed = (nv_closed (view n))(i := False)\<rparr>)) \<and>
    (\<forall>i bs n. \<exists>bs'. prefix bs' bs \<and> view (n_write P i bs n) = \<lparr>nv_queue = nv_queue (view n),
      nv_sent = (nv_sent (view n))(i := nv_sent (view n) i @ bs'), nv_closed = nv_closed (view n)\<rparr>) \<and>
    (\<forall>i n. view (n_close P i n) = \<lparr>nv_queue = nv_queue (view n), nv_sent = nv_sent (view n),
      nv_closed = (nv_closed (view n))(i := True)\<rparr>) \<and>
    (\<forall>n. case n_accept P n of None \<Rightarrow> nv_queue (view n) = []
       | Some (None, n') \<Rightarrow> view n' = view n
       | Some (Some i, n') \<Rightarrow> nv_queue (view n) = i # nv_queue (view n') \<and>
           nv_sent (view n') = nv_sent (view n) \<and> nv_closed (view n') = nv_closed (view n)) \<and>
    (\<forall>i k n. 0 < k \<longrightarrow> (case n_read P i k n of
         None \<Rightarrow> nv_sent (view n) i = [] \<and> \<not> nv_closed (view n) i
       | Some (None, n') \<Rightarrow> view n' = view n
       | Some (Some bs, n') \<Rightarrow> length bs \<le> k \<and> prefix bs (nv_sent (view n) i) \<and>
           (bs = [] \<longrightarrow> nv_sent (view n) i = [] \<and> nv_closed (view n) i) \<and>
           view n' = \<lparr>nv_queue = nv_queue (view n),
             nv_sent = (nv_sent (view n))(i := drop (length bs) (nv_sent (view n) i)),
             nv_closed = nv_closed (view n)\<rparr>)) \<and>
    (\<forall>i n. view (n_drop P i n) = view n)"

text \<open>
  A network without errors: \<open>connect\<close>, \<open>accept\<close> and \<open>read\<close> do not fail, a write sends all its bytes,
  and a read delivers everything that fits.
\<close>

definition net_reliable :: "'n net_ops \<Rightarrow> ('n \<Rightarrow> net_view) \<Rightarrow> bool" where
  "net_reliable P view \<longleftrightarrow>
    (\<forall>i n. fst (n_connect P i n) \<noteq> -1) \<and>
    (\<forall>i bs n. nv_sent (view (n_write P i bs n)) i = nv_sent (view n) i @ bs) \<and>
    (\<forall>n r n'. n_accept P n = Some (r, n') \<longrightarrow> r \<noteq> None) \<and>
    (\<forall>i k n r n'. n_read P i k n = Some (r, n') \<longrightarrow> r = Some (take k (nv_sent (view n) i)))"

text \<open>
  The view itself as a network, with packets of at most \<open>m\<close> bytes and a server that may accept at most
  the clients below \<open>lim\<close>: from the next on \<open>accept\<close> fails.
\<close>

definition packet_net :: "nat \<Rightarrow> nat \<Rightarrow> net_view net_ops" where
  "packet_net m lim =
    \<lparr>n_connect = (\<lambda>i n. (0, \<lparr>nv_queue = nv_queue n @ [i], nv_sent = (nv_sent n)(i := []),
       nv_closed = (nv_closed n)(i := False)\<rparr>)),
     n_write = (\<lambda>i bs n. \<lparr>nv_queue = nv_queue n, nv_sent = (nv_sent n)(i := nv_sent n i @ bs),
       nv_closed = nv_closed n\<rparr>),
     n_close = (\<lambda>i n. \<lparr>nv_queue = nv_queue n, nv_sent = nv_sent n, nv_closed = (nv_closed n)(i := True)\<rparr>),
     n_accept = (\<lambda>n. case nv_queue n of [] \<Rightarrow> None
       | i # is \<Rightarrow> if i < lim then Some (Some i, \<lparr>nv_queue = is, nv_sent = nv_sent n, nv_closed = nv_closed n\<rparr>)
         else Some (None, n)),
     n_read = (\<lambda>i k n. if nv_sent n i = [] then (if nv_closed n i then Some (Some [], n) else None)
       else Some (Some (take (min k m) (nv_sent n i)), \<lparr>nv_queue = nv_queue n,
         nv_sent = (nv_sent n)(i := drop (min k m) (nv_sent n i)), nv_closed = nv_closed n\<rparr>)),
     n_drop = (\<lambda>i n. n)\<rparr>"

lemma packet_net_spec: "0 < m \<Longrightarrow> net_spec (packet_net m lim) (\<lambda>n. n)"
  unfolding net_spec_def packet_net_def
  by (auto simp: take_is_prefix min_def fun_upd_def split: list.splits intro!: ext net_view.equality)

section \<open>Clients and server as threads\<close>

text \<open>A client leaves with its exit code; the server with 1, when \<open>accept\<close> or \<open>read\<close> fails.\<close>

datatype client_pc = C_connect | C_write | C_close | C_exit int | C_fault fault

datatype server_pc = S_accept | S_read nat | S_print nat "byte list" | S_close nat | S_exit | S_fault fault

datatype tcp_thread = Client nat | Server

record 'n tcp_sys =
  ts_net :: 'n
  ts_cl :: "nat \<Rightarrow> client_pc"
  ts_srv :: server_pc
  ts_buf :: kmem
  ts_out :: "(nat \<times> byte list) list"

text \<open>Up to \<open>connect\<close> a client depends on its own arguments only; what it sends is \<open>client_line\<close>.\<close>

definition client_starts :: "client_env \<Rightarrow> bool" where
  "client_starts env \<longleftrightarrow> argc env = 2 \<and> host_found env \<and> sockfd env \<noteq> -1"

definition client_line :: "client_env \<Rightarrow> byte list" where
  "client_line env = (case tcp_client_main (env\<lparr>connected := 0\<rparr>) of Inr (Sent bs) \<Rightarrow> bs | _ \<Rightarrow> [])"

definition client_step :: "'n net_ops \<Rightarrow> (nat \<Rightarrow> client_env) \<Rightarrow> nat \<Rightarrow> 'n tcp_sys \<Rightarrow> 'n tcp_sys option" where
  "client_step P env i s =
    (let to = (\<lambda>pc. (ts_cl s)(i := pc)) in
     case ts_cl s i of
       C_connect \<Rightarrow>
         (if \<not> client_starts (env i) then Some (s\<lparr>ts_cl := to (C_exit 1)\<rparr>)
          else case n_connect P i (ts_net s) of (r, n) \<Rightarrow>
            Some (s\<lparr>ts_net := n, ts_cl := to (if r = -1 then C_exit 1 else C_write)\<rparr>))
     | C_write \<Rightarrow>
         (case tcp_client_main ((env i)\<lparr>connected := 0\<rparr>) of
            Inl e \<Rightarrow> Some (s\<lparr>ts_cl := to (C_fault e)\<rparr>)
          | Inr r \<Rightarrow> Some (s\<lparr>ts_net := n_write P i (client_line (env i)) (ts_net s), ts_cl := to C_close\<rparr>))
     | C_close \<Rightarrow> Some (s\<lparr>ts_net := n_close P i (ts_net s), ts_cl := to (C_exit 0)\<rparr>)
     | _ \<Rightarrow> None)"

definition server_step :: "'n net_ops \<Rightarrow> 'n tcp_sys \<Rightarrow> 'n tcp_sys option" where
  "server_step P s =
    (case ts_srv s of
       S_accept \<Rightarrow> (case n_accept P (ts_net s) of None \<Rightarrow> None
         | Some (None, n) \<Rightarrow> Some (s\<lparr>ts_net := n, ts_srv := S_exit\<rparr>)
         | Some (Some i, n) \<Rightarrow> Some (s\<lparr>ts_net := n, ts_srv := S_read i\<rparr>))
     | S_read i \<Rightarrow> (case n_read P i 1024 (ts_net s) of None \<Rightarrow> None
         | Some (None, n) \<Rightarrow> Some (s\<lparr>ts_net := n, ts_srv := S_exit\<rparr>)
         | Some (Some bs, n) \<Rightarrow> Some (s\<lparr>ts_net := n, ts_srv := S_print i bs\<rparr>))
     | S_print i bs \<Rightarrow> (case server_round (ts_buf s) bs of Inl e \<Rightarrow> Some (s\<lparr>ts_srv := S_fault e\<rparr>)
         | Inr (buf, str) \<Rightarrow> Some (s\<lparr>ts_buf := buf, ts_out := ts_out s @ [(i, str)], ts_srv := S_close i\<rparr>))
     | S_close i \<Rightarrow> Some (s\<lparr>ts_net := n_drop P i (ts_net s), ts_srv := S_accept\<rparr>)
     | _ \<Rightarrow> None)"

fun tcp_step :: "'n net_ops \<Rightarrow> (nat \<Rightarrow> client_env) \<Rightarrow> nat \<Rightarrow> tcp_thread \<Rightarrow> 'n tcp_sys \<Rightarrow> 'n tcp_sys option" where
  "tcp_step P env N (Client i) s = (if i < N then client_step P env i s else None)"
| "tcp_step P env N Server s = server_step P s"

text \<open>
  A client whose buffer has a terminator: it read a line, or what the stack held there has one.
  Otherwise its \<open>strlen\<close> runs past the buffer.
\<close>

definition client_ok :: "client_env \<Rightarrow> bool" where
  "client_ok env \<longleftrightarrow> stdin env \<noteq> [] \<or> (\<exists>k < 1024. cbuffer0 env k = 0)"

lemma c_string_total: "\<exists>k < n. m (i + k) = 0 \<Longrightarrow> \<exists>bs. c_string n m i = Inr bs"
proof (induction n arbitrary: i)
  case (Suc n)
  show ?case
  proof (cases "m i = 0")
    case False
    from Suc.prems obtain k where k: "k < Suc n" "m (i + k) = 0" by blast
    with False obtain j where "k = Suc j" by (cases k) auto
    with k have "\<exists>k < n. m (Suc i + k) = 0" by auto
    from Suc.IH [OF this] False show ?thesis by auto
  qed simp
qed simp

lemma c_string_result: "c_string n m i = Inr bs \<Longrightarrow> length bs < n \<and> 0 \<notin> set bs"
  by (induction n arbitrary: i bs) (force split: if_splits sum.splits)+

lemma client_line_bounds: "length (client_line env) \<le> 1023 \<and> 0 \<notin> set (client_line env)"
proof (cases "tcp_client_main (env\<lparr>connected := 0\<rparr>)")
  case (Inr r)
  show ?thesis
  proof (cases r)
    case (Sent bs)
    with Inr obtain m where "c_string 1024 m 0 = Inr bs"
      by (auto simp: tcp_client_main_def Let_def split: if_splits sum.splits)
    with Inr Sent c_string_result show ?thesis by (force simp: client_line_def)
  qed (use Inr in \<open>simp_all add: client_line_def\<close>)
qed (simp add: client_line_def)

lemma client_sends:
  assumes "client_ok env" and "client_starts env"
  shows "tcp_client_main (env\<lparr>connected := 0\<rparr>) = Inr (Sent (client_line env))"
proof -
  let ?line = "fgets_line 1024 (stdin env)"
  let ?m = "if stdin env = [] then cbuffer0 env else store (cbuffer0 env) 0 (?line @ [0])"
  have "\<exists>k < 1024. ?m (0 + k) = 0"
  proof (cases "stdin env = []")
    case False
    have "length ?line < 1024" by (simp add: fgets_line_def)
    moreover have "?m (length ?line) = 0" using False by (simp add: store_def nth_append)
    ultimately show ?thesis by (auto intro: exI [of _ "length ?line"])
  qed (use assms(1) in \<open>simp add: client_ok_def\<close>)
  from c_string_total [OF this] obtain bs where "c_string 1024 ?m 0 = Inr bs" ..
  then have "tcp_client_main (env\<lparr>connected := 0\<rparr>) = Inr (Sent bs)"
    using assms(2) by (cases "stdin env = []") (simp_all add: tcp_client_main_def client_starts_def Let_def)
  then show ?thesis by (simp add: client_line_def)
qed

lemma set_upto_newline: "set (upto_newline bs) \<subseteq> set bs"
  by (induction bs) auto

lemma client_line_read:
  assumes "client_starts env" and "stdin env \<noteq> []" and "0 \<notin> set (stdin env)"
  shows "client_line env = take 1023 (upto_newline (stdin env))"
proof -
  have "0 \<notin> set (take 1023 (upto_newline (stdin env)))"
    using assms(3) set_upto_newline [of "stdin env"] by (auto dest: in_set_takeD)
  then show ?thesis
    using assms tcp_client_sends_line [of "env\<lparr>connected := 0\<rparr>"]
    by (simp add: client_line_def client_starts_def fgets_line_def)
qed

section \<open>The invariant\<close>

text \<open>
  The connections are, in their order: those printed, the one being served, those that wait; a server
  that has given up leaves its last one behind. Until it is read, a connection has what its client's
  write has sent, and is closed when the client has exited.
\<close>

fun serving :: "server_pc \<Rightarrow> nat list" where
  "serving (S_read i) = [i]"
| "serving (S_print i bs) = [i]"
| "serving pc = []"

definition on_line :: "client_pc \<Rightarrow> bool" where
  "on_line pc \<longleftrightarrow> pc = C_write \<or> pc = C_close \<or> pc = C_exit 0"

definition unread :: "net_view \<Rightarrow> server_pc \<Rightarrow> nat \<Rightarrow> bool" where
  "unread v pc i \<longleftrightarrow> i \<in> set (nv_queue v) \<or> pc = S_read i"

definition wrote :: "client_pc \<Rightarrow> bool" where
  "wrote pc \<longleftrightarrow> pc = C_close \<or> pc = C_exit 0"

definition stream_ok :: "bool \<Rightarrow> (nat \<Rightarrow> client_env) \<Rightarrow> net_view \<Rightarrow> server_pc \<Rightarrow> (nat \<Rightarrow> client_pc) \<Rightarrow> nat \<Rightarrow> bool" where
  "stream_ok whole env v pc cl i \<longleftrightarrow> (unread v pc i \<longrightarrow>
    (nv_closed v i \<longleftrightarrow> cl i = C_exit 0) \<and> prefix (nv_sent v i) (client_line (env i)) \<and>
    (\<not> wrote (cl i) \<longrightarrow> nv_sent v i = []) \<and>
    (whole \<and> wrote (cl i) \<longrightarrow> nv_sent v i = client_line (env i)))"

definition said :: "bool \<Rightarrow> (nat \<Rightarrow> client_env) \<Rightarrow> nat \<times> byte list \<Rightarrow> bool" where
  "said whole env x \<longleftrightarrow> prefix (snd x) (client_line (env (fst x))) \<and>
    (whole \<longrightarrow> snd x = client_line (env (fst x)))"

fun server_ok :: "bool \<Rightarrow> (nat \<Rightarrow> client_env) \<Rightarrow> server_pc \<Rightarrow> bool" where
  "server_ok whole env (S_print i bs) = said whole env (i, bs)"
| "server_ok whole env S_exit = (\<not> whole)"
| "server_ok whole env (S_fault e) = False"
| "server_ok whole env pc = True"

fun client_at :: "bool \<Rightarrow> client_env \<Rightarrow> client_pc \<Rightarrow> bool" where
  "client_at whole env C_connect = True"
| "client_at whole env (C_exit c) = (c = 0 \<and> client_starts env \<or> c = 1 \<and> (whole \<longrightarrow> \<not> client_starts env))"
| "client_at whole env (C_fault e) = False"
| "client_at whole env pc = client_starts env"

definition connections :: "net_view \<Rightarrow> 'n tcp_sys \<Rightarrow> nat list" where
  "connections v s = map fst (ts_out s) @ serving (ts_srv s) @ nv_queue v"

definition tcp_inv :: "bool \<Rightarrow> 'n net_ops \<Rightarrow> ('n \<Rightarrow> net_view) \<Rightarrow> (nat \<Rightarrow> client_env) \<Rightarrow> nat \<Rightarrow>
    'n tcp_sys \<Rightarrow> bool" where
  "tcp_inv whole P view env N s \<longleftrightarrow>
    net_spec P view \<and> (whole \<longrightarrow> net_reliable P view) \<and> (\<forall>i<N. client_ok (env i)) \<and>
    distinct (connections (view (ts_net s)) s) \<and>
    set (connections (view (ts_net s)) s) \<subseteq> {i. i < N \<and> on_line (ts_cl s i)} \<and>
    (ts_srv s \<noteq> S_exit \<longrightarrow> {i. i < N \<and> on_line (ts_cl s i)} \<subseteq> set (connections (view (ts_net s)) s)) \<and>
    (\<forall>i. stream_ok whole env (view (ts_net s)) (ts_srv s) (ts_cl s) i) \<and>
    server_ok whole env (ts_srv s) \<and> (\<forall>i<N. client_at whole (env i) (ts_cl s i)) \<and>
    (\<forall>x \<in> set (ts_out s). said whole env x)"

definition tcp_start :: "bool \<Rightarrow> 'n net_ops \<Rightarrow> ('n \<Rightarrow> net_view) \<Rightarrow> (nat \<Rightarrow> client_env) \<Rightarrow> nat \<Rightarrow>
    'n tcp_sys \<Rightarrow> bool" where
  "tcp_start whole P view env N s \<longleftrightarrow>
    net_spec P view \<and> (whole \<longrightarrow> net_reliable P view) \<and> (\<forall>i<N. client_ok (env i)) \<and>
    nv_queue (view (ts_net s)) = [] \<and> ts_cl s = (\<lambda>_. C_connect) \<and> ts_srv s = S_accept \<and> ts_out s = []"

lemma tcp_start_inv: "tcp_start whole P view env N s \<Longrightarrow> tcp_inv whole P view env N s"
  by (simp add: tcp_start_def tcp_inv_def connections_def stream_ok_def unread_def on_line_def)

text \<open>What the specification says of each call.\<close>

lemma net_connect:
  assumes "net_spec P view" and "n_connect P i n = (r, n')"
  shows "view n' = (if r = -1 then view n else
      \<lparr>nv_queue = nv_queue (view n) @ [i], nv_sent = (nv_sent (view n))(i := []),
       nv_closed = (nv_closed (view n))(i := False)\<rparr>)"
proof -
  have "case n_connect P i n of (r, n') \<Rightarrow> view n' = (if r = -1 then view n else
      \<lparr>nv_queue = nv_queue (view n) @ [i], nv_sent = (nv_sent (view n))(i := []),
       nv_closed = (nv_closed (view n))(i := False)\<rparr>)"
    using assms(1) [unfolded net_spec_def, THEN conjunct1] by (elim allE)
  then show ?thesis using assms(2) by simp
qed

lemma net_write:
  assumes "net_spec P view"
  obtains bs' where "prefix bs' bs" "view (n_write P i bs n) = \<lparr>nv_queue = nv_queue (view n),
      nv_sent = (nv_sent (view n))(i := nv_sent (view n) i @ bs'), nv_closed = nv_closed (view n)\<rparr>"
    "net_reliable P view \<longrightarrow> bs' = bs"
proof -
  from assms obtain bs' where b: "prefix bs' bs" "view (n_write P i bs n) = \<lparr>nv_queue = nv_queue (view n),
      nv_sent = (nv_sent (view n))(i := nv_sent (view n) i @ bs'), nv_closed = nv_closed (view n)\<rparr>"
    unfolding net_spec_def by blast
  moreover have "net_reliable P view \<longrightarrow> bs' = bs"
  proof
    assume "net_reliable P view"
    then have "nv_sent (view (n_write P i bs n)) i = nv_sent (view n) i @ bs"
      unfolding net_reliable_def by blast
    then show "bs' = bs" by (simp add: b(2))
  qed
  ultimately show thesis by (rule that)
qed

lemma net_close_drop:
  assumes "net_spec P view"
  shows "view (n_close P i n) = \<lparr>nv_queue = nv_queue (view n), nv_sent = nv_sent (view n),
      nv_closed = (nv_closed (view n))(i := True)\<rparr>"
    and "view (n_drop P i n) = view n"
  using assms unfolding net_spec_def by blast+

lemma net_accept:
  assumes "net_spec P view"
  shows "n_accept P n = None \<Longrightarrow> nv_queue (view n) = []"
    and "n_accept P n = Some (None, n') \<Longrightarrow> view n' = view n"
    and "n_accept P n = Some (Some i, n') \<Longrightarrow> nv_queue (view n) = i # nv_queue (view n') \<and>
      nv_sent (view n') = nv_sent (view n) \<and> nv_closed (view n') = nv_closed (view n)"
proof -
  have a: "case n_accept P n of None \<Rightarrow> nv_queue (view n) = []
       | Some (None, n') \<Rightarrow> view n' = view n
       | Some (Some i, n') \<Rightarrow> nv_queue (view n) = i # nv_queue (view n') \<and>
           nv_sent (view n') = nv_sent (view n) \<and> nv_closed (view n') = nv_closed (view n)"
    using assms unfolding net_spec_def by blast
  show "n_accept P n = None \<Longrightarrow> nv_queue (view n) = []"
    and "n_accept P n = Some (None, n') \<Longrightarrow> view n' = view n"
    and "n_accept P n = Some (Some i, n') \<Longrightarrow> nv_queue (view n) = i # nv_queue (view n') \<and>
      nv_sent (view n') = nv_sent (view n) \<and> nv_closed (view n') = nv_closed (view n)"
    using a by simp_all
qed

lemma net_read:
  assumes "net_spec P view" and "0 < k"
  shows "n_read P i k n = None \<Longrightarrow> nv_sent (view n) i = [] \<and> \<not> nv_closed (view n) i"
    and "n_read P i k n = Some (None, n') \<Longrightarrow> view n' = view n"
    and "n_read P i k n = Some (Some bs, n') \<Longrightarrow> prefix bs (nv_sent (view n) i) \<and>
      (bs = [] \<longrightarrow> nv_sent (view n) i = [] \<and> nv_closed (view n) i) \<and>
      view n' = \<lparr>nv_queue = nv_queue (view n),
        nv_sent = (nv_sent (view n))(i := drop (length bs) (nv_sent (view n) i)),
        nv_closed = nv_closed (view n)\<rparr>"
proof -
  have a: "case n_read P i k n of
         None \<Rightarrow> nv_sent (view n) i = [] \<and> \<not> nv_closed (view n) i
       | Some (None, n') \<Rightarrow> view n' = view n
       | Some (Some bs, n') \<Rightarrow> length bs \<le> k \<and> prefix bs (nv_sent (view n) i) \<and>
           (bs = [] \<longrightarrow> nv_sent (view n) i = [] \<and> nv_closed (view n) i) \<and>
           view n' = \<lparr>nv_queue = nv_queue (view n),
             nv_sent = (nv_sent (view n))(i := drop (length bs) (nv_sent (view n) i)),
             nv_closed = nv_closed (view n)\<rparr>"
    using assms unfolding net_spec_def by blast
  show "n_read P i k n = None \<Longrightarrow> nv_sent (view n) i = [] \<and> \<not> nv_closed (view n) i"
    and "n_read P i k n = Some (None, n') \<Longrightarrow> view n' = view n"
    and "n_read P i k n = Some (Some bs, n') \<Longrightarrow> prefix bs (nv_sent (view n) i) \<and>
      (bs = [] \<longrightarrow> nv_sent (view n) i = [] \<and> nv_closed (view n) i) \<and>
      view n' = \<lparr>nv_queue = nv_queue (view n),
        nv_sent = (nv_sent (view n))(i := drop (length bs) (nv_sent (view n) i)),
        nv_closed = nv_closed (view n)\<rparr>"
    using a by simp_all
qed

section \<open>Steps keep it\<close>

lemma tcp_inv_stream:
  "tcp_inv whole P view env N s \<Longrightarrow> stream_ok whole env (view (ts_net s)) (ts_srv s) (ts_cl s) j"
  by (simp add: tcp_inv_def)

text \<open>A client's step that connects nobody new and leaves the queue.\<close>

lemma tcp_inv_client:
  assumes "tcp_inv whole P view env N s" and "ts_srv t = ts_srv s" and "ts_out t = ts_out s"
    and "nv_queue (view (ts_net t)) = nv_queue (view (ts_net s))"
    and "\<And>j. on_line (ts_cl t j) = on_line (ts_cl s j)"
    and "\<And>j. j < N \<Longrightarrow> client_at whole (env j) (ts_cl t j)"
    and "\<And>j. stream_ok whole env (view (ts_net t)) (ts_srv s) (ts_cl t) j"
  shows "tcp_inv whole P view env N t"
proof -
  have "connections (view (ts_net t)) t = connections (view (ts_net s)) s"
    using assms(2-4) by (simp add: connections_def)
  then show ?thesis using assms by (simp add: tcp_inv_def)
qed

lemma client_step_inv:
  assumes "tcp_inv whole P view env N s" and "i < N" and "client_step P env i s = Some t"
  shows "tcp_inv whole P view env N t"
proof -
  note inv = assms(1) [unfolded tcp_inv_def]
  have spec: "net_spec P view" and ok: "client_ok (env i)" and at: "client_at whole (env i) (ts_cl s i)"
    using inv assms(2) by blast+
  have stream: "stream_ok whole env (view (ts_net s)) (ts_srv s) (ts_cl s) j" for j
    by (rule tcp_inv_stream [OF assms(1)])
  have off: "\<not> unread (view (ts_net s)) (ts_srv s) i" if "\<not> on_line (ts_cl s i)"
  proof -
    have "i \<notin> set (connections (view (ts_net s)) s)" using inv that by blast
    then show ?thesis by (auto simp: connections_def unread_def)
  qed
  show ?thesis
  proof (cases "ts_cl s i")
    case C_connect
    show ?thesis
    proof (cases "client_starts (env i)")
      case False
      then have t: "t = s\<lparr>ts_cl := (ts_cl s)(i := C_exit 1)\<rparr>"
        using assms(3) C_connect by (simp add: client_step_def)
      have "stream_ok whole env (view (ts_net t)) (ts_srv s) (ts_cl t) j" for j
        using stream [of j] off C_connect by (auto simp: t stream_ok_def on_line_def)
      then show ?thesis
        by (intro tcp_inv_client [OF assms(1)]) (use inv False C_connect in \<open>auto simp: t on_line_def\<close>)
    next
      case True
      obtain r n where c: "n_connect P i (ts_net s) = (r, n)" by (cases "n_connect P i (ts_net s)")
      then have t: "t = s\<lparr>ts_net := n, ts_cl := (ts_cl s)(i := if r = -1 then C_exit 1 else C_write)\<rparr>"
        using assms(3) C_connect True by (simp add: client_step_def Let_def)
      note v = net_connect [OF spec c]
      show ?thesis
      proof (cases "r = -1")
        case True
        have "\<not> whole"
          using inv c True unfolding net_reliable_def by (metis fst_conv)
        then show ?thesis
          by (intro tcp_inv_client [OF assms(1)])
            (use inv stream off C_connect True v in \<open>auto simp: t on_line_def stream_ok_def\<close>)
      next
        case False
        have new: "i \<notin> set (connections (view (ts_net s)) s)" using inv C_connect by (auto simp: on_line_def)
        have c: "connections (view (ts_net t)) t = connections (view (ts_net s)) s @ [i]"
          using False by (simp add: t connections_def v)
        have "{j. j < N \<and> on_line (ts_cl t j)} = insert i {j. j < N \<and> on_line (ts_cl s j)}"
          using assms(2) False by (auto simp: t on_line_def)
        moreover have "stream_ok whole env (view (ts_net t)) (ts_srv t) (ts_cl t) j" for j
          using stream [of j] False by (auto simp: t v stream_ok_def unread_def wrote_def)
        moreover have "\<forall>j<N. client_at whole (env j) (ts_cl t j)"
          using inv True False by (simp add: t)
        ultimately show ?thesis
          unfolding tcp_inv_def c using inv new by (auto simp: t)
      qed
    qed
  next
    case C_write
    have starts: "client_starts (env i)" using at C_write by simp
    have t: "t = s\<lparr>ts_net := n_write P i (client_line (env i)) (ts_net s), ts_cl := (ts_cl s)(i := C_close)\<rparr>"
      using assms(3) C_write client_sends [OF ok starts] by (simp add: client_step_def)
    obtain bs' where v: "prefix bs' (client_line (env i))"
      "view (n_write P i (client_line (env i)) (ts_net s)) = \<lparr>nv_queue = nv_queue (view (ts_net s)),
        nv_sent = (nv_sent (view (ts_net s)))(i := nv_sent (view (ts_net s)) i @ bs'),
        nv_closed = nv_closed (view (ts_net s))\<rparr>"
      "net_reliable P view \<longrightarrow> bs' = client_line (env i)"
      by (rule net_write [OF spec, where bs = "client_line (env i)" and i = i and n = "ts_net s"])
    have w: "whole \<longrightarrow> bs' = client_line (env i)" using inv v(3) by blast
    have "stream_ok whole env (view (ts_net t)) (ts_srv s) (ts_cl t) j" for j
      using stream [of j] C_write v(1,2) w by (cases "j = i") (simp_all add: t stream_ok_def unread_def wrote_def)
    then show ?thesis
      by (intro tcp_inv_client [OF assms(1)]) (use inv starts C_write v(2) in \<open>auto simp: t on_line_def\<close>)
  next
    case C_close
    have starts: "client_starts (env i)" using at C_close by simp
    have t: "t = s\<lparr>ts_net := n_close P i (ts_net s), ts_cl := (ts_cl s)(i := C_exit 0)\<rparr>"
      using assms(3) C_close by (simp add: client_step_def)
    note v = net_close_drop(1) [OF spec]
    have "stream_ok whole env (view (ts_net t)) (ts_srv s) (ts_cl t) j" for j
      using stream [of j] C_close by (auto simp: t v stream_ok_def unread_def wrote_def)
    then show ?thesis
      by (intro tcp_inv_client [OF assms(1)]) (use inv starts C_close v in \<open>auto simp: t on_line_def\<close>)
  qed (use assms(3) in \<open>simp_all add: client_step_def\<close>)
qed

text \<open>What is read is part of the client's line.\<close>

lemma served_read:
  assumes "tcp_inv whole P view env N s" and "ts_srv s = S_read i"
    and "n_read P i 1024 (ts_net s) = Some (Some bs, n)"
  shows "said whole env (i, bs)"
proof -
  note inv = assms(1) [unfolded tcp_inv_def]
  let ?v = "view (ts_net s)"
  have spec: "net_spec P view" using inv by blast
  note r = net_read(3) [OF spec _ assms(3)]
  have st: "nv_closed ?v i \<longleftrightarrow> ts_cl s i = C_exit 0" "prefix (nv_sent ?v i) (client_line (env i))"
    "\<not> wrote (ts_cl s i) \<longrightarrow> nv_sent ?v i = []"
    "whole \<and> wrote (ts_cl s i) \<longrightarrow> nv_sent ?v i = client_line (env i)"
    using tcp_inv_stream [OF assms(1), of i] assms(2) unfolding stream_ok_def unread_def by blast+
  have w: "wrote (ts_cl s i)"
    using r st(1,3) by (cases "bs = []") (auto simp: wrote_def)
  have "bs = client_line (env i)" if "whole"
  proof -
    have "net_reliable P view" using inv that by blast
    then have "Some bs = Some (take 1024 (nv_sent ?v i))" using assms(3) unfolding net_reliable_def by blast
    with st(4) w that client_line_bounds [of "env i"] show ?thesis by simp
  qed
  with r st(2) show ?thesis by (auto simp: said_def intro: prefix_order.trans)
qed

lemma said_round:
  assumes "said whole env (i, bs)"
  shows "\<exists>buf. server_round b bs = Inr (buf, bs)"
proof (rule server_round_line)
  have "prefix bs (client_line (env i))" using assms(1) by (simp add: said_def)
  with client_line_bounds [of "env i"] show "length bs \<le> 1023" "0 \<notin> set bs"
    using prefix_length_le set_mono_prefix by fastforce+
qed

text \<open>A step of the server that leaves the clients and the connections.\<close>

lemma tcp_inv_server:
  assumes "tcp_inv whole P view env N s" and "ts_cl t = ts_cl s" and "ts_srv s \<noteq> S_exit"
    and "connections (view (ts_net t)) t = connections (view (ts_net s)) s"
    and "\<And>j. stream_ok whole env (view (ts_net t)) (ts_srv t) (ts_cl s) j"
    and "server_ok whole env (ts_srv t)" and "\<forall>x \<in> set (ts_out t). said whole env x"
  shows "tcp_inv whole P view env N t"
  using assms by (simp add: tcp_inv_def)

lemma server_exit_inv:
  assumes "tcp_inv whole P view env N s" and "\<not> whole" and "view n = view (ts_net s)"
    and "serving (ts_srv s) = [] \<or> (\<exists>i. ts_srv s = S_read i)"
  shows "tcp_inv whole P view env N (s\<lparr>ts_net := n, ts_srv := S_exit\<rparr>)"
  using assms by (auto simp: tcp_inv_def connections_def stream_ok_def unread_def)

lemma server_step_inv:
  assumes "tcp_inv whole P view env N s" and "server_step P s = Some t"
  shows "tcp_inv whole P view env N t"
proof -
  note inv = assms(1) [unfolded tcp_inv_def]
  have spec: "net_spec P view" using inv by blast
  have stream: "stream_ok whole env (view (ts_net s)) (ts_srv s) (ts_cl s) j" for j
    by (rule tcp_inv_stream [OF assms(1)])
  show ?thesis
  proof (cases "ts_srv s")
    case S_accept
    obtain r n where a: "n_accept P (ts_net s) = Some (r, n)"
      using assms(2) S_accept by (auto simp: server_step_def split: option.splits)
    show ?thesis
    proof (cases r)
      case None
      have "\<not> whole" using inv a None unfolding net_reliable_def by metis
      then show ?thesis
        using server_exit_inv [OF assms(1) _ net_accept(2) [OF spec]] a None S_accept assms(2)
        by (auto simp: server_step_def)
    next
      case (Some i)
      then have t: "t = s\<lparr>ts_net := n, ts_srv := S_read i\<rparr>"
        using a assms(2) S_accept by (simp add: server_step_def)
      note q = net_accept(3) [OF spec a [unfolded Some]]
      have c: "connections (view (ts_net t)) t = connections (view (ts_net s)) s"
        using q S_accept by (simp add: t connections_def)
      have "stream_ok whole env (view (ts_net t)) (ts_srv t) (ts_cl s) j" for j
        using stream [of j] q S_accept by (auto simp: t stream_ok_def unread_def)
      then show ?thesis
        by (intro tcp_inv_server [OF assms(1) _ _ c]) (use inv S_accept in \<open>simp_all add: t\<close>)
    qed
  next
    case (S_read i)
    obtain r n where a: "n_read P i 1024 (ts_net s) = Some (r, n)"
      using assms(2) S_read by (auto simp: server_step_def split: option.splits)
    show ?thesis
    proof (cases r)
      case None
      have "\<not> whole" using inv a None unfolding net_reliable_def by (metis option.distinct(1))
      then show ?thesis
        using server_exit_inv [OF assms(1) _ net_read(2) [OF spec, of 1024]] a None S_read assms(2)
        by (auto simp: server_step_def)
    next
      case (Some bs)
      then have t: "t = s\<lparr>ts_net := n, ts_srv := S_print i bs\<rparr>"
        using a assms(2) S_read by (simp add: server_step_def)
      note v = net_read(3) [OF spec _ a [unfolded Some]]
      have c: "connections (view (ts_net t)) t = connections (view (ts_net s)) s"
        using v S_read by (simp add: t connections_def)
      have "i \<notin> set (nv_queue (view (ts_net s)))" using inv S_read by (auto simp: connections_def)
      then have "stream_ok whole env (view (ts_net t)) (ts_srv t) (ts_cl s) j" for j
        using stream [of j] v S_read by (auto simp: t stream_ok_def unread_def)
      then show ?thesis
        by (intro tcp_inv_server [OF assms(1) _ _ c])
          (use inv S_read served_read [OF assms(1) S_read a [unfolded Some]] in \<open>simp_all add: t\<close>)
    qed
  next
    case (S_print i bs)
    have said: "said whole env (i, bs)" using inv S_print by simp
    obtain buf where "server_round (ts_buf s) bs = Inr (buf, bs)" using said_round [OF said] by blast
    then have t: "t = s\<lparr>ts_buf := buf, ts_out := ts_out s @ [(i, bs)], ts_srv := S_close i\<rparr>"
      using assms(2) S_print by (simp add: server_step_def)
    have c: "connections (view (ts_net t)) t = connections (view (ts_net s)) s"
      using S_print by (simp add: t connections_def)
    have "stream_ok whole env (view (ts_net t)) (ts_srv t) (ts_cl s) j" for j
      using stream [of j] S_print by (simp add: t stream_ok_def unread_def)
    then show ?thesis
      by (intro tcp_inv_server [OF assms(1) _ _ c]) (use inv said S_print in \<open>simp_all add: t\<close>)
  next
    case (S_close i)
    have t: "t = s\<lparr>ts_net := n_drop P i (ts_net s), ts_srv := S_accept\<rparr>"
      using assms(2) S_close by (simp add: server_step_def)
    have c: "connections (view (ts_net t)) t = connections (view (ts_net s)) s"
      using S_close by (simp add: t connections_def net_close_drop(2) [OF spec])
    have "stream_ok whole env (view (ts_net t)) (ts_srv t) (ts_cl s) j" for j
      using stream [of j] S_close by (simp add: t stream_ok_def unread_def net_close_drop(2) [OF spec])
    then show ?thesis
      by (intro tcp_inv_server [OF assms(1) _ _ c]) (use inv S_close in \<open>simp_all add: t\<close>)
  qed (use assms(2) in \<open>simp_all add: server_step_def\<close>)
qed

lemma tcp_step_inv:
  "tcp_inv whole P view env N s \<Longrightarrow> tcp_step P env N i s = Some t \<Longrightarrow> tcp_inv whole P view env N t"
  by (cases i) (auto intro: client_step_inv server_step_inv split: if_splits)

section \<open>Work and progress\<close>

fun client_work :: "client_pc \<Rightarrow> nat" where
  "client_work C_connect = 3"
| "client_work C_write = 2"
| "client_work C_close = 1"
| "client_work pc = 0"

text \<open>A served connection costs the server four steps, the last of them after the line is out.\<close>

fun server_work :: "nat \<Rightarrow> server_pc \<Rightarrow> nat" where
  "server_work left S_accept = 4 * left + 1"
| "server_work left (S_read i) = 4 * left"
| "server_work left (S_print i bs) = 4 * left - 1"
| "server_work left (S_close i) = 4 * left + 2"
| "server_work left pc = 0"

definition tcp_work :: "nat \<Rightarrow> 'n tcp_sys \<Rightarrow> nat" where
  "tcp_work N s = (\<Sum>i<N. client_work (ts_cl s i)) + server_work (N - length (ts_out s)) (ts_srv s)"

fun exited :: "client_pc \<Rightarrow> bool" where
  "exited (C_exit c) = True"
| "exited pc = False"

definition tcp_finished :: "('n \<Rightarrow> net_view) \<Rightarrow> nat \<Rightarrow> 'n tcp_sys \<Rightarrow> bool" where
  "tcp_finished view N s \<longleftrightarrow> (\<forall>i<N. exited (ts_cl s i)) \<and>
    (ts_srv s = S_accept \<and> nv_queue (view (ts_net s)) = [] \<or> ts_srv s = S_exit)"

lemma served_at_most:
  assumes "tcp_inv whole P view env N s"
  shows "length (ts_out s) + length (serving (ts_srv s)) + length (nv_queue (view (ts_net s))) \<le> N"
proof -
  let ?c = "connections (view (ts_net s)) s"
  have d: "distinct ?c" "set ?c \<subseteq> {i. i < N \<and> on_line (ts_cl s i)}"
    using assms unfolding tcp_inv_def by blast+
  have "length ?c = card (set ?c)" using d(1) by (simp add: distinct_card)
  also have "\<dots> \<le> card {..<N}" using d(2) by (intro card_mono) auto
  finally show ?thesis by (simp add: connections_def)
qed

lemma client_work_decreases:
  assumes "i < N" and "client_step P env i s = Some t"
  shows "tcp_work N t < tcp_work N s"
proof -
  have o: "ts_out t = ts_out s" "ts_srv t = ts_srv s" "\<forall>j. j \<noteq> i \<longrightarrow> ts_cl t j = ts_cl s j"
    "client_work (ts_cl t i) < client_work (ts_cl s i)"
    using assms(2)
    by (auto simp: client_step_def Let_def split: client_pc.splits sum.splits if_splits prod.splits)
  have "(\<Sum>j<N. client_work (ts_cl t j)) < (\<Sum>j<N. client_work (ts_cl s j))"
  proof (rule sum_strict_mono_ex1)
    show "\<forall>j\<in>{..<N}. client_work (ts_cl t j) \<le> client_work (ts_cl s j)"
      using o(3,4) by (metis nat_less_le order_refl)
    show "\<exists>j\<in>{..<N}. client_work (ts_cl t j) < client_work (ts_cl s j)" using o(4) assms(1) by blast
  qed simp
  with o(1,2) show ?thesis by (simp add: tcp_work_def)
qed

lemma server_work_decreases:
  assumes "tcp_inv whole P view env N s" and "server_step P s = Some t"
  shows "tcp_work N t < tcp_work N s"
proof -
  note le = served_at_most [OF assms(1)]
  have spec: "net_spec P view" using assms(1) by (simp add: tcp_inv_def)
  have cl: "ts_cl t = ts_cl s"
    using assms(2) by (auto simp: server_step_def split: server_pc.splits option.splits sum.splits)
  have "server_work (N - length (ts_out t)) (ts_srv t) < server_work (N - length (ts_out s)) (ts_srv s)"
  proof (cases "ts_srv s")
    case S_accept
    then consider (failed) n where "t = s\<lparr>ts_net := n, ts_srv := S_exit\<rparr>"
      | (got) i n where "n_accept P (ts_net s) = Some (Some i, n)" "t = s\<lparr>ts_net := n, ts_srv := S_read i\<rparr>"
      using assms(2) by (auto simp: server_step_def split: option.splits)
    then show ?thesis
    proof cases
      case got
      have "nv_queue (view (ts_net s)) \<noteq> []" using net_accept(3) [OF spec got(1)] by simp
      then have "length (ts_out s) < N" using le by (cases "nv_queue (view (ts_net s))") auto
      then show ?thesis using S_accept by (simp add: got(2))
    qed (simp add: S_accept)
  next
    case (S_read i)
    then consider (failed) n where "t = s\<lparr>ts_net := n, ts_srv := S_exit\<rparr>"
      | (got) bs n where "t = s\<lparr>ts_net := n, ts_srv := S_print i bs\<rparr>"
      using assms(2) by (auto simp: server_step_def split: option.splits)
    then show ?thesis using S_read le by cases simp_all
  next
    case (S_print i bs)
    have "said whole env (i, bs)" using assms(1) S_print by (simp add: tcp_inv_def)
    then obtain buf where "server_round (ts_buf s) bs = Inr (buf, bs)" using said_round by blast
    then have "t = s\<lparr>ts_buf := buf, ts_out := ts_out s @ [(i, bs)], ts_srv := S_close i\<rparr>"
      using assms(2) S_print by (simp add: server_step_def)
    with S_print le show ?thesis by simp
  next
    case (S_close i)
    with assms(2) have "t = s\<lparr>ts_net := n_drop P i (ts_net s), ts_srv := S_accept\<rparr>"
      by (simp add: server_step_def)
    with S_close show ?thesis by simp
  qed (use assms(2) in \<open>simp_all add: server_step_def\<close>)
  with cl show ?thesis by (simp add: tcp_work_def)
qed

lemma tcp_progress:
  assumes "tcp_inv whole P view env N s" and "\<not> tcp_finished view N s"
  shows "\<exists>i t. tcp_step P env N i s = Some t"
proof (cases "\<forall>i<N. exited (ts_cl s i)")
  case False
  then obtain i where i: "i < N" "\<not> exited (ts_cl s i)" by blast
  then have "client_at whole (env i) (ts_cl s i)" using assms(1) by (simp add: tcp_inv_def)
  then have "\<exists>t. client_step P env i s = Some t"
    using i(2) by (cases "ts_cl s i") (auto simp: client_step_def Let_def split: sum.splits prod.splits)
  then have "\<exists>t. tcp_step P env N (Client i) s = Some t" using i(1) by simp
  then show ?thesis by blast
next
  case True
  have spec: "net_spec P view" using assms(1) by (simp add: tcp_inv_def)
  have "\<exists>t. server_step P s = Some t"
  proof (cases "ts_srv s")
    case S_accept
    then have "nv_queue (view (ts_net s)) \<noteq> []" using assms(2) True by (simp add: tcp_finished_def)
    then obtain r n where "n_accept P (ts_net s) = Some (r, n)"
      using net_accept(1) [OF spec, of "ts_net s"] by (cases "n_accept P (ts_net s)") auto
    with S_accept show ?thesis by (cases r) (simp_all add: server_step_def)
  next
    case (S_read i)
    have "i < N \<and> on_line (ts_cl s i)"
      using assms(1) S_read by (auto simp: tcp_inv_def connections_def)
    then have "ts_cl s i = C_exit 0" using True by (cases "ts_cl s i") (auto simp: on_line_def)
    then have "nv_closed (view (ts_net s)) i"
      using tcp_inv_stream [OF assms(1), of i] S_read by (simp add: stream_ok_def unread_def)
    then obtain r n where "n_read P i 1024 (ts_net s) = Some (r, n)"
      using net_read(1) [OF spec, of 1024 i "ts_net s"] by (cases "n_read P i 1024 (ts_net s)") auto
    with S_read show ?thesis by (cases r) (simp_all add: server_step_def)
  next
    case S_exit
    with assms(2) True show ?thesis by (simp add: tcp_finished_def)
  next
    case (S_fault e)
    with assms(1) show ?thesis by (simp add: tcp_inv_def)
  qed (auto simp: server_step_def split: sum.splits)
  then have "\<exists>t. tcp_step P env N Server s = Some t" by simp
  then show ?thesis by blast
qed

interpretation tcp: terminating_system "tcp_step P env N" "tcp_start whole P view env N"
    "tcp_inv whole P view env N" "tcp_work N" "tcp_finished view N" for P env N whole view
proof unfold_locales
  show "tcp_work N t < tcp_work N s" if "tcp_inv whole P view env N s" "tcp_step P env N i s = Some t" for i s t
    using that by (cases i) (auto intro: client_work_decreases server_work_decreases split: if_splits)
qed (auto intro: tcp_start_inv tcp_step_inv tcp_progress)

text \<open>Where everything rests: a server that waits has printed exactly the clients that left with 0.\<close>

lemma finished_served:
  assumes "tcp_inv whole P view env N s" and "tcp_finished view N s"
  shows "ts_srv s = S_exit \<and> \<not> whole \<or>
    ts_srv s = S_accept \<and> set (map fst (ts_out s)) = {i. i < N \<and> ts_cl s i = C_exit 0}"
proof -
  have "on_line (ts_cl s i) = (ts_cl s i = C_exit 0)" if "i < N" for i
    using assms(2) that by (cases "ts_cl s i") (auto simp: tcp_finished_def on_line_def)
  then have "{i. i < N \<and> on_line (ts_cl s i)} = {i. i < N \<and> ts_cl s i = C_exit 0}" by blast
  then show ?thesis using assms by (auto simp: tcp_inv_def tcp_finished_def connections_def)
qed

lemma finished_codes:
  assumes "tcp_inv whole P view env N s" and "tcp_finished view N s" and "i < N"
  shows "(ts_cl s i = C_exit 0 \<and> client_starts (env i)) \<or>
    ts_cl s i = C_exit 1 \<and> (whole \<longrightarrow> \<not> client_starts (env i))"
  using assms by (cases "ts_cl s i") (auto simp: tcp_inv_def tcp_finished_def)

section \<open>Properties\<close>

text \<open>
  C13. The server with any number of clients that run at once, over any network that keeps the
  stream contract, in any interleaving, whatever calls fail; a client without input must find a
  terminator in its buffer. Nothing faults and no client is printed twice, and what is printed
  for one is a beginning of what it sends. Every schedule has at most seven steps per client and one more.
  When nothing can move, every client has left with 0 or 1, and either the server has given up
  because \<open>accept\<close> or \<open>read\<close> failed, or it waits for the next connection and has printed exactly
  the clients that left with 0, that is, connected. On a network without errors (\<open>whole\<close>) the server
  never gives up, those are all the clients whose arguments, host and socket are good, and what is
  printed is all they send: the line they read, when they read one without a zero byte.
\<close>

theorem tcp_clients_are_served:
  assumes "tcp_start whole P view env N s" and "run_schedule (tcp_step P env N) is s = Some t"
  shows "distinct (map fst (ts_out t)) \<and> (\<forall>e. ts_srv t \<noteq> S_fault e \<and> (\<forall>i<N. ts_cl t i \<noteq> C_fault e)) \<and>
    (\<forall>(i, str) \<in> set (ts_out t). i < N \<and> client_starts (env i) \<and> prefix str (client_line (env i)) \<and>
      (whole \<longrightarrow> str = client_line (env i)) \<and>
      (whole \<and> stdin (env i) \<noteq> [] \<and> 0 \<notin> set (stdin (env i)) \<longrightarrow> str = take 1023 (upto_newline (stdin (env i))))) \<and>
    length is \<le> 7 * N + 1 \<and>
    ((\<forall>i. tcp_step P env N i t = None) \<longrightarrow>
      (\<forall>i<N. ts_cl t i = C_exit 0 \<or> ts_cl t i = C_exit 1) \<and>
      (ts_srv t = S_exit \<and> \<not> whole \<or>
       ts_srv t = S_accept \<and> set (map fst (ts_out t)) = {i. i < N \<and> ts_cl t i = C_exit 0}) \<and>
      (whole \<longrightarrow> set (map fst (ts_out t)) = {i. i < N \<and> client_starts (env i)}))"
proof -
  have s: "tcp_inv whole P view env N s" by (rule tcp_start_inv [OF assms(1)])
  have t: "tcp_inv whole P view env N t" by (rule tcp.reaches_inv [OF run_schedule_reaches [OF assms(2)] s])
  have "tcp_work N s = 7 * N + 1" using assms(1) by (simp add: tcp_work_def tcp_start_def)
  then have len: "length is \<le> 7 * N + 1" using tcp.schedule_length [OF s assms(2)] by simp
  have faults: "ts_srv t \<noteq> S_fault e" "\<forall>i<N. ts_cl t i \<noteq> C_fault e" for e
    using t by (auto simp: tcp_inv_def)
  have out: "i < N \<and> client_starts (env i) \<and> said whole env (i, str)" if "(i, str) \<in> set (ts_out t)" for i str
  proof -
    have "i \<in> set (connections (view (ts_net t)) t)" using that by (force simp: connections_def)
    then have "i < N \<and> on_line (ts_cl t i)" using t by (auto simp: tcp_inv_def)
    moreover from this have "client_at whole (env i) (ts_cl t i)" using t by (simp add: tcp_inv_def)
    ultimately show ?thesis using t that by (auto simp: tcp_inv_def on_line_def)
  qed
  have fin: "tcp_finished view N t" if "\<forall>i. tcp_step P env N i t = None"
    using tcp.stuck_finished [OF t] that by blast
  have rest: "(\<forall>i<N. ts_cl t i = C_exit 0 \<or> ts_cl t i = C_exit 1) \<and>
      (ts_srv t = S_exit \<and> \<not> whole \<or>
       ts_srv t = S_accept \<and> set (map fst (ts_out t)) = {i. i < N \<and> ts_cl t i = C_exit 0}) \<and>
      (whole \<longrightarrow> set (map fst (ts_out t)) = {i. i < N \<and> client_starts (env i)})"
    if "\<forall>i. tcp_step P env N i t = None"
  proof -
    note codes = finished_codes [OF t fin [OF that]] and served = finished_served [OF t fin [OF that]]
    have "{i. i < N \<and> ts_cl t i = C_exit 0} = {i. i < N \<and> client_starts (env i)}" if "whole"
      using codes that by force
    with codes served show ?thesis by blast
  qed
  have "distinct (map fst (ts_out t))" using t by (simp add: tcp_inv_def connections_def)
  with out len rest faults client_line_read show ?thesis by (fastforce simp: said_def)
qed

text \<open>
  The witness: two clients that read "hi", over packets of two bytes and a server whose second \<open>accept\<close>
  fails. The newline of the first is lost, the second is not printed.
\<close>

definition hi_env :: client_env where
  "hi_env = \<lparr>argc = 2, host_found = True, sockfd = 3, connected = 0, stdin = [104, 105, 10],
    cbuffer0 = (\<lambda>_. 0)\<rparr>"

definition hi_start :: "net_view tcp_sys" where
  "hi_start = \<lparr>ts_net = \<lparr>nv_queue = [], nv_sent = (\<lambda>_. []), nv_closed = (\<lambda>_. False)\<rparr>,
    ts_cl = (\<lambda>_. C_connect), ts_srv = S_accept, ts_buf = (\<lambda>_. 0), ts_out = []\<rparr>"

lemma hi_ok: "client_ok hi_env" "client_starts hi_env" "client_line hi_env = [104, 105, 10]"
  "tcp_client_main (hi_env\<lparr>connected := 0\<rparr>) = Inr (Sent [104, 105, 10])"
proof -
  show ok: "client_ok hi_env" "client_starts hi_env" by (simp_all add: client_ok_def client_starts_def hi_env_def)
  from client_line_read [OF ok(2)] show l: "client_line hi_env = [104, 105, 10]" by (simp add: hi_env_def)
  from client_sends [OF ok] show "tcp_client_main (hi_env\<lparr>connected := 0\<rparr>) = Inr (Sent [104, 105, 10])"
    by (simp add: l)
qed

theorem tcp_clients_are_served_witness:
  "\<exists>t. run_schedule (tcp_step (packet_net 2 1) (\<lambda>_. hi_env) 2)
      [Client 0, Server, Client 0, Server, Server, Server, Client 0, Client 1, Server, Client 1, Client 1]
      hi_start = Some t \<and>
    ts_out t = [(0, [104, 105])] \<and> prefix [104, 105] (client_line hi_env) \<and>
    ts_srv t = S_exit \<and> (\<forall>i<2. ts_cl t i = C_exit 0 \<or> ts_cl t i = C_exit 1)"
proof -
  have st: "tcp_start False (packet_net 2 1) (\<lambda>n. n) (\<lambda>_. hi_env) 2 hi_start"
    using packet_net_spec [of 2] hi_ok by (simp add: tcp_start_def hi_start_def)
  obtain buf where b: "server_round (\<lambda>_. 0) [104, 105] = Inr (buf, [104, 105])"
    using server_round_line [of "[104, 105]"] by auto
  obtain t where t: "run_schedule (tcp_step (packet_net 2 1) (\<lambda>_. hi_env) 2)
      [Client 0, Server, Client 0, Server, Server, Server, Client 0, Client 1, Server, Client 1, Client 1]
      hi_start = Some t"
      "ts_out t = [(0, [104, 105])]" "ts_srv t = S_exit" "ts_cl t 0 = C_exit 0" "ts_cl t 1 = C_exit 0"
    by (simp add: client_step_def server_step_def hi_start_def hi_ok packet_net_def b)
  have "tcp_step (packet_net 2 1) (\<lambda>_. hi_env) 2 i t = None" for i
    using t(3-5) by (cases i) (auto simp: client_step_def server_step_def less_2_cases_iff)
  then have stuck: "\<forall>i. tcp_step (packet_net 2 1) (\<lambda>_. hi_env) 2 i t = None" by blast
  from tcp_clients_are_served [OF st t(1)] t stuck show ?thesis by auto
qed

end
