(* ===== verification/Kobject_Sysfs.thy ===== *)
theory Kobject_Sysfs
  imports Device_Model Scheduler
begin

text \<open>
  The tables of \<open>07-kobject\<close>, and the attribute file of the kobject of \<open>kobject.c\<close>, which any number of
  processes read and write while the module is loaded and unloaded. The core of the kernel is
  the parameter \<open>sysfs_kops\<close> with \<open>sysfs_kspec\<close>. The operations of the kset of \<open>kset.c\<close> are in
  Device_Model, its module functions in Lifecycle.
\<close>

section \<open>The tables of \<open>kobject.c\<close>\<close>

record attribute =
  attr_name :: "byte list"
  attr_mode :: nat

record sysfs_ops =
  ops_show :: "byte list \<Rightarrow> kmem \<Rightarrow> kmem \<times> int"
  ops_store :: "int \<Rightarrow> int"

record kobj_type =
  kt_release :: "byte list list"
  kt_sysfs_ops :: sysfs_ops
  kt_default_attrs :: "attribute list"

text \<open>\<open>S_IRWXUGO\<close> is 0777.\<close>

definition test_attr :: attribute where
  "test_attr = \<lparr>attr_name = ascii ''kobj_config'', attr_mode = 511\<rparr>"

definition def_attrs :: "attribute list" where "def_attrs = [test_attr]"

definition obj_test_sysops :: sysfs_ops where
  "obj_test_sysops = \<lparr>ops_show = kobj_test_show, ops_store = kobj_test_store\<rparr>"

text \<open>The line \<open>obj_test_release\<close> prints.\<close>

definition obj_test_release :: "byte list list" where
  "obj_test_release = [ascii ''eric_test: release .'']"

definition ktype :: kobj_type where
  "ktype = \<lparr>kt_release = obj_test_release, kt_sysfs_ops = obj_test_sysops, kt_default_attrs = def_attrs\<rparr>"

section \<open>The table of \<open>kset.c\<close>\<close>

record kset_uevent_ops =
  ue_filter :: int
  ue_name :: "byte list"
  ue_uevent :: "nat \<Rightarrow> byte list list \<Rightarrow> fault + byte list list \<times> int"

definition uevent_ops :: kset_uevent_ops where
  "uevent_ops = \<lparr>ue_filter = kset_filter, ue_name = kset_name, ue_uevent = kset_uevent\<rparr>"

text \<open>
  The table lets every event pass, under its own name of a subsystem, and refuses none whose variables the
  environment holds; all of them are printed, in order.
\<close>

lemma kset_passes_events:
  assumes "n = length vars"
  shows "ue_filter uevent_ops \<noteq> 0 \<and> ue_name uevent_ops = ascii ''kset_name'' \<and>
    ue_uevent uevent_ops n vars = Inr (vars, 0)"
  using kset_uevent_prints [of n vars] assms
  by (simp add: uevent_ops_def kset_filter_def kset_name_def ascii_def)

section \<open>The kobject core and sysfs as a parameter\<close>

record 'k sysfs_kops =
  o_init_and_add :: "'k \<Rightarrow> 'k"
  o_del :: "'k \<Rightarrow> 'k option"
  o_enter :: "'k \<Rightarrow> 'k option"
  o_leave :: "'k \<Rightarrow> 'k"

record sysfs_view =
  live :: bool
  refs :: nat
  active :: nat

text \<open>
  \<open>kobject_init_and_add\<close> gives the object, which a load makes anew, one reference and its directory;
  \<open>kobject_del\<close> takes the directory away, when nobody is inside one of its handlers, for which it waits, and
  leaves the reference of the object alone; a handler is entered only while the directory is there.
\<close>

definition sysfs_kspec :: "'k sysfs_kops \<Rightarrow> ('k \<Rightarrow> sysfs_view) \<Rightarrow> bool" where
  "sysfs_kspec S view \<longleftrightarrow>
    (\<forall>k. view (o_init_and_add S k) = (view k)\<lparr>live := True, refs := 1, active := 0\<rparr>) \<and>
    (\<forall>k. if active (view k) = 0 then \<exists>k'. o_del S k = Some k' \<and> view k' = (view k)\<lparr>live := False\<rparr>
      else o_del S k = None) \<and>
    (\<forall>k. if live (view k) then \<exists>k'. o_enter S k = Some k' \<and> view k' = (view k)\<lparr>active := Suc (active (view k))\<rparr>
      else o_enter S k = None) \<and>
    (\<forall>k. view (o_leave S k) = (view k)\<lparr>active := active (view k) - 1\<rparr>)"

section \<open>Users and the module\<close>

datatype sysfs_call = Show | Store "byte list"

datatype sysfs_reply = Got "byte list" | Took int

record 'k so_sys =
  so_kern :: 'k
  so_loaded :: bool
  so_inside :: "nat \<Rightarrow> sysfs_call option"
  so_replies :: "sysfs_reply list"
  so_printed :: "byte list list"

datatype so_act = So_load | So_unload | So_call nat sysfs_call | So_return nat

text \<open>
  sysfs gives \<open>show\<close> a page of zeroes and hands out as many bytes of it as \<open>show\<close> says; a \<open>store\<close> gets
  the bytes and their number. The kernel would call \<open>kt_release\<close> with the last reference.
\<close>

definition serve :: "kobj_type \<Rightarrow> attribute \<Rightarrow> sysfs_call \<Rightarrow> sysfs_reply" where
  "serve T a c =
    (case c of
       Show \<Rightarrow> (let (page, n) = ops_show (kt_sysfs_ops T) (attr_name a) (\<lambda>_. 0) in Got (load page 0 (nat n)))
     | Store bs \<Rightarrow> Took (ops_store (kt_sysfs_ops T) (int (length bs))))"

fun so_step :: "'k sysfs_kops \<Rightarrow> so_act \<Rightarrow> 'k so_sys \<Rightarrow> 'k so_sys option" where
  "so_step S So_load s =
    (if so_loaded s then None
     else Some (s\<lparr>so_kern := o_init_and_add S (so_kern s), so_loaded := True,
       so_printed := so_printed s @ [ascii ''kboject test init.'']\<rparr>))"
| "so_step S So_unload s =
    (if \<not> so_loaded s then None
     else case o_del S (so_kern s) of
            None \<Rightarrow> None
          | Some k \<Rightarrow> Some (s\<lparr>so_kern := k, so_loaded := False,
              so_printed := so_printed s @ [ascii ''kobject test exit.'']\<rparr>))"
| "so_step S (So_call i c) s =
    (if so_inside s i \<noteq> None then None
     else case o_enter S (so_kern s) of
            None \<Rightarrow> None
          | Some k \<Rightarrow> Some (s\<lparr>so_kern := k, so_inside := (so_inside s)(i := Some c)\<rparr>))"
| "so_step S (So_return i) s =
    (case so_inside s i of
       None \<Rightarrow> None
     | Some c \<Rightarrow> Some (s\<lparr>so_kern := o_leave S (so_kern s), so_inside := (so_inside s)(i := None),
         so_replies := so_replies s @ [serve ktype test_attr c]\<rparr>))"

definition so_start :: "'k sysfs_kops \<Rightarrow> ('k \<Rightarrow> sysfs_view) \<Rightarrow> 'k so_sys \<Rightarrow> bool" where
  "so_start S view s \<longleftrightarrow> sysfs_kspec S view \<and>
    view (so_kern s) = \<lparr>live = False, refs = 0, active = 0\<rparr> \<and>
    \<not> so_loaded s \<and> so_inside s = (\<lambda>_. None) \<and> so_replies s = [] \<and> so_printed s = []"

definition so_users :: "'k so_sys \<Rightarrow> nat set" where
  "so_users s = {i. so_inside s i \<noteq> None}"

text \<open>What a reader gets, and a writer.\<close>

fun good_reply :: "sysfs_reply \<Rightarrow> bool" where
  "good_reply (Got bs) = (bs = ascii ''kobj_config'' @ [10, 0])"
| "good_reply (Took n) = (0 \<le> n)"

definition so_inv :: "'k sysfs_kops \<Rightarrow> ('k \<Rightarrow> sysfs_view) \<Rightarrow> 'k so_sys \<Rightarrow> bool" where
  "so_inv S view s \<longleftrightarrow> sysfs_kspec S view \<and> finite (so_users s) \<and>
    active (view (so_kern s)) = card (so_users s) \<and>
    live (view (so_kern s)) = so_loaded s \<and> (so_users s \<noteq> {} \<longrightarrow> so_loaded s) \<and>
    (so_loaded s \<longrightarrow> so_printed s \<noteq> []) \<and> (so_printed s \<noteq> [] \<longrightarrow> refs (view (so_kern s)) = 1) \<and>
    (\<forall>r \<in> set (so_replies s). good_reply r)"

lemma serve_good: "good_reply (serve ktype test_attr c)"
proof (cases c)
  case Show
  have "load (fst (kobj_test_show (ascii ''kobj_config'') (\<lambda>_. 0))) 0
      (nat (snd (kobj_test_show (ascii ''kobj_config'') (\<lambda>_. 0)))) = ascii ''kobj_config'' @ [10, 0]"
    by (rule kobj_show_sends_terminator)
  then show ?thesis using Show
    by (simp add: serve_def ktype_def obj_test_sysops_def test_attr_def case_prod_beta Let_def)
next
  case (Store bs)
  then show ?thesis by (simp add: serve_def ktype_def obj_test_sysops_def kobj_test_store_def)
qed

lemma sspec_add: "sysfs_kspec S view \<Longrightarrow> view (o_init_and_add S k) = (view k)\<lparr>live := True, refs := 1, active := 0\<rparr>"
  and sspec_leave: "sysfs_kspec S view \<Longrightarrow> view (o_leave S k) = (view k)\<lparr>active := active (view k) - 1\<rparr>"
  unfolding sysfs_kspec_def by blast+

lemma sspec_del:
  assumes "sysfs_kspec S view"
  shows "if active (view k) = 0 then \<exists>k'. o_del S k = Some k' \<and> view k' = (view k)\<lparr>live := False\<rparr> else o_del S k = None"
  using assms unfolding sysfs_kspec_def by blast

lemma sspec_enter:
  assumes "sysfs_kspec S view"
  shows "if live (view k) then \<exists>k'. o_enter S k = Some k' \<and> view k' = (view k)\<lparr>active := Suc (active (view k))\<rparr>
    else o_enter S k = None"
  using assms unfolding sysfs_kspec_def by blast

lemma so_start_inv: "so_start S view s \<Longrightarrow> so_inv S view s"
  by (simp add: so_start_def so_inv_def so_users_def)

lemma so_step_inv:
  assumes inv: "so_inv S view s" and step: "so_step S a s = Some t"
  shows "so_inv S view t"
proof -
  have spec: "sysfs_kspec S view" using inv by (simp add: so_inv_def)
  show ?thesis
  proof (cases a)
    case So_load
    then have "\<not> so_loaded s" and t: "t = s\<lparr>so_kern := o_init_and_add S (so_kern s), so_loaded := True,
        so_printed := so_printed s @ [ascii ''kboject test init.'']\<rparr>"
      using step by (auto split: if_splits)
    then have "so_users s = {}" using inv by (auto simp: so_inv_def)
    then show ?thesis using inv unfolding t by (simp add: so_inv_def so_users_def sspec_add [OF spec])
  next
    case So_unload
    then obtain k where k: "o_del S (so_kern s) = Some k" "so_loaded s" "t = s\<lparr>so_kern := k, so_loaded := False,
        so_printed := so_printed s @ [ascii ''kobject test exit.'']\<rparr>"
      using step by (auto split: if_splits option.splits)
    then have v: "active (view (so_kern s)) = 0" "view k = (view (so_kern s))\<lparr>live := False\<rparr>"
      using sspec_del [OF spec, of "so_kern s"] by (auto split: if_splits)
    then have "so_users s = {}" using inv by (auto simp: so_inv_def)
    then show ?thesis using inv v k(2) unfolding k(3) by (auto simp: so_inv_def so_users_def)
  next
    case (So_call i c)
    then obtain k where k: "o_enter S (so_kern s) = Some k" "so_inside s i = None"
        "t = s\<lparr>so_kern := k, so_inside := (so_inside s)(i := Some c)\<rparr>"
      using step by (auto split: if_splits option.splits)
    then have v: "live (view (so_kern s))" "view k = (view (so_kern s))\<lparr>active := Suc (active (view (so_kern s)))\<rparr>"
      using sspec_enter [OF spec, of "so_kern s"] by (auto split: if_splits)
    have "so_users t = insert i (so_users s)" "i \<notin> so_users s" using k(2) by (auto simp: so_users_def k(3))
    then show ?thesis using inv v by (simp add: so_inv_def k(3))
  next
    case (So_return i)
    then obtain c where c: "so_inside s i = Some c" "t = s\<lparr>so_kern := o_leave S (so_kern s),
        so_inside := (so_inside s)(i := None), so_replies := so_replies s @ [serve ktype test_attr c]\<rparr>"
      using step by (auto split: option.splits)
    have "so_users t = so_users s - {i}" "i \<in> so_users s" using c(1) by (auto simp: so_users_def c(2))
    then show ?thesis using inv by (auto simp: so_inv_def c(2) sspec_leave [OF spec] serve_good)
  qed
qed

interpretation so: threaded_system "so_step S" "so_start S view" "so_inv S view" for S view
  by unfold_locales (auto intro: so_start_inv so_step_inv)

section \<open>A core that meets its contract\<close>

definition plain_sysfs :: "sysfs_view sysfs_kops" where
  "plain_sysfs = \<lparr>
    o_init_and_add = (\<lambda>v. v\<lparr>live := True, refs := 1, active := 0\<rparr>),
    o_del = (\<lambda>v. if active v = 0 then Some (v\<lparr>live := False\<rparr>) else None),
    o_enter = (\<lambda>v. if live v then Some (v\<lparr>active := Suc (active v)\<rparr>) else None),
    o_leave = (\<lambda>v. v\<lparr>active := active v - 1\<rparr>)\<rparr>"

definition so_fresh :: "sysfs_view so_sys" where
  "so_fresh = \<lparr>so_kern = \<lparr>live = False, refs = 0, active = 0\<rparr>, so_loaded = False, so_inside = (\<lambda>_. None),
    so_replies = [], so_printed = []\<rparr>"

lemma so_fresh_start: "so_start plain_sysfs (\<lambda>v. v) so_fresh"
  by (simp add: so_start_def so_fresh_def sysfs_kspec_def plain_sysfs_def)

section \<open>Properties\<close>

text \<open>
  C32. The attribute of \<open>kobject.c\<close> in every interleaving of its users with loads and unloads: no handler runs
  without the module, an unload succeeds exactly when the module is loaded and nobody is inside one, every reader
  gets the name of the attribute, a newline and the terminator, and no writer an error. The reference of the
  object is never given up once the module has been loaded, so its release function is never called.
\<close>

theorem kobject_users_served:
  assumes "so_start S view s" and "reaches (so_step S) s t"
  shows "((\<exists>i. so_inside t i \<noteq> None) \<longrightarrow> so_loaded t) \<and>
    ((\<exists>u. so_step S So_unload t = Some u) \<longleftrightarrow> so_loaded t \<and> (\<forall>i. so_inside t i = None)) \<and>
    (\<forall>bs. Got bs \<in> set (so_replies t) \<longrightarrow> bs = ascii ''kobj_config'' @ [10, 0]) \<and>
    (\<forall>n. Took n \<in> set (so_replies t) \<longrightarrow> 0 \<le> n) \<and>
    (so_printed t \<noteq> [] \<longrightarrow> refs (view (so_kern t)) = 1)"
proof -
  have inv: "so_inv S view t" by (rule so.reachable_inv [OF assms])
  then have spec: "sysfs_kspec S view" and fin: "finite (so_users t)" by (simp_all add: so_inv_def)
  have "active (view (so_kern t)) = 0 \<longleftrightarrow> (\<forall>i. so_inside t i = None)"
    using inv by (auto simp: so_inv_def so_users_def)
  then have "(\<exists>u. so_step S So_unload t = Some u) \<longleftrightarrow> so_loaded t \<and> (\<forall>i. so_inside t i = None)"
    using sspec_del [OF spec, of "so_kern t"] by (auto split: if_splits option.splits)
  moreover have "\<forall>r \<in> set (so_replies t). good_reply r" using inv by (simp add: so_inv_def)
  ultimately show ?thesis using inv by (fastforce simp: so_inv_def so_users_def)
qed

theorem kobject_users_served_witness:
  "\<exists>t. reaches (so_step plain_sysfs) so_fresh t \<and> so_replies t = [Got (ascii ''kobj_config'' @ [10, 0])] \<and>
    refs (so_kern t) = 1"
proof -
  obtain t bs where t: "run_schedule (so_step plain_sysfs) [So_load, So_call 3 Show, So_return 3, So_unload] so_fresh = Some t"
    "so_replies t = [Got bs]" "so_printed t \<noteq> []"
    by (simp add: plain_sysfs_def so_fresh_def serve_def case_prod_beta)
  note r = run_schedule_reaches [OF t(1)]
  from kobject_users_served [OF so_fresh_start r] t(2,3) r show ?thesis by auto
qed

end
