(* ===== verification/Delay_Loop.thy ===== *)
theory Delay_Loop
  imports Share_Mem_Locks
begin

text \<open>
  The busy wait \<open>_delay\<close> of both share-memory drivers (\<open>mutex_drv.c\<close> of \<open>useMutex\<close> and \<open>unuseMutex\<close>), and
  the writes of both with a clock that counts the \<open>nop\<close> instructions: \<open>use_write\<close> takes \<open>share_mutex\<close>, waits after
  each byte and gives it back, \<open>unuse_write\<close> only waits. The loops of \<open>_delay\<close> count with an \<open>int\<close>, so they are
  partial functions; that they end, and with them every write, is proved. The handlers of \<open>Share_Mem\<close> are the
  reference: a write returns what \<open>mutex_write\<close> does, and the mutex is held for exactly the waits.
\<close>

section \<open>The loops\<close>

partial_function (option) use_delay_inner :: "int \<Rightarrow> nat \<Rightarrow> nat option" where
  "use_delay_inner j nops = (if j < 1000000000 then use_delay_inner (s32 (j + 1)) (nops + 4) else Some nops)"

partial_function (option) use_delay_outer :: "int \<Rightarrow> int \<Rightarrow> nat \<Rightarrow> nat option" where
  "use_delay_outer time i nops =
    (if i < time
     then case use_delay_inner 0 nops of None \<Rightarrow> None | Some n \<Rightarrow> use_delay_outer time (s32 (i + 1)) n
     else Some nops)"

definition use_delay :: "int \<Rightarrow> nat \<Rightarrow> nat option" where
  "use_delay time nops = use_delay_outer time 0 nops"

text \<open>The same function of \<open>unuseMutex/mutex_drv.c\<close>.\<close>

partial_function (option) unuse_delay_inner :: "int \<Rightarrow> nat \<Rightarrow> nat option" where
  "unuse_delay_inner j nops = (if j < 1000000000 then unuse_delay_inner (s32 (j + 1)) (nops + 4) else Some nops)"

partial_function (option) unuse_delay_outer :: "int \<Rightarrow> int \<Rightarrow> nat \<Rightarrow> nat option" where
  "unuse_delay_outer time i nops =
    (if i < time
     then case unuse_delay_inner 0 nops of None \<Rightarrow> None | Some n \<Rightarrow> unuse_delay_outer time (s32 (i + 1)) n
     else Some nops)"

definition unuse_delay :: "int \<Rightarrow> nat \<Rightarrow> nat option" where
  "unuse_delay time nops = unuse_delay_outer time 0 nops"

text \<open>
  What two such loops have in common: a counter that stays in the range of an \<open>int\<close> and a body that ends.
\<close>

locale delay_loops =
  fixes inner :: "int \<Rightarrow> nat \<Rightarrow> nat option" and outer :: "int \<Rightarrow> int \<Rightarrow> nat \<Rightarrow> nat option"
  assumes inner_unfold: "inner j n = (if j < 1000000000 then inner (s32 (j + 1)) (n + 4) else Some n)"
    and outer_unfold: "outer time i n =
      (if i < time then case inner 0 n of None \<Rightarrow> None | Some n' \<Rightarrow> outer time (s32 (i + 1)) n' else Some n)"
begin

lemma inner_ends: "0 \<le> j \<Longrightarrow> j \<le> 1000000000 \<Longrightarrow> inner j n = Some (n + 4 * nat (1000000000 - j))"
proof (induction "nat (1000000000 - j)" arbitrary: j n)
  case 0
  then have "j = 1000000000" by simp
  then show ?case by (subst inner_unfold) simp
next
  case (Suc k)
  then have j: "j < 1000000000" "s32 (j + 1) = j + 1" by (simp_all add: wrap_simps)
  have "inner (j + 1) (n + 4) = Some (n + 4 + 4 * nat (1000000000 - (j + 1)))"
    by (rule Suc.hyps(1)) (use Suc.hyps(2) Suc.prems j in simp_all)
  then show ?case using j by (subst inner_unfold) simp
qed

lemma outer_ends:
  "0 \<le> i \<Longrightarrow> time < 2147483648 \<Longrightarrow> outer time i n = Some (n + 4000000000 * nat (time - i))"
proof (induction "nat (time - i)" arbitrary: i n)
  case 0
  then show ?case by (subst outer_unfold) simp
next
  case (Suc k)
  then have i: "i < time" "s32 (i + 1) = i + 1" by (simp_all add: wrap_simps)
  have "outer time (i + 1) (n + 4000000000) = Some (n + 4000000000 + 4000000000 * nat (time - (i + 1)))"
    by (rule Suc.hyps(1)) (use Suc.hyps(2) Suc.prems i in simp_all)
  moreover have "nat (time - i) = Suc (nat (time - (i + 1)))" using i(1) by simp
  ultimately show ?case using i by (subst outer_unfold) (simp add: inner_ends)
qed

end

interpretation used: delay_loops use_delay_inner use_delay_outer
  by unfold_locales (rule use_delay_inner.simps, rule use_delay_outer.simps)

interpretation unused: delay_loops unuse_delay_inner unuse_delay_outer
  by unfold_locales (rule unuse_delay_inner.simps, rule unuse_delay_outer.simps)

section \<open>The writes with a clock\<close>

lemma delays_end:
  "time < 2147483648 \<Longrightarrow> use_delay time n = Some (n + 4000000000 * nat time)"
  "time < 2147483648 \<Longrightarrow> unuse_delay time n = Some (n + 4000000000 * nat time)"
  using used.outer_ends [of 0 time n] unused.outer_ends [of 0 time n] by (simp_all add: use_delay_def unuse_delay_def)

text \<open>
  The copy loop with the wait after each byte, whether or not the byte could be copied: the clock behind it, and
  what \<open>sh_write_loop\<close> returns. \<open>None\<close> is a loop that does not come back.
\<close>

fun delay_loop :: "(int \<Rightarrow> nat \<Rightarrow> nat option) \<Rightarrow> int \<Rightarrow> uaccess \<Rightarrow> int \<Rightarrow> nat \<Rightarrow> nat \<Rightarrow> kmem \<Rightarrow> int \<Rightarrow> nat \<Rightarrow>
    (nat \<times> (fault + kmem \<times> int)) option" where
  "delay_loop delay time U buff a 0 m ret t = Some (t, Inr (m, ret))"
| "delay_loop delay time U buff a (Suc n) m ret t =
    (if MEM_SIZE \<le> int a then Some (t, Inl Oob_write)
     else
       let (bs, left) = copy_from_user U buff 1
       in case delay time t of
            None \<Rightarrow> None
          | Some t' \<Rightarrow>
              delay_loop delay time U (buff + 1) (Suc a) n (store m a bs) (if left \<noteq> 0 then - EFAULT else ret) t')"

definition odd_count :: "int \<Rightarrow> bool" where
  "odd_count w \<longleftrightarrow> 0 \<le> w \<and> w mod 2 = 1"

text \<open>
  The mutex, the clock, and for how long the mutex has been held: \<open>since\<close> and \<open>held_for\<close> are read by no operation.
\<close>

record 'l timed =
  share_lock :: 'l
  nops :: nat
  since :: nat
  held_for :: nat

definition timed_lock :: "'l mutex_ops \<Rightarrow> nat \<Rightarrow> 'l timed \<Rightarrow> 'l timed option" where
  "timed_lock M i s =
    (case mutex_lock M i (share_lock s) of None \<Rightarrow> None | Some l \<Rightarrow> Some (s\<lparr>share_lock := l, since := nops s\<rparr>))"

definition timed_unlock :: "'l mutex_ops \<Rightarrow> nat \<Rightarrow> 'l timed \<Rightarrow> 'l timed" where
  "timed_unlock M i s =
    s\<lparr>share_lock := mutex_unlock M i (share_lock s), held_for := held_for s + (nops s - since s)\<rparr>"

definition use_write :: "'l mutex_ops \<Rightarrow> nat \<Rightarrow> uaccess \<Rightarrow> int \<Rightarrow> int \<Rightarrow> int \<Rightarrow> sh_dev \<Rightarrow> 'l timed \<Rightarrow>
    ((fault + sh_dev seek_reply) \<times> 'l timed) option" where
  "use_write M i U buff cnt loff d s =
    (let d1 = d\<lparr>writecount := s32 (writecount d + 1)\<rparr>
     in case sh_clip loff cnt of
          None \<Rightarrow> Some (Inr \<lparr>r_dev = d1, r_ret = 0, r_user = [], r_log = [], r_loff = loff\<rparr>, s)
        | Some (p, count) \<Rightarrow>
            (case timed_lock M i s of
               None \<Rightarrow> None
             | Some s1 \<Rightarrow>
                 (case (if odd_count (writecount d1) then delay_loop use_delay 5 U buff p count (mem d1) 0 (nops s1)
                        else delay_loop use_delay 3 U buff p count (mem d1) 0 (nops s1)) of
                    None \<Rightarrow> None
                  | Some (t, Inl e) \<Rightarrow> Some (Inl e, s1\<lparr>nops := t\<rparr>)
                  | Some (t, Inr (m, ret)) \<Rightarrow>
                      Some (Inr \<lparr>r_dev = d1\<lparr>mem := m\<rparr>, r_ret = int count, r_user = [], r_log = [],
                                 r_loff = s64 (loff + int count)\<rparr>,
                            timed_unlock M i (s1\<lparr>nops := t\<rparr>)))))"

definition unuse_write :: "uaccess \<Rightarrow> int \<Rightarrow> int \<Rightarrow> int \<Rightarrow> sh_dev \<Rightarrow> nat \<Rightarrow>
    ((fault + sh_dev seek_reply) \<times> nat) option" where
  "unuse_write U buff cnt loff d t0 =
    (let d1 = d\<lparr>writecount := s32 (writecount d + 1)\<rparr>
     in case sh_clip loff cnt of
          None \<Rightarrow> Some (Inr \<lparr>r_dev = d1, r_ret = 0, r_user = [], r_log = [], r_loff = loff\<rparr>, t0)
        | Some (p, count) \<Rightarrow>
            (case (if odd_count (writecount d1) then delay_loop unuse_delay 5 U buff p count (mem d1) 0 t0
                   else delay_loop unuse_delay 3 U buff p count (mem d1) 0 t0) of
               None \<Rightarrow> None
             | Some (t, Inl e) \<Rightarrow> Some (Inl e, t)
             | Some (t, Inr (m, ret)) \<Rightarrow>
                 Some (Inr \<lparr>r_dev = d1\<lparr>mem := m\<rparr>, r_ret = int count, r_user = [], r_log = [],
                            r_loff = s64 (loff + int count)\<rparr>, t)))"

text \<open>Sequences of calls on either driver; a read takes and gives back the mutex at one time.\<close>

fun use_calls :: "'l mutex_ops \<Rightarrow> nat \<Rightarrow> uaccess \<Rightarrow> sh_request list \<Rightarrow> sh_dev \<Rightarrow> 'l timed \<Rightarrow>
    ((sh_dev \<times> (fault + sh_dev seek_reply) list) \<times> 'l timed) option" where
  "use_calls M i U [] d s = Some ((d, []), s)"
| "use_calls M i U (Rq_read b c p # qs) d s =
    (case locked_read M i U b c p d (share_lock s) of
       None \<Rightarrow> None
     | Some (r, l) \<Rightarrow>
         (case use_calls M i U qs (reply_dev d r) (s\<lparr>share_lock := l\<rparr>) of
            None \<Rightarrow> None | Some ((e, rs), s') \<Rightarrow> Some ((e, r # rs), s')))"
| "use_calls M i U (Rq_write b c p # qs) d s =
    (case use_write M i U b c p d s of
       None \<Rightarrow> None
     | Some (r, s1) \<Rightarrow>
         (case use_calls M i U qs (reply_dev d r) s1 of
            None \<Rightarrow> None | Some ((e, rs), s') \<Rightarrow> Some ((e, r # rs), s')))"

fun unuse_calls :: "uaccess \<Rightarrow> sh_request list \<Rightarrow> sh_dev \<Rightarrow> nat \<Rightarrow>
    ((sh_dev \<times> (fault + sh_dev seek_reply) list) \<times> nat) option" where
  "unuse_calls U [] d t = Some ((d, []), t)"
| "unuse_calls U (Rq_read b c p # qs) d t =
    (let r = mutex_read U b c p d
     in case unuse_calls U qs (reply_dev d r) t of None \<Rightarrow> None | Some ((e, rs), t') \<Rightarrow> Some ((e, r # rs), t'))"
| "unuse_calls U (Rq_write b c p # qs) d t =
    (case unuse_write U b c p d t of
       None \<Rightarrow> None
     | Some (r, t1) \<Rightarrow>
         (case unuse_calls U qs (reply_dev d r) t1 of
            None \<Rightarrow> None | Some ((e, rs), t') \<Rightarrow> Some ((e, r # rs), t')))"

section \<open>What the writes cost\<close>

text \<open>The waits of one write, by the counter that it finds, and of a sequence of calls; \<open>writecount\<close> goes up always.\<close>

definition write_cost :: "int \<Rightarrow> int \<Rightarrow> int \<Rightarrow> nat" where
  "write_cost w loff cnt =
    (case sh_clip loff cnt of
       None \<Rightarrow> 0
     | Some (p, n) \<Rightarrow> n * (if odd_count (s32 (w + 1)) then 20000000000 else 12000000000))"

fun calls_cost :: "int \<Rightarrow> sh_request list \<Rightarrow> nat" where
  "calls_cost w [] = 0"
| "calls_cost w (Rq_read b c p # qs) = calls_cost w qs"
| "calls_cost w (Rq_write b c p # qs) = write_cost w p c + calls_cost (s32 (w + 1)) qs"

fun writes_of :: "sh_request list \<Rightarrow> nat" where
  "writes_of [] = 0"
| "writes_of (Rq_read b c p # qs) = writes_of qs"
| "writes_of (Rq_write b c p # qs) = Suc (writes_of qs)"

lemma write_cost_bound: "write_cost w loff cnt \<le> 2560000000000"
proof (cases "sh_clip loff cnt")
  case (Some pn)
  then have "snd pn \<le> 128" using sh_clip_bounds [of loff cnt "fst pn" "snd pn"] by simp
  then show ?thesis by (simp add: Some write_cost_def case_prod_beta)
qed (simp add: write_cost_def)

lemma calls_cost_bound: "calls_cost w qs \<le> 2560000000000 * writes_of qs"
proof (induction w qs rule: calls_cost.induct)
  case (3 w b c p qs)
  then show ?case using write_cost_bound [of w p c] by simp
qed simp_all

text \<open>The loop with the waits is the loop without them, and the clock goes up by the same for each byte.\<close>

lemma delay_loop_eq:
  assumes "\<And>t. delay time t = Some (t + k)"
  shows "a + n \<le> 128 \<Longrightarrow>
    delay_loop delay time U buff a n m ret t = Some (t + n * k, sh_write_loop U buff a n m ret)"
  by (induction n arbitrary: a buff m ret t) (simp_all add: assms MEM_SIZE_def case_prod_beta)

lemma use_write_eq:
  assumes "mutex_spec M holder" and "holder (share_lock s) = None"
  shows "\<exists>l. holder l = None \<and> use_write M i U buff cnt loff d s =
    Some (snd (mutex_write U buff cnt loff d),
      s\<lparr>share_lock := l, nops := nops s + write_cost (writecount d) loff cnt,
        since := (if sh_clip loff cnt = None then since s else nops s),
        held_for := held_for s + write_cost (writecount d) loff cnt\<rparr>)"
proof (cases "sh_clip loff cnt")
  case None
  then show ?thesis
    using assms(2) by (auto simp: use_write_def mutex_write_def write_cost_def Let_def intro: exI [of _ "share_lock s"])
next
  case (Some pn)
  obtain p n where pn: "pn = (p, n)" by (cases pn)
  obtain l where l: "mutex_lock M i (share_lock s) = Some l" "holder (mutex_unlock M i l) = None"
    by (rule mutex_lock_free [OF assms])
  have n: "p + n \<le> 128" using sh_clip_bounds [of loff cnt p n] Some pn by simp
  then obtain m ret where w: "sh_write_loop U buff p n (mem d) 0 = Inr (m, ret)"
    using sh_write_loop_in_bounds by blast
  have "delay_loop use_delay 5 U buff p n (mem d) 0 (nops s) = Some (nops s + n * 20000000000, Inr (m, ret))"
    and "delay_loop use_delay 3 U buff p n (mem d) 0 (nops s) = Some (nops s + n * 12000000000, Inr (m, ret))"
    using delay_loop_eq [of use_delay 5 20000000000, OF _ n] delay_loop_eq [of use_delay 3 12000000000, OF _ n]
    by (simp_all add: delays_end w)
  with Some pn l w show ?thesis
    by (intro exI [of _ "mutex_unlock M i l"])
      (simp add: use_write_def mutex_write_def write_cost_def timed_lock_def timed_unlock_def Let_def)
qed

lemma unuse_write_eq:
  "unuse_write U buff cnt loff d t =
    Some (snd (mutex_write U buff cnt loff d), t + write_cost (writecount d) loff cnt)"
proof (cases "sh_clip loff cnt")
  case None
  then show ?thesis by (simp add: unuse_write_def mutex_write_def write_cost_def Let_def)
next
  case (Some pn)
  obtain p n where pn: "pn = (p, n)" by (cases pn)
  have n: "p + n \<le> 128" using sh_clip_bounds [of loff cnt p n] Some pn by simp
  then obtain m ret where w: "sh_write_loop U buff p n (mem d) 0 = Inr (m, ret)"
    using sh_write_loop_in_bounds by blast
  have "delay_loop unuse_delay 5 U buff p n (mem d) 0 t = Some (t + n * 20000000000, Inr (m, ret))"
    and "delay_loop unuse_delay 3 U buff p n (mem d) 0 t = Some (t + n * 12000000000, Inr (m, ret))"
    using delay_loop_eq [of unuse_delay 5 20000000000, OF _ n] delay_loop_eq [of unuse_delay 3 12000000000, OF _ n]
    by (simp_all add: delays_end w)
  with Some pn w show ?thesis by (simp add: unuse_write_def mutex_write_def write_cost_def Let_def)
qed

lemma reply_dev_counts:
  "writecount (reply_dev d (mutex_read U b c p d)) = writecount d"
  "writecount (reply_dev d (snd (mutex_write U b c p d))) = s32 (writecount d + 1)"
proof -
  show "writecount (reply_dev d (mutex_read U b c p d)) = writecount d"
    by (auto simp: reply_dev_def mutex_read_def Let_def split: option.splits)
  show "writecount (reply_dev d (snd (mutex_write U b c p d))) = s32 (writecount d + 1)"
  proof (cases "sh_clip p c")
    case None
    then show ?thesis by (simp add: reply_dev_def mutex_write_def Let_def)
  next
    case (Some pn)
    obtain a n where pn: "pn = (a, n)" by (cases pn)
    then have "a + n \<le> 128" using sh_clip_bounds [of p c a n] Some by simp
    then obtain m ret where "sh_write_loop U b a n (mem d) 0 = Inr (m, ret)"
      using sh_write_loop_in_bounds by blast
    with Some pn show ?thesis by (simp add: reply_dev_def mutex_write_def Let_def)
  qed
qed

lemma use_calls_eq:
  assumes "mutex_spec M holder"
  shows "holder (share_lock s) = None \<Longrightarrow>
    \<exists>s'. use_calls M i U qs d s = Some (unlocked_calls U qs d, s') \<and> holder (share_lock s') = None \<and>
      nops s' = nops s + calls_cost (writecount d) qs \<and> held_for s' = held_for s + calls_cost (writecount d) qs"
proof (induction U qs d arbitrary: s rule: unlocked_calls.induct)
  case (1 U d)
  then show ?case by simp
next
  case (2 U b c p qs d)
  obtain l where l: "locked_read M i U b c p d (share_lock s) = Some (mutex_read U b c p d, l)" "holder l = None"
    using locked_calls_alone(1) [OF assms 2(2)] by blast
  from 2(1) [OF refl, of "s\<lparr>share_lock := l\<rparr>"] l show ?case
    by (auto simp: reply_dev_counts split: prod.splits)
next
  case (3 U b c p qs d)
  obtain s1 where s1: "use_write M i U b c p d s = Some (snd (mutex_write U b c p d), s1)"
    "holder (share_lock s1) = None" "nops s1 = nops s + write_cost (writecount d) p c"
    "held_for s1 = held_for s + write_cost (writecount d) p c"
    using use_write_eq [OF assms 3(2), of i U b c p d] by auto
  from 3(1) [OF refl s1(2)] s1 show ?case
    by (auto simp: reply_dev_counts split: prod.splits)
qed

lemma unuse_calls_eq:
  "unuse_calls U qs d t = Some (unlocked_calls U qs d, t + calls_cost (writecount d) qs)"
  by (induction U qs d arbitrary: t rule: unlocked_calls.induct)
    (simp_all add: unuse_write_eq reply_dev_counts Let_def split: prod.split)

section \<open>Properties\<close>

text \<open>
  C33. Every delay of both share-memory drivers ends, and with it every write. Started with the mutex free, any
  sequence of reads and writes returns from both drivers, waits included, with the results and the memory that
  the handlers without waits give; it takes \<open>calls_cost\<close>, 20000000000 (odd writes) or 12000000000 (even ones)
  \<open>nop\<close> for every byte that the guard leaves of a write; in the first driver that is exactly how long the mutex
  is held, never more than 2560000000000 per write, and it is free at the end.
\<close>

theorem write_delays_end:
  assumes "mutex_spec M holder" and "holder (share_lock s) = None"
  shows "(\<exists>s'. use_calls M i U qs d s = Some (unlocked_calls U qs d, s') \<and> holder (share_lock s') = None \<and>
      nops s' = nops s + calls_cost (writecount d) qs \<and>
      held_for s' = held_for s + calls_cost (writecount d) qs) \<and>
    unuse_calls U qs d t = Some (unlocked_calls U qs d, t + calls_cost (writecount d) qs) \<and>
    calls_cost (writecount d) qs \<le> 2560000000000 * writes_of qs"
  using use_calls_eq [OF assms] unuse_calls_eq calls_cost_bound by blast

text \<open>The two writers of the test program, five bytes each, and its reader: the mutex is held for 160 billion.\<close>

theorem write_delays_end_witness:
  "\<exists>s'. use_calls option_mutex 0 app_uaccess [Rq_write 0 5 0, Rq_write 100 5 0, Rq_read 200 5 0]
      \<lparr>mem = (\<lambda>_. 0), writecount = 0\<rparr> \<lparr>share_lock = None, nops = 0, since = 0, held_for = 0\<rparr> =
    Some (unlocked_calls app_uaccess [Rq_write 0 5 0, Rq_write 100 5 0, Rq_read 200 5 0]
      \<lparr>mem = (\<lambda>_. 0), writecount = 0\<rparr>, s') \<and> share_lock s' = None \<and> held_for s' = 160000000000"
proof -
  have c: "calls_cost 0 [Rq_write 0 5 0, Rq_write 100 5 0, Rq_read 200 5 0] = 160000000000"
    by (simp add: write_cost_def sh_clip_def MEM_SIZE_def wrap_simps odd_count_def Let_def)
  show ?thesis
    using write_delays_end [OF option_mutex_spec, of "\<lparr>share_lock = None, nops = 0, since = 0, held_for = 0\<rparr>" 0
        app_uaccess "[Rq_write 0 5 0, Rq_write 100 5 0, Rq_read 200 5 0]" "\<lparr>mem = (\<lambda>_. 0), writecount = 0\<rparr>" 0]
    by (auto simp: c simp del: use_calls.simps unlocked_calls.simps calls_cost.simps)
qed

end
