(* ===== verification/Notifier_Timer.thy ===== *)
theory Notifier_Timer
  imports Device_Model Scheduler
begin

text \<open>
  The timer of \<open>05-Notifier/notifier.c\<close> and the unloading of its module as two threads. The timer
  thread is the kernel's: when the timer is pending it can expire, and then runs
  \<open>notifier_function\<close> statement by statement. The other thread is \<open>rmmod\<close>, which runs
  \<open>myNotifier_exit\<close> and then frees the module's memory, in which both the code of the callback and
  the timer lie. The kernel's timer is a parameter: a record of its functions, with the documented
  behaviour of each stated by \<open>timer_spec\<close> over a view of whether the timer is pending.
\<close>

section \<open>The kernel timer\<close>

record 't timer_ops =
  t_init :: "'t \<Rightarrow> 't"
  t_add :: "'t \<Rightarrow> 't"
  t_mod :: "'t \<Rightarrow> 't"
  t_del :: "'t \<Rightarrow> 't"
  t_fire :: "'t \<Rightarrow> 't option"

definition timer_spec :: "'t timer_ops \<Rightarrow> ('t \<Rightarrow> bool) \<Rightarrow> bool" where
  "timer_spec T pending \<longleftrightarrow>
    (\<forall>t. \<not> pending (t_init T t)) \<and> (\<forall>t. pending (t_add T t)) \<and> (\<forall>t. pending (t_mod T t)) \<and>
    (\<forall>t. \<not> pending (t_del T t)) \<and> (\<forall>t. t_fire T t = None \<longleftrightarrow> \<not> pending t) \<and>
    (\<forall>t t'. t_fire T t = Some t' \<longrightarrow> \<not> pending t')"

text \<open>A timer that is nothing but its pending flag.\<close>

definition flag_timer :: "bool timer_ops" where
  "flag_timer = \<lparr>t_init = (\<lambda>_. False), t_add = (\<lambda>_. True), t_mod = (\<lambda>_. True),
    t_del = (\<lambda>_. False), t_fire = (\<lambda>b. if b then Some False else None)\<rparr>"

lemma flag_timer_spec: "timer_spec flag_timer (\<lambda>b. b)"
  by (simp add: timer_spec_def flag_timer_def)

lemma timer_fires: "timer_spec T pending \<Longrightarrow> pending t \<Longrightarrow> \<exists>t'. t_fire T t = Some t'"
  by (auto simp: timer_spec_def)

section \<open>The two threads\<close>

text \<open>
  Where the callback is: not running, or before the call of the chain, before \<open>mod_timer\<close>, before
  the increment. Where the module is: loaded, unregistering the callbacks that are left, or gone.
\<close>

datatype cb_pc = Cb_idle | Cb_call | Cb_mod | Cb_count

datatype exit_pc = Ex_loaded | Ex_unregister "nat list" | Ex_unloaded

datatype nthread = Timer_thread | Rmmod_thread

record 't nthreads =
  nt_mod :: notifier_state
  nt_timer :: 't
  nt_cb :: cb_pc
  nt_exit :: exit_pc
  nt_lines :: "notifier_line list"
  nt_uaf :: bool

definition notifier_loaded :: "'t timer_ops \<Rightarrow> 't \<Rightarrow> 't nthreads" where
  "notifier_loaded T t0 =
    \<lparr>nt_mod = myNotifier_init, nt_timer = t_add T (t_init T t0), nt_cb = Cb_idle,
     nt_exit = Ex_loaded, nt_lines = [], nt_uaf = False\<rparr>"

text \<open>
  After the unload the next instruction of a callback that still runs, or the expiry of a timer that
  is still pending, uses freed memory.
\<close>

definition timer_step :: "chain_call \<Rightarrow> (nat \<Rightarrow> int \<Rightarrow> int) \<Rightarrow> 't timer_ops \<Rightarrow> 't nthreads \<Rightarrow>
    't nthreads option" where
  "timer_step call garbage T s =
    (if nt_uaf s then None
     else if nt_exit s = Ex_unloaded then
       (if nt_cb s = Cb_idle \<and> t_fire T (nt_timer s) = None then None else Some (s\<lparr>nt_uaf := True\<rparr>))
     else case nt_cb s of
       Cb_idle \<Rightarrow> (case t_fire T (nt_timer s) of None \<Rightarrow> None
                   | Some t \<Rightarrow> Some (s\<lparr>nt_timer := t, nt_cb := Cb_call\<rparr>))
     | Cb_call \<Rightarrow> Some (s\<lparr>nt_cb := Cb_mod, nt_lines := nt_lines s @
         call (notifier_event garbage) (registered (nt_mod s)) (ncount (nt_mod s))\<rparr>)
     | Cb_mod \<Rightarrow> Some (s\<lparr>nt_cb := Cb_count, nt_timer := t_mod T (nt_timer s)\<rparr>)
     | Cb_count \<Rightarrow> Some (s\<lparr>nt_cb := Cb_idle,
         nt_mod := (nt_mod s)\<lparr>ncount := u64 (ncount (nt_mod s) + 1)\<rparr>\<rparr>))"

definition rmmod_step :: "'t timer_ops \<Rightarrow> 't nthreads \<Rightarrow> 't nthreads option" where
  "rmmod_step T s =
    (case nt_exit s of
       Ex_loaded \<Rightarrow> Some (s\<lparr>nt_timer := t_del T (nt_timer s), nt_exit := Ex_unregister [1, 2, 3]\<rparr>)
     | Ex_unregister [] \<Rightarrow> Some (s\<lparr>nt_exit := Ex_unloaded\<rparr>)
     | Ex_unregister (k # ks) \<Rightarrow>
         Some (s\<lparr>nt_mod := (nt_mod s)\<lparr>registered := remove1 k (registered (nt_mod s))\<rparr>,
                 nt_exit := Ex_unregister ks\<rparr>)
     | Ex_unloaded \<Rightarrow> None)"

fun notifier_step :: "chain_call \<Rightarrow> (nat \<Rightarrow> int \<Rightarrow> int) \<Rightarrow> 't timer_ops \<Rightarrow> nthread \<Rightarrow> 't nthreads \<Rightarrow>
    't nthreads option" where
  "notifier_step call garbage T Timer_thread s = timer_step call garbage T s"
| "notifier_step call garbage T Rmmod_thread s = rmmod_step T s"

section \<open>While the module is loaded\<close>

text \<open>
  The printed lines are those of the ticks 0, 1, 2 and so on. The timer is pending exactly when no
  callback stands between its start and its \<open>mod_timer\<close>: \<open>armed\<close>.
\<close>

definition armed :: "('t \<Rightarrow> bool) \<Rightarrow> 't nthreads \<Rightarrow> bool" where
  "armed pending s \<longleftrightarrow> (pending (nt_timer s) \<longleftrightarrow> nt_cb s = Cb_idle \<or> nt_cb s = Cb_count)"

definition tick_lines :: "(nat \<Rightarrow> int \<Rightarrow> int) \<Rightarrow> (int \<Rightarrow> bool) \<Rightarrow> nat \<Rightarrow> notifier_line list" where
  "tick_lines garbage stop n =
    concat (map (\<lambda>j. chain_spec_lines (notifier_event garbage) stop [1, 2, 3] (u64 (int j))) [0..<n])"

definition ticked :: "'t nthreads \<Rightarrow> nat \<Rightarrow> nat" where
  "ticked s n = (if nt_cb s = Cb_mod \<or> nt_cb s = Cb_count then Suc n else n)"

definition loaded_ok :: "(nat \<Rightarrow> int \<Rightarrow> int) \<Rightarrow> (int \<Rightarrow> bool) \<Rightarrow> ('t \<Rightarrow> bool) \<Rightarrow> 't nthreads \<Rightarrow> bool" where
  "loaded_ok garbage stop pending s \<longleftrightarrow> \<not> nt_uaf s \<and> registered (nt_mod s) = [1, 2, 3] \<and> armed pending s \<and>
    (\<exists>n. ncount (nt_mod s) = u64 (int n) \<and> nt_lines s = tick_lines garbage stop (ticked s n))"

lemma tick_lines_Suc: "tick_lines garbage stop (Suc n) =
    tick_lines garbage stop n @ chain_spec_lines (notifier_event garbage) stop [1, 2, 3] (u64 (int n))"
  by (simp add: tick_lines_def)

lemma u64_Suc: "u64 (u64 (int n) + 1) = u64 (int (Suc n))"
  by (simp add: u64_def mod_simps add.commute)

lemma timer_step_loaded:
  assumes "timer_spec T pending" and "chain_spec call stop" and "loaded_ok garbage stop pending s"
    and "nt_exit s \<noteq> Ex_unloaded" and "timer_step call garbage T s = Some t"
  shows "loaded_ok garbage stop pending t \<and> nt_exit t = nt_exit s"
proof -
  obtain n where n: "ncount (nt_mod s) = u64 (int n)" "nt_lines s = tick_lines garbage stop (ticked s n)"
    using assms(3) by (auto simp: loaded_ok_def)
  have s: "\<not> nt_uaf s" "registered (nt_mod s) = [1, 2, 3]" "armed pending s"
    using assms(3) by (auto simp: loaded_ok_def)
  show ?thesis
  proof (cases "nt_cb s")
    case Cb_idle
    then obtain u where "t_fire T (nt_timer s) = Some u" "t = s\<lparr>nt_timer := u, nt_cb := Cb_call\<rparr>"
      using assms(4,5) s(1) by (auto simp: timer_step_def split: option.splits)
    with assms(1) n s Cb_idle show ?thesis
      by (auto simp: loaded_ok_def armed_def ticked_def timer_spec_def)
  next
    case Cb_call
    have t: "t = s\<lparr>nt_cb := Cb_mod, nt_lines := nt_lines s @
         chain_spec_lines (notifier_event garbage) stop [1, 2, 3] (u64 (int n))\<rparr>"
      using assms(2,4,5) s(1,2) n(1) Cb_call by (auto simp: timer_step_def chain_spec_def)
    show ?thesis
      using n s Cb_call unfolding t
      by (auto simp: loaded_ok_def armed_def ticked_def tick_lines_Suc intro!: exI [of _ n])
  next
    case Cb_mod
    have t: "t = s\<lparr>nt_cb := Cb_count, nt_timer := t_mod T (nt_timer s)\<rparr>"
      using assms(4,5) s(1) Cb_mod by (auto simp: timer_step_def)
    show ?thesis
      using assms(1) n s Cb_mod unfolding t
      by (auto simp: loaded_ok_def armed_def ticked_def timer_spec_def intro!: exI [of _ n])
  next
    case Cb_count
    have t: "t = s\<lparr>nt_cb := Cb_idle, nt_mod := (nt_mod s)\<lparr>ncount := u64 (int (Suc n))\<rparr>\<rparr>"
      using assms(4,5) s(1) Cb_count n(1) u64_Suc [of n] by (auto simp: timer_step_def)
    show ?thesis
      using n s Cb_count unfolding t
      by (auto simp: loaded_ok_def armed_def ticked_def intro!: exI [of _ "Suc n"])
  qed
qed

lemma rmmod_not_loaded: "rmmod_step T s = Some t \<Longrightarrow> nt_exit t \<noteq> Ex_loaded"
  by (auto simp: rmmod_step_def split: exit_pc.splits list.splits)

lemma timer_step_exit: "timer_step call garbage T s = Some t \<Longrightarrow> nt_exit t = nt_exit s"
  by (auto simp: timer_step_def split: if_splits cb_pc.splits option.splits)

text \<open>
  The invariant of the whole run says nothing once the exit has begun. The documented behaviour of
  the parameters is part of it.
\<close>

definition nt_inv :: "chain_call \<Rightarrow> (nat \<Rightarrow> int \<Rightarrow> int) \<Rightarrow> (int \<Rightarrow> bool) \<Rightarrow> 't timer_ops \<Rightarrow>
    ('t \<Rightarrow> bool) \<Rightarrow> 't nthreads \<Rightarrow> bool" where
  "nt_inv call garbage stop T pending s \<longleftrightarrow> timer_spec T pending \<and> chain_spec call stop \<and>
    (nt_exit s = Ex_loaded \<longrightarrow> loaded_ok garbage stop pending s)"

definition nt_start :: "chain_call \<Rightarrow> (int \<Rightarrow> bool) \<Rightarrow> 't timer_ops \<Rightarrow> ('t \<Rightarrow> bool) \<Rightarrow>
    't nthreads \<Rightarrow> bool" where
  "nt_start call stop T pending s \<longleftrightarrow> timer_spec T pending \<and> chain_spec call stop \<and>
    (\<exists>t0. s = notifier_loaded T t0)"

lemma nt_start_inv: "nt_start call stop T pending s \<Longrightarrow> nt_inv call garbage stop T pending s"
  by (auto simp: nt_start_def nt_inv_def loaded_ok_def notifier_loaded_def myNotifier_init_def armed_def
    ticked_def tick_lines_def timer_spec_def u64_def intro!: exI [of _ 0])

lemma nt_step_inv:
  assumes "nt_inv call garbage stop T pending s" and "notifier_step call garbage T i s = Some t"
  shows "nt_inv call garbage stop T pending t"
proof (cases i)
  case Timer_thread
  with assms timer_step_loaded [of T pending call stop garbage s t]
    timer_step_exit [of call garbage T s t]
  show ?thesis by (auto simp: nt_inv_def)
next
  case Rmmod_thread
  with assms rmmod_not_loaded [of T s t] show ?thesis by (simp add: nt_inv_def)
qed

interpretation ntl: threaded_system "notifier_step call garbage T" "nt_start call stop T pending"
    "nt_inv call garbage stop T pending" for call garbage T stop pending
  by unfold_locales (auto intro: nt_start_inv nt_step_inv)

text \<open>A loaded module's timer thread is never stuck.\<close>

lemma loaded_ticks:
  assumes "timer_spec T pending" and "loaded_ok garbage stop pending s" and "nt_exit s = Ex_loaded"
  shows "timer_step call garbage T s \<noteq> None"
  using assms by (auto simp: timer_step_def loaded_ok_def armed_def timer_spec_def split: cb_pc.splits
    option.splits)

text \<open>Four steps of the timer thread are one expiry and one run of \<open>notifier_function\<close>.\<close>

lemma callback_alone:
  assumes "\<not> nt_uaf s" and "nt_exit s \<noteq> Ex_unloaded" and "nt_cb s = Cb_idle"
    and "t_fire T (nt_timer s) = Some t"
  shows "run_schedule (notifier_step call garbage T) [Timer_thread, Timer_thread, Timer_thread, Timer_thread] s =
    Some (s\<lparr>nt_timer := t_mod T t, nt_mod := fst (notifier_function call garbage (nt_mod s)),
      nt_lines := nt_lines s @ snd (notifier_function call garbage (nt_mod s))\<rparr>)"
  using assms by (simp add: timer_step_def notifier_function_def)

section \<open>After \<open>del_timer\<close>\<close>

text \<open>
  When no callback was running at \<open>del_timer\<close>, nothing runs any more. When one stood before its
  \<open>mod_timer\<close>, the timer is armed again behind the deletion, and keeps the callback running until the
  unload takes the memory away.
\<close>

definition nt_quiet :: "'t timer_ops \<Rightarrow> 't nthreads \<Rightarrow> bool" where
  "nt_quiet T s \<longleftrightarrow> \<not> nt_uaf s \<and> nt_cb s = Cb_idle \<and> t_fire T (nt_timer s) = None \<and> nt_exit s \<noteq> Ex_loaded"

definition nt_rearmed :: "'t timer_ops \<Rightarrow> ('t \<Rightarrow> bool) \<Rightarrow> 't nthreads \<Rightarrow> bool" where
  "nt_rearmed T pending s \<longleftrightarrow> timer_spec T pending \<and> armed pending s \<and> nt_exit s \<noteq> Ex_loaded"

lemma nt_quiet_step:
  assumes "nt_quiet T s" and "notifier_step call garbage T i s = Some t" shows "nt_quiet T t"
proof (cases i)
  case Timer_thread
  with assms show ?thesis by (simp add: nt_quiet_def timer_step_def split: if_splits)
next
  case Rmmod_thread
  with assms show ?thesis
    by (auto simp: nt_quiet_def rmmod_step_def split: exit_pc.splits list.splits)
qed

lemma nt_rearmed_step:
  assumes "nt_rearmed T pending s" and "notifier_step call garbage T i s = Some t"
  shows "nt_rearmed T pending t"
proof (cases i)
  case Timer_thread
  then have "timer_step call garbage T s = Some t" using assms(2) by simp
  with assms(1) show ?thesis
    unfolding nt_rearmed_def
    by (auto simp: timer_step_def armed_def timer_spec_def split: if_splits cb_pc.splits option.splits)
next
  case Rmmod_thread
  with assms show ?thesis
    by (auto simp: nt_rearmed_def armed_def rmmod_step_def split: exit_pc.splits list.splits)
qed

interpretation ntq: threaded_system "notifier_step call garbage T" "nt_quiet T" "nt_quiet T"
    for call garbage T
  by unfold_locales (auto intro: nt_quiet_step)

interpretation ntr: threaded_system "notifier_step call garbage T" "nt_rearmed T pending"
    "nt_rearmed T pending" for call garbage T pending
  by unfold_locales (auto intro: nt_rearmed_step)

text \<open>The callback has not moved when the whole exit has run and the memory is gone.\<close>

lemma exit_to_fault:
  assumes "\<not> nt_uaf s" and "nt_exit s = Ex_unregister [1, 2, 3]" and "nt_cb s \<noteq> Cb_idle"
  shows "\<exists>u. run_schedule (notifier_step call garbage T)
      [Rmmod_thread, Rmmod_thread, Rmmod_thread, Rmmod_thread, Timer_thread] s = Some u \<and> nt_uaf u"
  using assms by (simp add: rmmod_step_def timer_step_def)

lemma rearmed_fault:
  assumes "nt_rearmed T pending s" and "nt_exit s = Ex_unloaded" and "\<not> nt_uaf s"
  shows "timer_step call garbage T s = Some (s\<lparr>nt_uaf := True\<rparr>)"
  using assms by (auto simp: nt_rearmed_def armed_def timer_step_def timer_spec_def)

text \<open>What \<open>del_timer\<close> does, by where the callback is.\<close>

lemma del_timer_quiet:
  assumes "timer_spec T pending" and "\<not> nt_uaf s" and "nt_exit s = Ex_loaded" and "rmmod_step T s = Some t"
    and "nt_cb s = Cb_idle"
  shows "nt_quiet T t"
  using assms by (auto simp: rmmod_step_def nt_quiet_def timer_spec_def)

lemma del_timer_rearmed:
  assumes "timer_spec T pending" and "nt_exit s = Ex_loaded" and "rmmod_step T s = Some t"
    and "nt_cb s = Cb_call \<or> nt_cb s = Cb_mod"
  shows "nt_rearmed T pending t"
  using assms by (auto simp: rmmod_step_def nt_rearmed_def armed_def timer_spec_def)

section \<open>Properties\<close>

text \<open>
  C15. As long as the module is loaded the timer never stops, in any interleaving up to the beginning
  of the unload: no memory is misused, the timer thread can move, the timer is pending exactly when
  no callback stands between its start and its \<open>mod_timer\<close>, and what has been printed are the lines
  of the ticks 0, 1, 2 and so on, each passed along the three callbacks up to one whose value has the
  stop bit. Four steps of the timer thread in a row are one run of \<open>notifier_function\<close>.
\<close>

theorem notifier_keeps_ticking:
  assumes "timer_spec T pending" and "chain_spec call stop"
    and "reaches (notifier_step call garbage T) (notifier_loaded T t0) s" and "nt_exit s = Ex_loaded"
  shows "\<not> nt_uaf s \<and> timer_step call garbage T s \<noteq> None \<and>
    (pending (nt_timer s) \<longleftrightarrow> nt_cb s = Cb_idle \<or> nt_cb s = Cb_count) \<and>
    (\<exists>n. ncount (nt_mod s) = u64 (int n) \<and> nt_lines s = tick_lines garbage stop (ticked s n)) \<and>
    (nt_cb s = Cb_idle \<longrightarrow> (\<exists>t. t_fire T (nt_timer s) = Some t \<and>
      run_schedule (notifier_step call garbage T) [Timer_thread, Timer_thread, Timer_thread, Timer_thread] s =
      Some (s\<lparr>nt_timer := t_mod T t, nt_mod := fst (notifier_function call garbage (nt_mod s)),
        nt_lines := nt_lines s @ snd (notifier_function call garbage (nt_mod s))\<rparr>)))"
proof -
  have "nt_start call stop T pending (notifier_loaded T t0)" using assms(1,2) by (auto simp: nt_start_def)
  from ntl.reachable_inv [OF this assms(3)] assms(4)
  have ok: "loaded_ok garbage stop pending s" by (simp add: nt_inv_def)
  then have s: "\<not> nt_uaf s" "armed pending s" by (simp_all add: loaded_ok_def)
  have alone: "\<exists>t. t_fire T (nt_timer s) = Some t \<and>
      run_schedule (notifier_step call garbage T) [Timer_thread, Timer_thread, Timer_thread, Timer_thread] s =
      Some (s\<lparr>nt_timer := t_mod T t, nt_mod := fst (notifier_function call garbage (nt_mod s)),
        nt_lines := nt_lines s @ snd (notifier_function call garbage (nt_mod s))\<rparr>)"
    if idle: "nt_cb s = Cb_idle"
  proof -
    obtain t where "t_fire T (nt_timer s) = Some t"
      using idle s(2) timer_fires [OF assms(1)] by (auto simp: armed_def)
    with callback_alone [of s T t call garbage] s(1) idle assms(4) show ?thesis by simp
  qed
  with ok s loaded_ticks [OF assms(1) ok assms(4), of call] show ?thesis
    by (simp add: loaded_ok_def armed_def)
qed

text \<open>The witnesses' callbacks leave a value without the stop bit.\<close>

definition seen_call :: chain_call where
  "seen_call = (\<lambda>cb. chain_spec_lines cb (\<lambda>r. r = 32768))"

lemma seen_call_spec: "chain_spec seen_call (\<lambda>r. r = 32768)"
  by (simp add: chain_spec_def seen_call_def)

text \<open>One callback up to the point before its \<open>mod_timer\<close>.\<close>

definition mid_callback :: "bool nthreads" where
  "mid_callback = \<lparr>nt_mod = myNotifier_init, nt_timer = False, nt_cb = Cb_mod,
    nt_exit = Ex_loaded, nt_lines = [(1, 0), (2, 0), (3, 0)], nt_uaf = False\<rparr>"

lemma mid_callback_reached:
  "reaches (notifier_step seen_call (\<lambda>_ _. 0) flag_timer) (notifier_loaded flag_timer False) mid_callback"
  by (rule run_schedule_reaches [of _ "[Timer_thread, Timer_thread]"])
    (simp add: timer_step_def notifier_loaded_def flag_timer_def mid_callback_def seen_call_def
      myNotifier_init_def notifier_event_def)

theorem notifier_keeps_ticking_witness:
  "\<exists>n. ncount (nt_mod mid_callback) = u64 (int n) \<and>
    nt_lines mid_callback = tick_lines (\<lambda>_ _. 0) (\<lambda>r. r = 32768) (Suc n)"
  using notifier_keeps_ticking [OF flag_timer_spec seen_call_spec mid_callback_reached]
  by (simp add: mid_callback_def ticked_def)

text \<open>
  C16. Unloading the module is safe exactly when no callback is running at that moment, because
  \<open>del_timer\<close> does not wait for one: if the timer is deleted while the callback runs, there is an
  interleaving in which freed memory is used, and if no callback runs there is none. When the
  callback stands before its \<open>mod_timer\<close> there is no luck involved: the timer is armed again behind
  the deletion, so whenever the unload is through without a fault the next step of the timer thread
  is one.
\<close>

theorem notifier_unload_races_timer:
  assumes "timer_spec T pending" and "chain_spec call stop"
    and "reaches (notifier_step call garbage T) (notifier_loaded T t0) s" and "nt_exit s = Ex_loaded"
    and "rmmod_step T s = Some t"
  shows "((\<exists>u. reaches (notifier_step call garbage T) t u \<and> nt_uaf u) \<longleftrightarrow> nt_cb s \<noteq> Cb_idle) \<and>
    (nt_cb s = Cb_call \<or> nt_cb s = Cb_mod \<longrightarrow>
      (\<forall>u. reaches (notifier_step call garbage T) t u \<and> nt_exit u = Ex_unloaded \<and> \<not> nt_uaf u \<longrightarrow>
        timer_step call garbage T u = Some (u\<lparr>nt_uaf := True\<rparr>)))"
proof -
  have "nt_start call stop T pending (notifier_loaded T t0)" using assms(1,2) by (auto simp: nt_start_def)
  from ntl.reachable_inv [OF this assms(3)] assms(4)
  have s: "\<not> nt_uaf s" by (simp add: nt_inv_def loaded_ok_def)
  have t: "\<not> nt_uaf t" "nt_exit t = Ex_unregister [1, 2, 3]" "nt_cb t = nt_cb s"
    using assms(4,5) s by (auto simp: rmmod_step_def)
  have quiet: "\<not> nt_uaf u" if "nt_cb s = Cb_idle" "reaches (notifier_step call garbage T) t u" for u
    using ntq.reaches_inv [OF that(2) del_timer_quiet [OF assms(1) s assms(4,5) that(1)]]
    by (simp add: nt_quiet_def)
  have fault: "\<exists>u. reaches (notifier_step call garbage T) t u \<and> nt_uaf u" if "nt_cb s \<noteq> Cb_idle"
    using exit_to_fault [OF t(1,2), of call garbage T] t(3) that run_schedule_reaches by metis
  have rearmed: "timer_step call garbage T u = Some (u\<lparr>nt_uaf := True\<rparr>)"
    if "nt_cb s = Cb_call \<or> nt_cb s = Cb_mod" "reaches (notifier_step call garbage T) t u"
      "nt_exit u = Ex_unloaded" "\<not> nt_uaf u" for u
    using rearmed_fault ntr.reaches_inv [OF that(2) del_timer_rearmed [OF assms(1,4,5) that(1)]] that(3,4)
    by blast
  show ?thesis using quiet fault rearmed by blast
qed

theorem notifier_unload_races_timer_witness:
  "\<exists>t u. rmmod_step flag_timer mid_callback = Some t \<and>
    reaches (notifier_step seen_call (\<lambda>_ _. 0) flag_timer) t u \<and> nt_uaf u"
  using notifier_unload_races_timer [OF flag_timer_spec seen_call_spec mid_callback_reached]
  by (auto simp: mid_callback_def rmmod_step_def)

end
