(* ===== verification/Spec2Isabelle.thy ===== *)
theory Spec2Isabelle
  imports Storage_Interface Scheduler File_Operate File_Operate_Threads Queue_Wait Queue_Wait_Safety
    Queue_Wait_Programs Share_Mem Share_Mem_Threads Share_Mem_Locks Share_Mem_File Share_Mem_App
    Block_Device Semaphore_Dev Lifecycle Module_Exposure Module_Pinning Module_System Char_Dev Mapped_Page Kernel_Signal
    Kernel_Signal_Race Pipe_Program Process_Programs Fifo_Programs Fifo_Creation Fifo_Modes Tcp_Programs Tcp_System
    Device_Model Kobject_Sysfs Delay_Loop Notifier_Timer
begin

text \<open>
  A verification development for the Linux driver and process examples of this repository.

  The program. The repository holds small kernel modules and the user programs that exercise
  them, each in a directory of its own. Most modules are character devices: they keep a few
  globals, register file operations when loaded, and talk to the user through
  \<open>copy_from_user\<close> and \<open>copy_to_user\<close>. Three of them are about concurrency (a wait queue, a
  mutex, a semaphore), one is a block device behind the kernel's request queue, one maps a page
  into processes, one sends signals; the user programs use the devices, pipes, FIFOs, message
  queues, shared memory and sockets.

  Theories and code (paths under \<open>src/\<close>).

  Kernel_Prelude: integer conversions of C, faults, byte arrays (\<open>load\<close>, \<open>store\<close>), C strings, the
  user-memory access as a parameter (\<open>uaccess\<close>), and the byte-wise copy loop that two
  drivers share. Storage_Interface: the contracts \<open>byte_store\<close> (a read sees the last write) and
  \<open>byte_fifo\<close> (bytes come out in order, none lost), with the lemmas on sequences of transfers.
  Scheduler: atomic steps of threads, \<open>reaches\<close>, schedules, and the contracts
  \<open>threaded_system\<close> (an invariant of all interleavings), \<open>terminating_system\<close> (bounded
  schedules, no deadlock) and \<open>refined_system\<close> (each step is one of another system's, or none).

  File_Operate: \<open>03-fileOperate/fileOperate/RWTest\<close>, a byte buffer of 100; record \<open>rw_dev\<close> are the
  driver's globals; \<open>byte_fifo\<close> is interpreted on its read and write. File_Operate_Threads: the same
  handlers as steps of several processes (\<open>rw_tstep\<close>), which the driver does nothing to keep apart; a call
  alone is the handler (\<open>rw_calls_alone_are_handlers\<close>).
  Queue_Wait: \<open>04-queue_wait/queue_wait_dev.c\<close>, handlers and their atomic steps (\<open>qw_tstep\<close>), one
  step per statement on shared state; the kernel's wait queue is the parameter \<open>wait_ops\<close>, and only \<open>wake_up\<close>,
  a step of the writer, or a signal lets a sleeper go on; both thread contracts are interpreted. Queue_Wait_Safety: any
  number of calls on it that begin at any time, writes one after the other (\<open>qw_sys_step\<close>).
  Queue_Wait_Programs: its test programs \<open>write.c\<close> and \<open>read.c\<close> as callers of these threads.
  Share_Mem: \<open>03-fileOperate/mutex\<close>, the driver without its calls on the mutex and the thread
  function of \<open>app.c\<close>, run sequentially; \<open>byte_store\<close> is interpreted. Share_Mem_Locks: the handlers
  of \<open>useMutex\<close> with the mutex, equivalent to those of \<open>unuseMutex\<close> for one caller. Share_Mem_File:
  both drivers behind their tables \<open>myfops\<close>, with any number of open files, against a file of 128 bytes
  (\<open>mem_file\<close>); \<open>file_driver\<close> is what a table has to do for that, interpreted on both.
  Delay_Loop: their busy wait and their writes with a clock, which measures how long the mutex is held;
  \<open>delay_loops\<close> is interpreted on both.
  Share_Mem_Threads: the calls as threads, with the mutex and, for \<open>unuseMutex\<close>, without. Share_Mem_App: the whole
  test program, \<open>main\<close> creating the threads and the threads opening the device, allocating and calling, any of
  which may fail; \<open>refined_system\<close> is interpreted on it and the system of the calls.
  Semaphore_Dev: \<open>03-fileOperate/semaphore/semaphore_drv.c\<close> with sleeping readers.
  Block_Device: \<open>12-block_device/block_device.c\<close>; \<open>simp_blkdev_do_request\<close> over the block layer
  as a parameter, refined by the disk that serves whole requests (\<open>disk_run\<close>); \<open>byte_store\<close> is
  interpreted on the disk's array.
  Lifecycle: the init and exit functions of the nineteen modules as sequences of kernel calls,
  checked against a ledger of what is held (a structure of \<open>cdev_alloc\<close> given to \<open>cdev_init\<close> is not freed by
  \<open>cdev_del\<close>); \<open>leaking_module\<close>, \<open>clean_module\<close> and
  \<open>careful_module\<close> are interpreted on them. Module_Exposure: the points of a load and unload at which the
  module's callbacks can already, or still, be entered (\<open>early\<close>), and what they rely on. Module_Pinning: the
  drivers' tables of file operations, and processes that open, use, map and close a device while the module
  is unloaded (\<open>pin_step\<close>); \<open>threaded_system\<close> is interpreted on them. Module_System: all nineteen modules
  on one machine under any sequence of \<open>insmod\<close> and \<open>rmmod\<close> (\<open>session\<close>), with the names they share, the symbols
  of the bus, and the device and driver structures; \<open>exact_module\<close> is interpreted on every module.
  Char_Dev: \<open>02-creatDevice/char_dev\<close> (ioctl) and \<open>misc_dev\<close>. Mapped_Page: \<open>11-mmap\<close>, the driver and
  its program over physical memory and one address space per process. Kernel_Signal:
  \<open>10-sigaction\<close>. Kernel_Signal_Race: the copy of that example in \<open>nonblock_ asynchronous\<close> as steps of
  writers, program and exiting task. Device_Model: \<open>06-bus\<close>, \<open>07-kobject\<close>, \<open>05-Notifier\<close> and the driver of
  \<open>08-platform\<close>. Kobject_Sysfs: the tables of \<open>07-kobject\<close>, the users of its attribute file
  (\<open>so_step\<close>) and the event operations of its kset. Notifier_Timer: the timer callback of \<open>05-Notifier\<close> and the unload as two threads.
  Pipe_Program: \<open>01-ProcessCtrl/pipe_rw.c\<close>, parent and child as interleaved steps.
  Process_Programs: the other programs of \<open>01-ProcessCtrl\<close> (shared memory, message queue,
  thread, signal). Fifo_Programs: the FIFO writer and the loops of its readers. Fifo_Creation: how all
  readers make and open the FIFO, with the permissions it gets, over a directory in which every call may
  fail. Fifo_Modes: the
  blocking, polling and selecting readers of \<open>03-fileOperate/fileOperate\<close> against the writers beside them,
  with opening, which may fail, waiting and closing as steps. Tcp_Programs: \<open>09-TCP\<close>, each program over the
  results of its calls. Tcp_System: the server and any number of clients as threads over a network in which
  every call may fail; \<open>terminating_system\<close> is interpreted on them.

  How code is read. State is a record, an operation a function to the new state and the
  result; \<open>Inl\<close> of a \<open>fault\<close> is an access outside an array or through a null pointer, which in
  C would corrupt or crash the kernel. C integers are \<open>int\<close> with the conversions written out
  (\<open>s32\<close>, \<open>u64\<close> and so on), or words in the block device and the ioctl driver, where the code
  shifts and compares them. Kernel services are parameters (records of functions), and what is
  documented of them is a predicate, a hypothesis of the theorems: \<open>uaccess_ok\<close>,
  \<open>user_readable\<close>, \<open>wait_spec\<close>, \<open>mutex_spec\<close>, \<open>sem_spec\<close>, \<open>block_layer_spec\<close>, \<open>kernel_ok\<close>, \<open>ioc_spec\<close>,
  \<open>vm_spec\<close>, \<open>pipe_spec\<close>, \<open>fifo_spec\<close>, \<open>fifo_kspec\<close>, \<open>msg_spec\<close>, \<open>shm_spec\<close>, \<open>chain_spec\<close>, \<open>timer_spec\<close>,
  \<open>net_spec\<close>, \<open>rcu_spec\<close>, \<open>module_kspec\<close>, \<open>dir_kspec\<close>, \<open>sysfs_kspec\<close>. Each
  has an instance, used by the witnesses. \<open>printk\<close> and \<open>printf\<close> are modelled where what is printed
  depends on the state.

  What is shown. Sequential behaviour: reads, writes and seeks of each device on every branch,
  round trips, bounds. Concurrency: serializability, mutual exclusion and termination of the
  mutex driver, the handoff and the absence of lost wakeups in the wait-queue driver,
  conservation of the semaphore, each for every interleaving (that no wakeup is lost rests on \<open>wait_spec\<close>
  and on \<open>wake_up\<close> coming behind \<open>havedata=1\<close>); and the interleavings that go
  wrong (torn writes without the mutex, two readers for one write, two writers past the array,
  a writer told 0, a write that runs past its caller's buffer, two reads of the same bytes, a timer
  that fires into an unloaded module, a module that goes while a process sleeps in it, a signal to a freed
  task). What keeps clear of them is shown
  too: one writer at a time on the wait-queue device, an unload with no callback running, a program
  that signals itself.
  The share memory: both drivers are a file of 128 bytes for every sequence of calls. The block device:
  refinement to a disk, termination, read-back, the wrap-around of its range
  check, and what becomes of requests beyond the disk. Modules: loads and unloads without
  leaks, the modules for which that fails, all modules together in any order, and
  which devices go live before they are ready or can be unloaded in use.
  Programs: messages and lines arrive unchanged, in every interleaving of the processes where
  they run at once (pipe, FIFO, the server with its clients, the programs of the wait-queue device,
  the threads of the mutex example), and what is left when their calls fail.

  Loops. The loops of the block device and of the busy waits are partial functions and their termination is
  a theorem; the copy loops recurse on the distance to the array's end; the endless loops of the
  FIFO reader and the server are unrolled for any number of rounds. No fuel is used elsewhere.

  Not modelled: file operations and release functions that only print are in the model only where their result
  matters. The bodies of kernel services are parameters. Weak memory is outside
  the model: steps are sequentially consistent. Interrupts are in it only as the timer's callback.
\<close>

end
